(* ===== verification/Qat_Prelude.thy ===== *)
theory Qat_Prelude
  imports Main "HOL-Library.Word"
begin

text \<open>
  Shared vocabulary of the development: the machine integer types of the C sources, the
  status codes of the QuickAssist API (\<open>quickassist/include/cpa.h\<close>) and the \<open>errno\<close> values the
  user-space driver returns, and the generic lemmas on lists and words that the component
  theories use.
\<close>

unbundle bit_operations_syntax

type_synonym u8 = "8 word"
type_synonym u16 = "16 word"
type_synonym u32 = "32 word"
type_synonym u64 = "64 word"

text \<open>Return values are C integers: the codes of \<open>cpa.h\<close>, or a negated \<open>errno\<close>.\<close>

type_synonym CpaStatus = int

abbreviation CPA_STATUS_SUCCESS :: CpaStatus where "CPA_STATUS_SUCCESS \<equiv> 0"
abbreviation CPA_STATUS_FAIL :: CpaStatus where "CPA_STATUS_FAIL \<equiv> - 1"
abbreviation CPA_STATUS_RETRY :: CpaStatus where "CPA_STATUS_RETRY \<equiv> - 2"
abbreviation CPA_STATUS_RESOURCE :: CpaStatus where "CPA_STATUS_RESOURCE \<equiv> - 3"
abbreviation CPA_STATUS_INVALID_PARAM :: CpaStatus where "CPA_STATUS_INVALID_PARAM \<equiv> - 4"
abbreviation CPA_STATUS_FATAL :: CpaStatus where "CPA_STATUS_FATAL \<equiv> - 5"
abbreviation CPA_STATUS_UNSUPPORTED :: CpaStatus where "CPA_STATUS_UNSUPPORTED \<equiv> - 6"
abbreviation CPA_STATUS_RESTARTING :: CpaStatus where "CPA_STATUS_RESTARTING \<equiv> - 7"

abbreviation EINTR :: int where "EINTR \<equiv> 4"
abbreviation EIO :: int where "EIO \<equiv> 5"
abbreviation ENOMEM :: int where "ENOMEM \<equiv> 12"
abbreviation EBUSY :: int where "EBUSY \<equiv> 16"
abbreviation EINVAL :: int where "EINVAL \<equiv> 22"
abbreviation EL2HLT :: int where "EL2HLT \<equiv> 51"

named_theorems bm_simps \<open>characteristic equations of the bitmap operations\<close>

section \<open>Lists\<close>

lemma nth_list_update_if:
  "i < length xs \<Longrightarrow> xs[j := v] ! i = (if i = j then v else xs ! i)"
  by (cases "i = j") auto

section \<open>Numbers\<close>

lemma div_mod_eqI:
  fixes i q r n :: nat
  assumes "i = q * n + r" and "r < n"
  shows "i div n = q" and "i mod n = r"
  using assms by auto

section \<open>Words\<close>

lemma bit_mask_word:
  "bit (mask n :: 'a::len word) i \<longleftrightarrow> i < n \<and> i < LENGTH('a)"
  by (auto simp: bit_mask_iff)

lemma and_not_mask: "x AND NOT (mask n) = push_bit n (drop_bit n (x :: 'a::len word))"
  by (rule bit_word_eqI) (auto simp: bit_simps not_less)

end
