(* ===== verification/Usdm_List.thy ===== *)
theory Usdm_List
  imports Qat_Prelude
begin

text \<open>
  The intrusive doubly linked lists of the memory library (the macros of \<open>include/qae_mem_utils.h\<close>).
  The links of an element are fields of the element itself, here two functions of its address; a
  list is its head and tail, and 0 is NULL.  The lemmas relate the macros to operations on HOL
  lists, which the theory of the slabs then uses.
\<close>

section \<open>Macros\<close>

record links =
  pPrev :: "u64 \<Rightarrow> u64"
  pNext :: "u64 \<Rightarrow> u64"

record slab_list =
  l_head :: u64
  l_tail :: u64

definition ADD_ELEMENT_TO_HEAD_LIST :: "u64 \<Rightarrow> slab_list \<times> links \<Rightarrow> slab_list \<times> links" where
  "ADD_ELEMENT_TO_HEAD_LIST e = (\<lambda>(l, k).
     let k1 = k\<lparr>pPrev := (pPrev k)(e := 0)\<rparr>
     in if l_head l = 0 then (\<lparr>l_head = e, l_tail = e\<rparr>, k1\<lparr>pNext := (pNext k1)(e := 0)\<rparr>)
        else (l\<lparr>l_head := e\<rparr>,
              k1\<lparr>pNext := (pNext k1)(e := l_head l), pPrev := (pPrev k1)(l_head l := e)\<rparr>))"

definition ADD_ELEMENT_TO_END_LIST :: "u64 \<Rightarrow> slab_list \<times> links \<Rightarrow> slab_list \<times> links" where
  "ADD_ELEMENT_TO_END_LIST e = (\<lambda>(l, k).
     let k1 = k\<lparr>pNext := (pNext k)(e := 0)\<rparr>
     in if l_tail l = 0 then (\<lparr>l_head = e, l_tail = e\<rparr>, k1\<lparr>pPrev := (pPrev k1)(e := 0)\<rparr>)
        else (l\<lparr>l_tail := e\<rparr>,
              k1\<lparr>pPrev := (pPrev k1)(e := l_tail l), pNext := (pNext k1)(l_tail l := e)\<rparr>))"

definition REMOVE_ELEMENT_FROM_LIST :: "u64 \<Rightarrow> slab_list \<times> links \<Rightarrow> slab_list \<times> links" where
  "REMOVE_ELEMENT_FROM_LIST e = (\<lambda>(l, k).
     if pPrev k e \<noteq> 0
     then let k1 = k\<lparr>pNext := (pNext k)(pPrev k e := pNext k e)\<rparr>
          in if pNext k1 e \<noteq> 0 then (l, k1\<lparr>pPrev := (pPrev k1)(pNext k1 e := pPrev k1 e)\<rparr>)
             else (l\<lparr>l_tail := pPrev k1 e\<rparr>, k1)
     else if pNext k e \<noteq> 0
     then (l\<lparr>l_head := pNext k e\<rparr>, k\<lparr>pPrev := (pPrev k)(pNext k e := 0)\<rparr>)
     else (\<lparr>l_head = 0, l_tail = 0\<rparr>, k))"

text \<open>A loop over the list, \<open>for (e = head; e != NULL; e = e->pNext)\<close>, with a bound on its steps.\<close>

fun walk :: "nat \<Rightarrow> links \<Rightarrow> u64 \<Rightarrow> u64 list option" where
  "walk n k e = (if e = 0 then Some [] else case n of 0 \<Rightarrow> None | Suc m \<Rightarrow> map_option ((#) e) (walk m k (pNext k e)))"

declare walk.simps [simp del]

section \<open>Lists in memory\<close>

fun first_of :: "u64 list \<Rightarrow> u64 \<Rightarrow> u64" where
  "first_of [] n = n"
| "first_of (x # xs) n = x"

fun linked :: "links \<Rightarrow> u64 \<Rightarrow> u64 list \<Rightarrow> u64 \<Rightarrow> bool" where
  "linked k p [] n \<longleftrightarrow> True"
| "linked k p (x # xs) n \<longleftrightarrow> pPrev k x = p \<and> pNext k x = first_of xs n \<and> linked k x xs n"

definition last_of :: "u64 \<Rightarrow> u64 list \<Rightarrow> u64" where
  "last_of p xs = (if xs = [] then p else last xs)"

definition in_memory :: "slab_list \<times> links \<Rightarrow> u64 list \<Rightarrow> bool" where
  "in_memory s xs \<longleftrightarrow> distinct xs \<and> 0 \<notin> set xs \<and> l_head (fst s) = first_of xs 0 \<and>
     l_tail (fst s) = last_of 0 xs \<and> linked (snd s) 0 xs 0"

lemma last_of_simps [simp]:
  "last_of p [] = p" "last_of p (x # xs) = last_of x xs" "last_of p (xs @ ys) = last_of (last_of p xs) ys"
  by (simp_all add: last_of_def)

lemma first_of_append [simp]: "first_of (xs @ ys) n = first_of xs (first_of ys n)"
  by (cases xs) simp_all

lemma last_of_in: "xs \<noteq> [] \<Longrightarrow> last_of p xs \<in> set xs"
  by (simp add: last_of_def)

lemma linked_append:
  "linked k p (xs @ ys) n \<longleftrightarrow> linked k p xs (first_of ys n) \<and> linked k (last_of p xs) ys n"
  by (induction xs arbitrary: p) auto

lemma linked_frame:
  "\<forall>x \<in> set xs. pPrev k' x = pPrev k x \<and> pNext k' x = pNext k x \<Longrightarrow> linked k' p xs n = linked k p xs n"
  by (induction xs arbitrary: p) auto

text \<open>Changing the link at one end of a segment.\<close>

lemma linked_prev:
  "distinct xs \<Longrightarrow> linked k p xs n \<Longrightarrow> (\<forall>x \<in> set xs. pNext k' x = pNext k x) \<Longrightarrow>
   (\<forall>x \<in> set xs. x \<noteq> first_of xs 0 \<longrightarrow> pPrev k' x = pPrev k x) \<Longrightarrow> (xs \<noteq> [] \<longrightarrow> pPrev k' (first_of xs 0) = q) \<Longrightarrow>
   linked k' q xs n"
proof (cases xs)
  case (Cons x ys)
  assume "distinct xs" "linked k p xs n" "\<forall>x \<in> set xs. pNext k' x = pNext k x"
    "\<forall>x \<in> set xs. x \<noteq> first_of xs 0 \<longrightarrow> pPrev k' x = pPrev k x" "xs \<noteq> [] \<longrightarrow> pPrev k' (first_of xs 0) = q"
  then show ?thesis using Cons linked_frame [of ys k' k x n] by auto metis
qed simp

lemma linked_next:
  assumes "distinct (xs @ [y])" "linked k p (xs @ [y]) n"
    and "\<forall>x \<in> set (xs @ [y]). pPrev k' x = pPrev k x" "\<forall>x \<in> set xs. pNext k' x = pNext k x" "pNext k' y = m"
  shows "linked k' p (xs @ [y]) m"
  using assms linked_frame [of xs k' k p y] by (auto simp: linked_append)

section \<open>The macros on lists\<close>

lemma add_head:
  assumes "in_memory s xs" and "e \<noteq> 0" and "e \<notin> set xs"
  shows "in_memory (ADD_ELEMENT_TO_HEAD_LIST e s) (e # xs)"
proof (cases xs)
  case Nil
  then show ?thesis using assms
    by (auto simp: in_memory_def ADD_ELEMENT_TO_HEAD_LIST_def Let_def split: prod.split)
next
  case (Cons x ys)
  let ?k = "snd s"
  let ?k' = "snd (ADD_ELEMENT_TO_HEAD_LIST e s)"
  have "l_head (fst s) = x" "x \<noteq> 0" using assms Cons by (auto simp: in_memory_def)
  then have k': "?k' = \<lparr>pPrev = (pPrev ?k)(e := 0, x := e), pNext = (pNext ?k)(e := x)\<rparr>"
    and h: "fst (ADD_ELEMENT_TO_HEAD_LIST e s) = (fst s)\<lparr>l_head := e\<rparr>"
    by (cases s; simp add: ADD_ELEMENT_TO_HEAD_LIST_def Let_def)+
  have "linked ?k' e xs 0"
    by (rule linked_prev [where k = ?k and p = 0]) (use assms Cons in \<open>auto simp: in_memory_def k'\<close>)
  then show ?thesis using assms Cons by (auto simp: in_memory_def k' h)
qed

lemma add_end:
  assumes "in_memory s xs" and "e \<noteq> 0" and "e \<notin> set xs"
  shows "in_memory (ADD_ELEMENT_TO_END_LIST e s) (xs @ [e])"
proof (cases xs rule: rev_cases)
  case Nil
  then show ?thesis using assms
    by (auto simp: in_memory_def ADD_ELEMENT_TO_END_LIST_def Let_def split: prod.split)
next
  case (snoc ys y)
  let ?k = "snd s"
  let ?k' = "snd (ADD_ELEMENT_TO_END_LIST e s)"
  have "l_tail (fst s) = y" "y \<noteq> 0" using assms snoc by (auto simp: in_memory_def)
  then have k': "?k' = \<lparr>pPrev = (pPrev ?k)(e := y), pNext = (pNext ?k)(e := 0, y := e)\<rparr>"
    and h: "fst (ADD_ELEMENT_TO_END_LIST e s) = (fst s)\<lparr>l_tail := e\<rparr>"
    by (cases s; simp add: ADD_ELEMENT_TO_END_LIST_def Let_def)+
  have "linked ?k' 0 (ys @ [y]) e"
    by (rule linked_next [where k = ?k and n = 0]) (use assms snoc in \<open>auto simp: in_memory_def k'\<close>)
  then show ?thesis using assms snoc by (auto simp: in_memory_def k' h linked_append)
qed

lemma first_of_ne: "xs \<noteq> [] \<Longrightarrow> first_of xs a = first_of xs b"
  by (cases xs) auto

lemma last_of_ne: "xs \<noteq> [] \<Longrightarrow> last_of a xs = last_of b xs"
  by (simp add: last_of_def)

lemma first_of_in: "xs \<noteq> [] \<Longrightarrow> first_of xs n \<in> set xs"
  by (cases xs) auto

lemma in_memory_split:
  assumes "in_memory (l, k) (xs @ e # ys)"
  shows "distinct xs" "distinct ys" "e \<notin> set xs" "e \<notin> set ys" "set xs \<inter> set ys = {}" "0 \<notin> set xs" "0 \<notin> set ys" "e \<noteq> 0"
    "linked k 0 xs e" "pPrev k e = last_of 0 xs" "pNext k e = first_of ys 0" "linked k e ys 0"
    "l_head l = first_of xs e" "l_tail l = last_of e ys"
  using assms by (auto simp: in_memory_def linked_append)

lemma remove_eq:
  assumes "in_memory (l, k) (xs @ e # ys)"
  shows "REMOVE_ELEMENT_FROM_LIST e (l, k) =
      (if xs \<noteq> [] then if ys \<noteq> []
         then (l, k\<lparr>pPrev := (pPrev k)(first_of ys 0 := last_of 0 xs), pNext := (pNext k)(last_of 0 xs := first_of ys 0)\<rparr>)
         else (l\<lparr>l_tail := last_of 0 xs\<rparr>, k\<lparr>pNext := (pNext k)(last_of 0 xs := first_of ys 0)\<rparr>)
       else if ys \<noteq> [] then (l\<lparr>l_head := first_of ys 0\<rparr>, k\<lparr>pPrev := (pPrev k)(first_of ys 0 := last_of 0 xs)\<rparr>)
       else (\<lparr>l_head = 0, l_tail = 0\<rparr>, k))"
proof -
  note d = in_memory_split [OF assms]
  have xs0: "last_of 0 xs = 0 \<longleftrightarrow> xs = []" using d(6) last_of_in [of xs 0] by (cases "xs = []") auto
  have ys0: "first_of ys 0 = 0 \<longleftrightarrow> ys = []" using d(7) first_of_in [of ys 0] by (cases "ys = []") auto
  have "last_of 0 xs \<noteq> e" using d(3,8) last_of_in [of xs 0] by (cases "xs = []") auto
  then show ?thesis using xs0 ys0 by (simp add: REMOVE_ELEMENT_FROM_LIST_def Let_def d(10,11))
qed

lemma remove_element:
  assumes "in_memory s (xs @ e # ys)"
  shows "in_memory (REMOVE_ELEMENT_FROM_LIST e s) (xs @ ys)"
proof -
  obtain l k where s: "s = (l, k)" by fastforce
  note m = assms [unfolded s]
  note d = in_memory_split [OF m]
  obtain l' k' where r: "REMOVE_ELEMENT_FROM_LIST e s = (l', k')" by fastforce
  have k': "pPrev k' = (if ys = [] then pPrev k else (pPrev k)(first_of ys 0 := last_of 0 xs))"
      "pNext k' = (if xs = [] then pNext k else (pNext k)(last_of 0 xs := first_of ys 0))"
    using r unfolding s remove_eq [OF m] by (auto split: if_splits)
  have l': "l_head l' = first_of (xs @ ys) 0" "l_tail l' = last_of 0 (xs @ ys)"
    using r d(13,14) first_of_ne [of xs e 0] first_of_ne [of xs e "first_of ys 0"]
      last_of_ne [of ys e 0] last_of_ne [of ys e "last_of 0 xs"] unfolding s remove_eq [OF m]
    by (auto split: if_splits)
  have "linked k' (last_of 0 xs) ys 0"
    by (rule linked_prev [where k = k and p = e]) (use d k' last_of_in [of xs 0] in \<open>auto\<close>)
  moreover have "linked k' 0 xs (first_of ys 0)"
  proof (cases xs rule: rev_cases)
    case (snoc zs z)
    show ?thesis unfolding snoc
      by (rule linked_next [where k = k and n = e]) (use d k' snoc first_of_in [of ys 0] in \<open>auto\<close>)
  qed simp
  ultimately show ?thesis using d l' by (auto simp: in_memory_def r linked_append)
qed

text \<open>Each macro writes only to the element and its neighbours, so other lists are not affected.\<close>

datatype list_op = AddHead u64 | AddEnd u64 | Remove u64

fun op_element :: "list_op \<Rightarrow> u64" where
  "op_element (AddHead e) = e"
| "op_element (AddEnd e) = e"
| "op_element (Remove e) = e"

fun apply_op :: "list_op \<Rightarrow> slab_list \<times> links \<Rightarrow> slab_list \<times> links" where
  "apply_op (AddHead e) = ADD_ELEMENT_TO_HEAD_LIST e"
| "apply_op (AddEnd e) = ADD_ELEMENT_TO_END_LIST e"
| "apply_op (Remove e) = REMOVE_ELEMENT_FROM_LIST e"

fun spec_op :: "list_op \<Rightarrow> u64 list \<Rightarrow> u64 list" where
  "spec_op (AddHead e) xs = e # xs"
| "spec_op (AddEnd e) xs = xs @ [e]"
| "spec_op (Remove e) xs = remove1 e xs"

fun op_valid :: "list_op \<Rightarrow> u64 list \<Rightarrow> bool" where
  "op_valid (AddHead e) xs \<longleftrightarrow> e \<noteq> 0 \<and> e \<notin> set xs"
| "op_valid (AddEnd e) xs \<longleftrightarrow> e \<noteq> 0 \<and> e \<notin> set xs"
| "op_valid (Remove e) xs \<longleftrightarrow> e \<in> set xs"

fun ops_valid :: "list_op list \<Rightarrow> u64 list \<Rightarrow> bool" where
  "ops_valid [] xs \<longleftrightarrow> True"
| "ops_valid (x # ops) xs \<longleftrightarrow> op_valid x xs \<and> ops_valid ops (spec_op x xs)"

lemma apply_op_in_memory: "in_memory s xs \<Longrightarrow> op_valid x xs \<Longrightarrow> in_memory (apply_op x s) (spec_op x xs)"
proof (cases x)
  case (Remove e)
  assume m: "in_memory s xs" and "op_valid x xs"
  then obtain ys zs where xs: "xs = ys @ e # zs" "e \<notin> set ys" using Remove by (auto dest: split_list_first)
  then show ?thesis using remove_element [of s ys e zs] m Remove by (simp add: remove1_append)
qed (simp_all add: add_head add_end)

lemma apply_op_frame:
  assumes "in_memory s xs" and "op_valid x xs" and "y \<notin> insert (op_element x) (set xs)"
  shows "pPrev (snd (apply_op x s)) y = pPrev (snd s) y" "pNext (snd (apply_op x s)) y = pNext (snd s) y"
proof -
  obtain l k where s: "s = (l, k)" by fastforce
  have "pPrev (snd (apply_op x s)) y = pPrev (snd s) y \<and> pNext (snd (apply_op x s)) y = pNext (snd s) y"
  proof (cases x)
    case (Remove e)
    then obtain ys zs where xs: "xs = ys @ e # zs" using assms(2) by (auto dest: split_list_first)
    show ?thesis
      using Remove assms(3) last_of_in [of ys 0] first_of_in [of zs 0]
      by (auto simp: s xs remove_eq [OF assms(1) [unfolded s xs]])
  next
    case (AddHead e)
    then show ?thesis using assms first_of_in [of xs 0]
      by (cases "xs = []") (auto simp: s in_memory_def ADD_ELEMENT_TO_HEAD_LIST_def Let_def)
  next
    case (AddEnd e)
    then show ?thesis using assms last_of_in [of xs 0]
      by (cases "xs = []") (auto simp: s in_memory_def ADD_ELEMENT_TO_END_LIST_def Let_def)
  qed
  then show "pPrev (snd (apply_op x s)) y = pPrev (snd s) y" "pNext (snd (apply_op x s)) y = pNext (snd s) y"
    by simp_all
qed

lemma apply_ops_in_memory:
  "in_memory s xs \<Longrightarrow> ops_valid ops xs \<Longrightarrow>
   in_memory (fold apply_op ops s) (fold spec_op ops xs) \<and>
   (\<forall>y. y \<notin> set xs \<and> y \<notin> op_element ` set ops \<longrightarrow>
     pPrev (snd (fold apply_op ops s)) y = pPrev (snd s) y \<and> pNext (snd (fold apply_op ops s)) y = pNext (snd s) y)"
proof (induction ops arbitrary: s xs)
  case (Cons x ops)
  have v: "op_valid x xs" "ops_valid ops (spec_op x xs)" using Cons.prems(2) by auto
  note IH = Cons.IH [OF apply_op_in_memory [OF Cons.prems(1) v(1)] v(2)]
  have "set (spec_op x xs) \<subseteq> insert (op_element x) (set xs)" by (cases x) (auto dest: notin_set_remove1)
  then show ?case using IH apply_op_frame [OF Cons.prems(1) v(1)] by auto
qed simp

lemma walk_linked: "linked k p xs 0 \<Longrightarrow> 0 \<notin> set xs \<Longrightarrow> length xs \<le> n \<Longrightarrow> walk n k (first_of xs 0) = Some xs"
proof (induction xs arbitrary: n p)
  case (Cons x xs)
  then show ?case by (cases n) (auto simp: walk.simps [of _ _ x])
qed (simp add: walk.simps)

section \<open>Properties\<close>

text \<open>C22.  The list macros implement lists: after any sequence of insertions at either end and removals,
  the memory holds the list that the same operations give on HOL lists, a loop over it visits exactly
  its elements in order, and every list of other elements in the same memory is unchanged.\<close>

theorem list_macros_refine:
  assumes "in_memory s xs" and "ops_valid ops xs"
  shows "in_memory (fold apply_op ops s) (fold spec_op ops xs) \<and>
    walk (length (fold spec_op ops xs)) (snd (fold apply_op ops s)) (l_head (fst (fold apply_op ops s))) =
      Some (fold spec_op ops xs) \<and>
    (\<forall>l ys. in_memory (l, snd s) ys \<and> set ys \<inter> (set xs \<union> op_element ` set ops) = {} \<longrightarrow>
      in_memory (l, snd (fold apply_op ops s)) ys)"
proof -
  note r = apply_ops_in_memory [OF assms]
  have "in_memory (l, snd (fold apply_op ops s)) ys"
    if "in_memory (l, snd s) ys" "set ys \<inter> (set xs \<union> op_element ` set ops) = {}" for l ys
    using that r linked_frame [of ys "snd (fold apply_op ops s)" "snd s" 0 0]
    by (simp add: in_memory_def disjoint_iff)
  moreover have "walk (length (fold spec_op ops xs)) (snd (fold apply_op ops s)) (l_head (fst (fold apply_op ops s))) =
      Some (fold spec_op ops xs)"
    using r walk_linked [of "snd (fold apply_op ops s)" 0 "fold spec_op ops xs"] by (auto simp: in_memory_def)
  ultimately show ?thesis using r by blast
qed

definition no_links :: "slab_list \<times> links" where
  "no_links = (\<lparr>l_head = 0, l_tail = 0\<rparr>, \<lparr>pPrev = (\<lambda>_. 0), pNext = (\<lambda>_. 0)\<rparr>)"

theorem list_macros_refine_witness:
  "walk 2 (snd (fold apply_op [AddHead 1, AddEnd 2, AddHead 3, Remove 1] no_links))
     (l_head (fst (fold apply_op [AddHead 1, AddEnd 2, AddHead 3, Remove 1] no_links))) = Some [3, 2]"
proof -
  have "in_memory no_links []" "ops_valid [AddHead 1, AddEnd 2, AddHead 3, Remove 1] []"
    by (simp_all add: no_links_def in_memory_def)
  from list_macros_refine [OF this] show ?thesis by (simp add: numeral_2_eq_2)
qed

end
