(* ===== verification/Usdm_Bitmap.thy ===== *)
theory Usdm_Bitmap
  imports Qat_Prelude
begin

text \<open>
  The block allocator inside one 2 MB slab of the user space DMA memory library
  (\<open>utilities/libusdm_drv/user_space/qae_mem_utils_common.c\<close> and \<open>.h\<close>). A slab starts with a
  control structure \<open>block_ctrl_t\<close>: a bitmap with one bit per 1 KB unit, closed by one
  all-ones quad word that stops the search, and a table with the length of every allocated
  block. The operations are the window read, the bit range setters, the first-fit search
  \<open>__qae_mem_alloc\<close> and \<open>__qae_mem_free\<close>. Positions and counts are natural numbers: they stay
  far below the width of \<open>size_t\<close>. The requested size is a 64-bit word, because rounding it
  up to units can wrap.
\<close>

section \<open>Constants and control structure\<close>

definition UNIT_SIZE :: nat where
  "UNIT_SIZE = 1024"

abbreviation QWORD_WIDTH :: nat where
  "QWORD_WIDTH \<equiv> 64"

definition BITMAP_LEN :: nat where
  "BITMAP_LEN = 512 * 4096 div (UNIT_SIZE * QWORD_WIDTH)"

definition QWORD_ALL_ONE :: u64 where
  "QWORD_ALL_ONE = 0xFFFFFFFFFFFFFFFF"

definition BLOCK_SIZES :: nat where
  "BLOCK_SIZES = BITMAP_LEN * QWORD_WIDTH"

text \<open>
  The slab bytes are modelled as \<open>slab_data\<close>, indexed by the offset from the start of the
  slab, so that the clearing of a freed block is visible.
\<close>

record block_ctrl =
  bitmap :: "u64 list"
  sizes :: "u16 list"
  slab_data :: "nat \<Rightarrow> u8"

definition qae_bitmask :: "u64 list" where
  "qae_bitmask = [
    0x0000000000000000, 0x0000000000000001, 0x0000000000000003,
    0x0000000000000007, 0x000000000000000f, 0x000000000000001f,
    0x000000000000003f, 0x000000000000007f, 0x00000000000000ff,
    0x00000000000001ff, 0x00000000000003ff, 0x00000000000007ff,
    0x0000000000000fff, 0x0000000000001fff, 0x0000000000003fff,
    0x0000000000007fff, 0x000000000000ffff, 0x000000000001ffff,
    0x000000000003ffff, 0x000000000007ffff, 0x00000000000fffff,
    0x00000000001fffff, 0x00000000003fffff, 0x00000000007fffff,
    0x0000000000ffffff, 0x0000000001ffffff, 0x0000000003ffffff,
    0x0000000007ffffff, 0x000000000fffffff, 0x000000001fffffff,
    0x000000003fffffff, 0x000000007fffffff, 0x00000000ffffffff,
    0x00000001ffffffff, 0x00000003ffffffff, 0x00000007ffffffff,
    0x0000000fffffffff, 0x0000001fffffffff, 0x0000003fffffffff,
    0x0000007fffffffff, 0x000000ffffffffff, 0x000001ffffffffff,
    0x000003ffffffffff, 0x000007ffffffffff, 0x00000fffffffffff,
    0x00001fffffffffff, 0x00003fffffffffff, 0x00007fffffffffff,
    0x0000ffffffffffff, 0x0001ffffffffffff, 0x0003ffffffffffff,
    0x0007ffffffffffff, 0x000fffffffffffff, 0x001fffffffffffff,
    0x003fffffffffffff, 0x007fffffffffffff, 0x00ffffffffffffff,
    0x01ffffffffffffff, 0x03ffffffffffffff, 0x07ffffffffffffff,
    0x0fffffffffffffff, 0x1fffffffffffffff, 0x3fffffffffffffff,
    0x7fffffffffffffff, 0xffffffffffffffff]"

section \<open>Bit range operations\<close>

definition div_round_up :: "u64 \<Rightarrow> u64 \<Rightarrow> u64" where
  "div_round_up n d = (n + d - 1) div d"

definition mem_ctzll :: "u64 \<Rightarrow> nat" where
  "mem_ctzll bitmap_window =
     (if bitmap_window \<noteq> 0
      then length (takeWhile (\<lambda>i. \<not> bit bitmap_window i) [0..<QWORD_WIDTH])
      else QWORD_WIDTH)"

definition bitmap_read :: "u64 list \<Rightarrow> nat \<Rightarrow> u64" where
  "bitmap_read bmap window_pos =
     (let quad_word_pos = window_pos div QWORD_WIDTH in
      if quad_word_pos \<ge> BITMAP_LEN then QWORD_ALL_ONE
      else
        let bit_pos = window_pos mod QWORD_WIDTH;
            quad_word_window = bmap ! quad_word_pos in
        if bit_pos = 0 then quad_word_window
        else
          let next_quad_word = bmap ! (quad_word_pos + 1) in
          drop_bit bit_pos quad_word_window
            OR push_bit (QWORD_WIDTH - bit_pos) next_quad_word)"

text \<open>The loop \<open>while (num--) bitmap[qword++] = v\<close>: the bitmap and the final \<open>qword\<close>.\<close>

fun fill_qwords :: "u64 \<Rightarrow> nat \<Rightarrow> u64 list \<Rightarrow> nat \<Rightarrow> u64 list \<times> nat" where
  "fill_qwords v 0 b qword = (b, qword)"
| "fill_qwords v (Suc num) b qword = fill_qwords v num (b[qword := v]) (Suc qword)"

definition clear_bitmap :: "u64 list \<Rightarrow> nat \<Rightarrow> nat \<Rightarrow> u64 list" where
  "clear_bitmap b index len =
     (let qword = index div QWORD_WIDTH;
          offset = index mod QWORD_WIDTH;
          (b1, len1, qword1) =
            (if offset > 0
             then let width = min len (QWORD_WIDTH - offset);
                      mask = push_bit offset (qae_bitmask ! width)
                  in (b[qword := b ! qword AND NOT mask], len - width, qword + 1)
             else (b, len, qword));
          num = len1 div QWORD_WIDTH;
          len2 = len1 mod QWORD_WIDTH;
          (b2, qword2) = fill_qwords 0 num b1 qword1
      in b2[qword2 := b2 ! qword2 AND NOT (qae_bitmask ! len2)])"

definition set_bitmap :: "u64 list \<Rightarrow> nat \<Rightarrow> nat \<Rightarrow> u64 list" where
  "set_bitmap b index len =
     (let qword = index div QWORD_WIDTH;
          offset = index mod QWORD_WIDTH;
          (b1, len1, qword1) =
            (if offset > 0
             then let width = min len (QWORD_WIDTH - offset);
                      mask = push_bit offset (qae_bitmask ! width)
                  in (b[qword := b ! qword OR mask], len - width, qword + 1)
             else (b, len, qword));
          num = len1 div QWORD_WIDTH;
          len2 = len1 mod QWORD_WIDTH;
          (b2, qword2) = fill_qwords QWORD_ALL_ONE num b1 qword1
      in b2[qword2 := b2 ! qword2 OR (qae_bitmask ! len2)])"

section \<open>Reading and writing single bits\<close>

text \<open>The abstract view of a bitmap: is unit \<open>i\<close> taken?\<close>

definition bm_bit :: "u64 list \<Rightarrow> nat \<Rightarrow> bool" where
  "bm_bit b i = bit (b ! (i div QWORD_WIDTH)) (i mod QWORD_WIDTH)"

lemma qae_bitmask_mask: "n \<le> 64 \<Longrightarrow> qae_bitmask ! n = mask n"
proof -
  have "\<forall>k \<in> set [0..<65]. qae_bitmask ! k = mask k"
    by code_simp
  then show "n \<le> 64 \<Longrightarrow> qae_bitmask ! n = mask n"
    by simp
qed


lemma bm_bit_update:
  "q < length b \<Longrightarrow>
   bm_bit (b[q := v]) i = (if i div 64 = q then bit v (i mod 64) else bm_bit b i)"
  by (simp add: bm_bit_def nth_list_update)

lemma fill_qwords_snd [simp]: "snd (fill_qwords v n b q) = q + n"
  by (induction n arbitrary: b q) auto

lemma fill_qwords_length [simp]: "length (fst (fill_qwords v n b q)) = length b"
  by (induction n arbitrary: b q) auto

lemma fill_qwords_bit:
  "q + n \<le> length b \<Longrightarrow>
   bm_bit (fst (fill_qwords v n b q)) i =
     (if q \<le> i div 64 \<and> i div 64 < q + n then bit v (i mod 64) else bm_bit b i)"
  by (induction n arbitrary: b q) (auto simp: bm_bit_update)

section \<open>Range updates\<close>

text \<open>
  \<open>set_bitmap\<close> and \<open>clear_bitmap\<close> are one loop over two update functions: \<open>upd\<close> combines a
  quad word with a mask and \<open>full\<close> is stored where the mask covers the whole quad word.
  The contract of the pair is the locale \<open>bit_range_op\<close>.
\<close>

definition bm_range_op ::
  "(u64 \<Rightarrow> u64 \<Rightarrow> u64) \<Rightarrow> u64 \<Rightarrow> u64 list \<Rightarrow> nat \<Rightarrow> nat \<Rightarrow> u64 list" where
  "bm_range_op upd full b index len =
     (let qword = index div QWORD_WIDTH;
          offset = index mod QWORD_WIDTH;
          (b1, len1, qword1) =
            (if offset > 0
             then let width = min len (QWORD_WIDTH - offset);
                      mask = push_bit offset (qae_bitmask ! width)
                  in (b[qword := upd (b ! qword) mask], len - width, qword + 1)
             else (b, len, qword));
          num = len1 div QWORD_WIDTH;
          len2 = len1 mod QWORD_WIDTH;
          (b2, qword2) = fill_qwords full num b1 qword1
      in b2[qword2 := upd (b2 ! qword2) (qae_bitmask ! len2)])"

locale bit_range_op =
  fixes upd :: "u64 \<Rightarrow> u64 \<Rightarrow> u64" and full :: u64 and val :: bool
  assumes upd_bit: "j < 64 \<Longrightarrow> bit (upd w m) j = (if bit m j then val else bit w j)"
    and full_bit: "j < 64 \<Longrightarrow> bit full j = val"
begin

lemma range_length: "length (bm_range_op upd full b index len) = length b"
  by (simp add: bm_range_op_def Let_def case_prod_beta)

text \<open>The aligned part of the range: whole quad words, then the low bits of the next one.\<close>

lemma aligned_bit:
  assumes "q + len div 64 < length b"
  shows "bm_bit ((fst (fill_qwords full (len div 64) b q))
            [q + len div 64 := upd (fst (fill_qwords full (len div 64) b q) ! (q + len div 64))
                                   (mask (len mod 64))]) i =
         (if q * 64 \<le> i \<and> i < q * 64 + len then val else bm_bit b i)"
proof -
  let ?f = "fst (fill_qwords full (len div 64) b q)"
  have lt: "i mod 64 < 64" by simp
  have old: "bit (?f ! (i div 64)) (i mod 64) = bm_bit ?f i" by (simp add: bm_bit_def)
  have inq: "(q \<le> i div 64) = (q * 64 \<le> i)" by (simp add: less_eq_div_iff_mult_less_eq)
  show ?thesis
  proof (cases "i div 64 = q + len div 64")
    case True
    have "(i mod 64 < len mod 64) = (i < q * 64 + len)"
      using True div_mult_mod_eq [of i 64] div_mult_mod_eq [of len 64] by linarith
    moreover have "q * 64 \<le> i" using True div_mult_mod_eq [of i 64] by linarith
    ultimately show ?thesis
      using True assms old by (simp add: bm_bit_update upd_bit [OF lt] bit_mask_word fill_qwords_bit)
  next
    case False
    have "(i div 64 < q + len div 64) = (i < q * 64 + len)" if "q * 64 \<le> i"
      using False that div_mult_mod_eq [of i 64] div_mult_mod_eq [of len 64]
        mod_less_divisor [of 64 i] mod_less_divisor [of 64 len]
      by linarith
    then show ?thesis
      using False assms inq by (auto simp: bm_bit_update fill_qwords_bit full_bit [OF lt])
  qed
qed

text \<open>The effect of a range update on every unit of the map.\<close>

lemma range_bit:
  assumes b: "0 < length b" and len: "index + len \<le> 64 * (length b - 1)"
  shows "bm_bit (bm_range_op upd full b index len) i =
         (if index \<le> i \<and> i < index + len then val else bm_bit b i)"
proof (cases "index mod 64 = 0")
  case True
  then have q: "index div 64 * 64 = index" using div_mult_mod_eq [of index 64] by simp
  have "index div 64 + len div 64 = (index + len) div 64"
    using True by (metis div_plus_div_distrib_dvd_left mod_eq_0_iff_dvd)
  moreover have "(index + len) div 64 \<le> length b - 1" using div_le_mono [OF len, of 64] by simp
  ultimately have "index div 64 + len div 64 < length b" using b by linarith
  from aligned_bit [OF this, of i] q True show ?thesis
    by (simp add: bm_range_op_def Let_def case_prod_beta qae_bitmask_mask)
next
  case False
  define off where "off = index mod 64"
  define q where "q = index div 64"
  define w where "w = min len (64 - off)"
  define b1 where "b1 = b[q := upd (b ! q) (push_bit off (mask w))]"
  have idx: "index = q * 64 + off" by (simp add: off_def q_def)
  have off: "0 < off" "off < 64" using False by (auto simp: off_def)
  have w: "w \<le> len" "w \<le> 64 - off" "w < 64" using off by (auto simp: w_def)
  have qlen: "Suc q + (len - w) div 64 < length b"
  proof (cases "len \<le> 64 - off")
    case True
    then have "w = len" by (simp add: w_def)
    moreover have "q * 64 < (length b - 1) * 64" using len idx off by linarith
    ultimately show ?thesis by simp
  next
    case False
    then have "w = 64 - off" by (simp add: w_def)
    then have "index + len = Suc q * 64 + (len - w)" using idx off False by simp
    then have "(index + len) div 64 = Suc q + (len - w) div 64" by simp
    then show ?thesis using b div_le_mono [OF len, of 64] by simp
  qed
  have res: "bm_range_op upd full b index len =
      (fst (fill_qwords full ((len - w) div 64) b1 (Suc q)))
        [Suc q + (len - w) div 64 :=
          upd (fst (fill_qwords full ((len - w) div 64) b1 (Suc q)) ! (Suc q + (len - w) div 64))
              (mask ((len - w) mod 64))]"
    using off w unfolding bm_range_op_def b1_def
    by (simp add: Let_def case_prod_beta qae_bitmask_mask flip: off_def q_def w_def)
  have b1: "bm_bit b1 i = (if index \<le> i \<and> i < index + w then val else bm_bit b i)"
  proof (cases "i div 64 = q")
    case True
    have lt: "i mod 64 < 64" by simp
    have i: "i = q * 64 + i mod 64" using True div_mult_mod_eq [of i 64] by simp
    have "bit (push_bit off (mask w :: u64)) (i mod 64) \<longleftrightarrow> off \<le> i mod 64 \<and> i mod 64 < off + w"
      using w by (auto simp: bit_push_bit_iff bit_mask_word)
    also have "\<dots> \<longleftrightarrow> index \<le> i \<and> i < index + w" using i idx by linarith
    finally show ?thesis
      using True qlen by (simp add: b1_def bm_bit_update upd_bit [OF lt] bm_bit_def)
  next
    case False
    then have "\<not> (index \<le> i \<and> i < index + w)"
      using idx w off div_mult_mod_eq [of i 64] mod_less_divisor [of 64 i] by linarith
    then show ?thesis using False qlen by (auto simp: b1_def bm_bit_update)
  qed
  have "bm_bit (bm_range_op upd full b index len) i =
      (if Suc q * 64 \<le> i \<and> i < Suc q * 64 + (len - w) then val else bm_bit b1 i)"
    unfolding res by (rule aligned_bit) (use qlen in \<open>simp add: b1_def\<close>)
  also have "\<dots> = (if index \<le> i \<and> i < index + len then val else bm_bit b i)"
    using idx off w by (auto simp: b1 w_def min_def split: if_splits)
  finally show ?thesis .
qed

end

interpretation set_op: bit_range_op "\<lambda>w m. w OR m" QWORD_ALL_ONE True
proof
  fix j :: nat and w m :: u64
  show "bit (w OR m) j = (if bit m j then True else bit w j)"
    by (simp add: bit_or_iff)
  assume j: "j < 64"
  have eq: "QWORD_ALL_ONE = mask 64" by (simp add: QWORD_ALL_ONE_def mask_eq_exp_minus_1)
  show "bit QWORD_ALL_ONE j = True" unfolding eq using j by (simp only: bit_mask_word) simp
qed

interpretation clear_op: bit_range_op "\<lambda>w m. w AND NOT m" 0 False
  by unfold_locales (auto simp: bit_and_iff bit_not_iff)

lemma set_bitmap_range: "set_bitmap b = bm_range_op (\<lambda>w m. w OR m) QWORD_ALL_ONE b"
  by (intro ext) (simp add: set_bitmap_def bm_range_op_def)

lemma clear_bitmap_range: "clear_bitmap b = bm_range_op (\<lambda>w m. w AND NOT m) 0 b"
  by (intro ext) (simp add: clear_bitmap_def bm_range_op_def)

lemma set_bitmap_length [simp]: "length (set_bitmap b index len) = length b"
  by (simp add: set_bitmap_range set_op.range_length)

lemma clear_bitmap_length [simp]: "length (clear_bitmap b index len) = length b"
  by (simp add: clear_bitmap_range clear_op.range_length)

lemma set_bitmap_bit:
  "0 < length b \<Longrightarrow> index + len \<le> 64 * (length b - 1) \<Longrightarrow>
   bm_bit (set_bitmap b index len) i \<longleftrightarrow> (index \<le> i \<and> i < index + len) \<or> bm_bit b i"
  by (auto simp: set_bitmap_range set_op.range_bit)

lemma clear_bitmap_bit:
  "0 < length b \<Longrightarrow> index + len \<le> 64 * (length b - 1) \<Longrightarrow>
   bm_bit (clear_bitmap b index len) i \<longleftrightarrow> \<not> (index \<le> i \<and> i < index + len) \<and> bm_bit b i"
  by (auto simp: clear_bitmap_range clear_op.range_bit)

section \<open>The window read and the zero count\<close>

text \<open>
  A bitmap as the allocator keeps it: all quad words present and the barrier behind the last
  one in place. A unit is busy when its bit is set or it lies behind the end of the slab.
\<close>

definition bm_ok :: "u64 list \<Rightarrow> bool" where
  "bm_ok b \<longleftrightarrow> length b = BITMAP_LEN + 1 \<and> b ! BITMAP_LEN = QWORD_ALL_ONE"

definition busy :: "u64 list \<Rightarrow> nat \<Rightarrow> bool" where
  "busy b i \<longleftrightarrow> i \<ge> BLOCK_SIZES \<or> bm_bit b i"

lemma BITMAP_LEN_eq [simp]: "BITMAP_LEN = 32"
  by (simp add: BITMAP_LEN_def UNIT_SIZE_def)

lemma BLOCK_SIZES_eq [simp]: "BLOCK_SIZES = 2048"
  by (simp add: BLOCK_SIZES_def)

lemma all_one_bit [simp]: "j < 64 \<Longrightarrow> bit QWORD_ALL_ONE j"
  using set_op.full_bit by simp

lemma ctz_le: "mem_ctzll w \<le> 64"
proof -
  have "length (takeWhile (\<lambda>i. \<not> bit w i) [0..<64]) \<le> length [0..<64]"
    by (rule length_takeWhile_le)
  then show ?thesis by (simp add: mem_ctzll_def)
qed

lemma ctz_zeros: "i < mem_ctzll w \<Longrightarrow> \<not> bit w i"
proof (cases "w = 0")
  case False
  assume i: "i < mem_ctzll w"
  let ?t = "takeWhile (\<lambda>i. \<not> bit w i) [0..<64]"
  from i False have il: "i < length ?t" by (simp add: mem_ctzll_def)
  then have "?t ! i \<in> set ?t" by (rule nth_mem)
  then have "\<not> bit w (?t ! i)" by (metis (mono_tags, lifting) set_takeWhileD)
  moreover have "?t ! i = [0..<64] ! i" using il by (rule takeWhile_nth)
  moreover have "i < 64" using i ctz_le [of w] by simp
  ultimately show ?thesis by simp
qed simp

lemma ctz_one: "w \<noteq> 0 \<Longrightarrow> mem_ctzll w < 64 \<and> bit w (mem_ctzll w)"
proof -
  assume w: "w \<noteq> 0"
  let ?P = "\<lambda>i. \<not> bit w i"
  have "\<exists>i<64. bit w i"
  proof (rule ccontr)
    assume "\<not> (\<exists>i<64. bit w i)"
    then have "w = 0" by (intro bit_word_eqI) auto
    with w show False by simp
  qed
  then have "\<exists>x \<in> set [0..<64]. \<not> ?P x" by auto
  then have "takeWhile ?P [0..<64] \<noteq> [0..<64]"
    by (simp only: takeWhile_eq_all_conv) simp
  then have lt: "length (takeWhile ?P [0..<64]) < 64"
    using takeWhile_eq_take [of ?P "[0..<64]"] length_takeWhile_le [of ?P "[0..<64]"]
    by (metis diff_zero le_neq_implies_less length_upt take_all_iff)
  then have "\<not> ?P ([0..<64] ! length (takeWhile ?P [0..<64]))"
    using nth_length_takeWhile [of ?P "[0..<64]"] by simp
  with lt w show ?thesis by (simp add: mem_ctzll_def)
qed

lemma ctz_0 [simp]: "mem_ctzll 0 = 64"
  by (simp add: mem_ctzll_def)

lemma bitmap_read_bit:
  assumes ok: "bm_ok b" and j: "j < 64"
  shows "bit (bitmap_read b wp) j \<longleftrightarrow> busy b (wp + j)"
proof (cases "wp div 64 \<ge> 32")
  case True
  then have "wp + j \<ge> 2048" by linarith
  with True j show ?thesis by (simp add: bitmap_read_def busy_def)
next
  case wp: False
  define q where "q = wp div 64"
  define o' where "o' = wp mod 64"
  have wpq: "wp = q * 64 + o'" by (simp add: q_def o'_def)
  have o': "o' < 64" by (simp add: o'_def)
  have busy: "busy b i = bm_bit b i" if "i < 2112" for i
  proof (cases "i < 2048")
    case False
    with that have "i div 64 = 32" by linarith
    then show ?thesis using ok False by (simp add: busy_def bm_bit_def bm_ok_def)
  qed (simp add: busy_def)
  have lt: "wp + j < 2112" using wp j o' wpq q_def by linarith
  have rd: "bit (bitmap_read b wp) j =
      (if o' = 0 then bit (b ! q) j
       else bit (b ! q) (o' + j) \<or> (64 - o' \<le> j \<and> bit (b ! (q + 1)) (j - (64 - o'))))"
    using wp j unfolding bitmap_read_def
    by (auto simp: Let_def bit_or_iff bit_drop_bit_eq bit_push_bit_iff simp flip: q_def o'_def)
  have bb: "bm_bit b (wp + j) =
      (if o' + j < 64 then bit (b ! q) (o' + j) else bit (b ! (q + 1)) (o' + j - 64))"
  proof (cases "o' + j < 64")
    case True
    have "wp + j = q * 64 + (o' + j)" using wpq by simp
    note d = div_mod_eqI [OF this True]
    show ?thesis using True by (simp add: bm_bit_def d)
  next
    case False
    have lt': "o' + j - 64 < 64" using o' j by simp
    have "wp + j = (q + 1) * 64 + (o' + j - 64)" using False wpq by simp
    note d = div_mod_eqI [OF this lt']
    show ?thesis using False by (simp add: bm_bit_def d)
  qed
  show ?thesis
  proof (cases "o' = 0")
    case True
    then show ?thesis using rd bb busy [OF lt] j by simp
  next
    case False
    have beyond: "\<not> bit (b ! q) (o' + j)" if "\<not> o' + j < 64"
      using that by (auto dest: bit_imp_le_length)
    have "j - (64 - o') = o' + j - 64" using o' by simp
    moreover have "(64 - o' \<le> j) = (\<not> o' + j < 64)" using o' by auto
    ultimately show ?thesis using False rd bb busy [OF lt] beyond by auto
  qed
qed

section \<open>First-fit search\<close>

lemma window_advances:
  "bitmap_window \<noteq> 0 \<Longrightarrow>
   0 < mem_ctzll bitmap_window +
       mem_ctzll (NOT (drop_bit (mem_ctzll bitmap_window) bitmap_window))"
proof -
  assume w: "bitmap_window \<noteq> 0"
  let ?n = "NOT (drop_bit (mem_ctzll bitmap_window) bitmap_window)"
  have "\<not> bit ?n 0"
    using ctz_one [OF w] by (simp add: bit_not_iff bit_drop_bit_eq)
  then have "mem_ctzll ?n \<noteq> 0"
    by (metis ctz_0 ctz_one zero_neq_numeral)
  then show ?thesis by simp
qed

text \<open>The next search position, moved up to a multiple of \<open>align\<close> when one is asked for.\<close>

definition align_pos :: "nat \<Rightarrow> nat \<Rightarrow> nat" where
  "align_pos align wp =
     (if align \<noteq> 0 \<and> wp mod align \<noteq> 0 then wp + (align - wp mod align) else wp)"

lemma align_pos_ge: "wp \<le> align_pos align wp"
  by (simp only: align_pos_def le_add1 order_refl split: if_split) simp

text \<open>
  The search loop of \<open>__qae_mem_alloc\<close>: the result is \<open>first_block\<close> when a fit is found and
  \<open>None\<close> when the loop ends without one.
\<close>

function mem_search :: "u64 list \<Rightarrow> nat \<Rightarrow> nat \<Rightarrow> nat \<Rightarrow> nat \<Rightarrow> nat \<Rightarrow> nat option" where
  "mem_search b blocks_required align window_pos first_block blocks_found =
     (let bitmap_window = bitmap_read b window_pos;
          width = mem_ctzll bitmap_window;
          found = blocks_found + width
      in
        if found \<ge> blocks_required then Some first_block
        else if bitmap_window \<noteq> 0 then
          (let width_ones = mem_ctzll (NOT (drop_bit width bitmap_window));
               wp = window_pos + (width + width_ones);
               wp' = align_pos align wp
           in if wp' < BITMAP_LEN * QWORD_WIDTH
              then mem_search b blocks_required align wp' wp' 0
              else None)
        else
          (let wp = window_pos + width
           in if wp < BITMAP_LEN * QWORD_WIDTH
              then mem_search b blocks_required align wp first_block found
              else None))"
  by pat_completeness auto
termination
proof (relation "measure (\<lambda>(b, n, al, wp, fb, bf). BITMAP_LEN * QWORD_WIDTH - wp)", goal_cases)
  case (2 b n al wp fb bf w width found ones p p')
  then have "wp < p" using window_advances [of w] by simp
  also have "p \<le> p'" using 2 by (simp add: align_pos_ge)
  finally show ?case using 2 by simp
next
  case (3 b n al wp fb bf w width found p)
  then show ?case by simp
qed simp

declare mem_search.simps [simp del]

definition qae_mem_alloc ::
  "block_ctrl option \<Rightarrow> u64 \<Rightarrow> nat \<Rightarrow> nat option \<times> block_ctrl option" where
  "qae_mem_alloc block_ctrl bytes align =
     (case block_ctrl of
        None \<Rightarrow> (None, None)
      | Some ctrl \<Rightarrow>
          if bytes = 0 then (None, block_ctrl)
          else
            let blocks_required = unat (div_round_up bytes (of_nat UNIT_SIZE))
            in case mem_search (bitmap ctrl) blocks_required align 0 0 0 of
                 None \<Rightarrow> (None, block_ctrl)
               | Some first_block \<Rightarrow>
                   if first_block + blocks_required > BITMAP_LEN * QWORD_WIDTH
                   then (None, block_ctrl)
                   else (Some (first_block * UNIT_SIZE),
                         Some (ctrl\<lparr>sizes := (sizes ctrl)[first_block := of_nat blocks_required],
                                    bitmap := set_bitmap (bitmap ctrl) first_block blocks_required\<rparr>)))"

text \<open>
  \<open>__qae_mem_free\<close>. \<open>ctrl_addr\<close> is the address of the control structure, \<open>block\<close> the address to
  release, \<open>0\<close> standing for \<open>NULL\<close>. The table read \<open>sizes[first_block]\<close> is not bounds checked
  by the code: the result is \<open>None\<close> when it leaves the table.
\<close>

definition qae_memzero_explicit :: "nat \<Rightarrow> nat \<Rightarrow> (nat \<Rightarrow> u8) \<Rightarrow> nat \<Rightarrow> u8" where
  "qae_memzero_explicit off count mem = (\<lambda>i. if off \<le> i \<and> i < off + count then 0 else mem i)"

definition qae_mem_free ::
  "block_ctrl option \<Rightarrow> u64 \<Rightarrow> u64 \<Rightarrow> bool \<Rightarrow> (bool \<times> block_ctrl option) option" where
  "qae_mem_free block_ctrl ctrl_addr block secure_free =
     (case block_ctrl of
        None \<Rightarrow> Some (False, None)
      | Some ctrl \<Rightarrow>
          if block = 0 then Some (False, block_ctrl)
          else if block mod of_nat UNIT_SIZE \<noteq> 0 then Some (False, block_ctrl)
          else
            let first_block = unat ((block - ctrl_addr) div of_nat UNIT_SIZE)
            in if first_block \<ge> BLOCK_SIZES then None
               else
                 let len = unat (sizes ctrl ! first_block)
                 in if len = 0 then Some (False, block_ctrl)
                    else if len + first_block > BITMAP_LEN * QWORD_WIDTH
                    then Some (False, block_ctrl)
                    else
                      Some (True,
                        Some (ctrl\<lparr>
                          sizes := (sizes ctrl)[first_block := 0],
                          bitmap := clear_bitmap (bitmap ctrl) first_block len,
                          slab_data :=
                            (if secure_free
                             then qae_memzero_explicit (unat (block - ctrl_addr))
                                    (len * UNIT_SIZE) (slab_data ctrl)
                             else slab_data ctrl)\<rparr>)))"

text \<open>
  The part of \<open>init_slab_and_alloc\<close> that prepares the bitmap of a new slab: the units of the
  control structure itself are taken and the barrier is placed.
\<close>

definition sizeof_block_ctrl :: u64 where
  "sizeof_block_ctrl = of_nat (80 + 8 * (BITMAP_LEN + 1) + 2 * BLOCK_SIZES)"

definition reserved_units :: nat where
  "reserved_units = unat (div_round_up sizeof_block_ctrl (of_nat UNIT_SIZE))"

definition init_slab :: "nat \<Rightarrow> block_ctrl \<Rightarrow> block_ctrl" where
  "init_slab slab_size ctrl =
     (let last = slab_size div (UNIT_SIZE * QWORD_WIDTH)
      in ctrl\<lparr>bitmap := (set_bitmap (bitmap ctrl) 0 reserved_units)[last := QWORD_ALL_ONE]\<rparr>)"

section \<open>The search is first fit\<close>

text \<open>
  Reference: the first unit, in address order, that satisfies the alignment and starts a run
  of \<open>n\<close> free units.
\<close>

definition aligned_at :: "nat \<Rightarrow> nat \<Rightarrow> bool" where
  "aligned_at align fb \<longleftrightarrow> align = 0 \<or> fb mod align = 0"

definition fits_at :: "u64 list \<Rightarrow> nat \<Rightarrow> nat \<Rightarrow> bool" where
  "fits_at b n fb \<longleftrightarrow> list_all (\<lambda>i. \<not> busy b i) [fb..<fb + n]"

definition first_fit :: "u64 list \<Rightarrow> nat \<Rightarrow> nat \<Rightarrow> nat option" where
  "first_fit b n align =
     List.find (\<lambda>fb. aligned_at align fb \<and> fits_at b n fb) [0..<BLOCK_SIZES]"

lemma fits_at_iff: "fits_at b n fb \<longleftrightarrow> (\<forall>i. fb \<le> i \<and> i < fb + n \<longrightarrow> \<not> busy b i)"
  by (auto simp: fits_at_def list_all_iff)

lemma find_upt_Some:
  "k < n \<Longrightarrow> P k \<Longrightarrow> (\<And>j. j < k \<Longrightarrow> \<not> P j) \<Longrightarrow> List.find P [0..<n] = Some k"
  by (auto simp: find_Some_iff intro!: exI [of _ k])

lemma align_pos_aligned: "aligned_at align (align_pos align wp)"
proof (cases "align = 0")
  case False
  then have "(wp + (align - wp mod align)) mod align = 0"
    by (metis add.commute bot_nat_0.not_eq_extremum le_add_diff_inverse2 mod_add_left_eq
        mod_le_divisor mod_self)
  then show ?thesis by (auto simp: align_pos_def aligned_at_def)
qed (simp add: aligned_at_def)

lemma align_pos_least:
  assumes "wp \<le> x" and "x < align_pos align wp"
  shows "\<not> aligned_at align x"
proof
  assume al: "aligned_at align x"
  from assms have a: "align \<noteq> 0" "wp mod align \<noteq> 0"
    and x: "x < wp + (align - wp mod align)"
    by (auto simp: align_pos_def split: if_splits)
  from al a have "x mod align = 0" by (simp add: aligned_at_def)
  then obtain k where k: "x = align * k" by auto
  define q where "q = wp div align"
  have wp: "wp = align * q + wp mod align" by (simp add: q_def)
  have m: "wp mod align < align" using a by simp
  have "align * q < align * k" using assms(1) a wp k by linarith
  then have "q + 1 \<le> k" by simp
  then have "align * (q + 1) \<le> align * k" by (rule mult_le_mono2)
  moreover have "x < align * q + align" using x wp m by linarith
  ultimately show False using k by simp
qed

lemma ones_busy:
  assumes ok: "bm_ok b"
    and w: "w = bitmap_read b wp"
    and i: "i < mem_ctzll (NOT (drop_bit (mem_ctzll w) w))"
  shows "busy b (wp + mem_ctzll w + i)"
proof -
  from ctz_zeros [OF i] have "i \<ge> 64 \<or> bit w (mem_ctzll w + i)"
    by (auto simp: bit_not_iff bit_drop_bit_eq)
  moreover have "i < 64" using i ctz_le [of "NOT (drop_bit (mem_ctzll w) w)"] by simp
  ultimately have bt: "bit w (mem_ctzll w + i)" by simp
  then have "mem_ctzll w + i < 64" using bit_imp_le_length by fastforce
  with bitmap_read_bit [OF ok] bt w show ?thesis by (simp add: add.assoc)
qed

text \<open>
  The loop invariant: the candidate \<open>fb\<close> is aligned, the \<open>bf\<close> units from it up to the window
  are free and fewer than \<open>n\<close>, and no aligned unit before it starts a fit.
\<close>

definition search_inv :: "u64 list \<Rightarrow> nat \<Rightarrow> nat \<Rightarrow> nat \<Rightarrow> nat \<Rightarrow> nat \<Rightarrow> bool" where
  "search_inv b n align wp fb bf \<longleftrightarrow>
     bm_ok b \<and> 0 < n \<and> aligned_at align fb \<and> wp = fb + bf \<and> bf < n \<and>
     (\<forall>i. fb \<le> i \<and> i < wp \<longrightarrow> \<not> busy b i) \<and>
     (\<forall>f. f < fb \<longrightarrow> aligned_at align f \<longrightarrow> \<not> fits_at b n f)"

lemma window_free:
  assumes inv: "search_inv b n align wp fb bf"
    and i: "fb \<le> i" "i < wp + mem_ctzll (bitmap_read b wp)"
  shows "\<not> busy b i"
proof (cases "i < wp")
  case False
  let ?w = "bitmap_read b wp"
  from False i have "i - wp < mem_ctzll ?w" by simp
  then have "\<not> bit ?w (i - wp)" "i - wp < 64"
    using ctz_zeros ctz_le [of ?w] by auto
  with bitmap_read_bit [of b "i - wp" wp] inv False show ?thesis by (simp add: search_inv_def)
qed (use assms in \<open>simp add: search_inv_def\<close>)

lemma search_found:
  assumes inv: "search_inv b n align wp fb bf"
    and found: "n \<le> bf + mem_ctzll (bitmap_read b wp)"
  shows "first_fit b n align = Some fb"
proof -
  have fit: "fits_at b n fb"
    using window_free [OF inv] found inv by (auto simp: fits_at_iff search_inv_def)
  then have "\<not> busy b fb" using inv by (simp add: fits_at_iff search_inv_def)
  then have "fb < 2048" by (simp add: busy_def)
  then show ?thesis
    unfolding first_fit_def
    using fit inv by (intro find_upt_Some) (auto simp: search_inv_def)
qed

lemma search_end:
  assumes inv: "search_inv b n align wp fb bf"
    and nofit: "\<not> n \<le> bf + width" and beyond: "\<not> wp + width < 2048"
  shows "first_fit b n align = None"
proof -
  have "\<not> fits_at b n f" if "aligned_at align f" "f < 2048" for f
  proof (cases "f < fb")
    case ge: False
    have "busy b 2048" by (simp add: busy_def)
    moreover have "f \<le> 2048" "2048 < f + n"
      using that ge nofit beyond inv by (auto simp: search_inv_def)
    ultimately show ?thesis by (auto simp: fits_at_iff)
  qed (use that inv in \<open>auto simp: search_inv_def\<close>)
  then show ?thesis by (auto simp: first_fit_def find_None_iff)
qed

text \<open>Behind a window that ends the run, every aligned unit up to the next candidate fails.\<close>

lemma search_skip:
  fixes b :: "u64 list" and wp :: nat
  defines "w \<equiv> bitmap_read b wp"
  defines "width \<equiv> mem_ctzll w"
  defines "ones \<equiv> mem_ctzll (NOT (drop_bit width w))"
  assumes inv: "search_inv b n align wp fb bf" and w0: "w \<noteq> 0" and nofit: "\<not> n \<le> bf + width"
    and f: "f < align_pos align (wp + (width + ones))" "aligned_at align f"
  shows "\<not> fits_at b n f"
proof -
  have ok: "bm_ok b" "0 < n" "wp = fb + bf" using inv by (auto simp: search_inv_def)
  have stop: "busy b (wp + width)"
    using ctz_one [OF w0] bitmap_read_bit [OF ok(1), of width wp] by (simp add: width_def w_def)
  consider "f < fb" | "fb \<le> f" "f \<le> wp + width" | "wp + width < f" "f < wp + (width + ones)"
    | "wp + (width + ones) \<le> f" by linarith
  then show ?thesis
  proof cases
    case 1
    with f inv show ?thesis by (simp add: search_inv_def)
  next
    case 2
    then have "wp + width < f + n" using nofit ok(3) by simp
    with 2 stop show ?thesis by (auto simp: fits_at_iff)
  next
    case 3
    then have "f - (wp + width) < ones" by simp
    then have "busy b (wp + width + (f - (wp + width)))"
      using ones_busy [OF ok(1)] by (simp add: w_def width_def ones_def)
    with 3 ok(2) show ?thesis by (auto simp: fits_at_iff)
  next
    case 4
    with f align_pos_least show ?thesis by blast
  qed
qed

lemma mem_search_first_fit:
  "search_inv b n align wp fb bf \<Longrightarrow> mem_search b n align wp fb bf = first_fit b n align"
proof (induction b n align wp fb bf rule: mem_search.induct)
  case (1 b n align wp fb bf)
  note inv = "1.prems"
  define w where "w = bitmap_read b wp"
  define width where "width = mem_ctzll w"
  define ones where "ones = mem_ctzll (NOT (drop_bit width w))"
  define wp' where "wp' = align_pos align (wp + (width + ones))"
  note unfold = mem_search.simps [of b n align wp fb bf, folded w_def, unfolded Let_def,
      folded width_def, folded ones_def, folded wp'_def, simplified]
  show ?case
  proof (cases "n \<le> bf + width")
    case True
    with search_found [OF inv] show ?thesis by (simp add: unfold width_def w_def)
  next
    case nofit: False
    show ?thesis
    proof (cases "w = 0")
      case True
      have "search_inv b n align (wp + width) fb (bf + width)"
        using inv nofit window_free [OF inv]
        by (auto simp: search_inv_def width_def w_def)
      then have "wp + width < 2048 \<Longrightarrow>
          mem_search b n align (wp + width) fb (bf + width) = first_fit b n align"
        using "1.IH"(2) [OF w_def width_def refl] True nofit by simp
      then show ?thesis
        using True nofit search_end [OF inv nofit] by (auto simp: unfold)
    next
      case False
      note skip = search_skip [OF inv, folded w_def, folded width_def, folded ones_def,
          folded wp'_def, OF False nofit]
      have "search_inv b n align wp' wp' 0"
        using inv skip by (auto simp: search_inv_def wp'_def align_pos_aligned)
      then have "wp' < 2048 \<Longrightarrow> mem_search b n align wp' wp' 0 = first_fit b n align"
        using "1.IH"(1) [OF w_def width_def refl _ _ ones_def refl wp'_def] False nofit by simp
      moreover have "\<not> wp' < 2048 \<Longrightarrow> first_fit b n align = None"
        using skip by (auto simp: first_fit_def find_None_iff)
      ultimately show ?thesis using False nofit by (simp add: unfold)
    qed
  qed
qed

lemma search_inv_start: "bm_ok b \<Longrightarrow> 0 < n \<Longrightarrow> search_inv b n align 0 0 0"
  by (simp add: search_inv_def aligned_at_def)

lemma first_fit_SomeD:
  assumes "first_fit b n align = Some fb" and "0 < n"
  shows "aligned_at align fb" and "fits_at b n fb" and "fb + n \<le> 2048"
    and "\<And>f. f < fb \<Longrightarrow> aligned_at align f \<Longrightarrow> \<not> fits_at b n f"
proof -
  from assms(1) show *: "aligned_at align fb" "fits_at b n fb"
    and "\<And>f. f < fb \<Longrightarrow> aligned_at align f \<Longrightarrow> \<not> fits_at b n f"
    by (auto simp: first_fit_def find_Some_iff)
  from *(2) have "\<not> busy b (fb + n - 1)" using assms(2) by (auto simp: fits_at_iff)
  then show "fb + n \<le> 2048" by (auto simp: busy_def)
qed

section \<open>Well-formed slabs\<close>

text \<open>
  The table \<open>sizes\<close> lists the allocated blocks. In a well-formed slab they lie behind the
  \<open>r\<close> reserved units, inside the slab and apart from each other, and a bit is set exactly for
  the reserved units and the units of an allocated block.
\<close>

definition block_len :: "block_ctrl \<Rightarrow> nat \<Rightarrow> nat" where
  "block_len c fb = unat (sizes c ! fb)"

definition owns :: "block_ctrl \<Rightarrow> nat \<Rightarrow> nat \<Rightarrow> bool" where
  "owns c fb i \<longleftrightarrow> fb < BLOCK_SIZES \<and> fb \<le> i \<and> i < fb + block_len c fb"

definition slab_inv :: "nat \<Rightarrow> block_ctrl \<Rightarrow> bool" where
  "slab_inv r c \<longleftrightarrow>
     bm_ok (bitmap c) \<and> length (sizes c) = BLOCK_SIZES \<and>
     (\<forall>fb i. owns c fb i \<longrightarrow> r \<le> i \<and> i < BLOCK_SIZES) \<and>
     (\<forall>fb fb' i. owns c fb i \<longrightarrow> owns c fb' i \<longrightarrow> fb = fb') \<and>
     (\<forall>i < BLOCK_SIZES. bm_bit (bitmap c) i \<longleftrightarrow> i < r \<or> (\<exists>fb. owns c fb i))"

lemma div_round_up_unat:
  assumes "unat n + unat d \<le> 2 ^ 64" and "d \<noteq> 0"
  shows "unat (div_round_up n d) = (unat n + unat d - 1) div unat d"
proof -
  have d: "0 < unat d" using assms(2) by (simp add: unat_gt_0)
  have "n + d - 1 = of_nat (unat n + unat d - 1)"
    using d by (simp add: of_nat_diff)
  moreover have "unat n + unat d - 1 < 2 ^ 64" using assms(1) d by linarith
  ultimately have "unat (n + d - 1) = unat n + unat d - 1"
    by (simp add: unat_of_nat)
  then show ?thesis by (simp add: div_round_up_def unat_div)
qed

definition units :: "u64 \<Rightarrow> nat" where
  "units bytes = (unat bytes + (UNIT_SIZE - 1)) div UNIT_SIZE"

lemma units_required:
  assumes "unat bytes \<le> 2 ^ 64 - 1024"
  shows "unat (div_round_up bytes (of_nat UNIT_SIZE)) = units bytes"
  using assms div_round_up_unat [of bytes 1024] by (simp add: units_def UNIT_SIZE_def)

lemma units_pos: "bytes \<noteq> 0 \<Longrightarrow> 0 < units bytes"
proof -
  assume "bytes \<noteq> 0"
  then have "0 < unat bytes" by (simp add: unat_gt_0)
  then have "1024 \<le> unat bytes + 1023" by simp
  then show ?thesis by (simp add: units_def UNIT_SIZE_def div_greater_zero_iff)
qed

lemma unat_u16: "n \<le> 2048 \<Longrightarrow> unat (of_nat n :: u16) = n"
  by (simp add: unat_of_nat)

lemma alloc_first_fit:
  assumes "bm_ok (bitmap c)" and "bytes \<noteq> 0" and "unat bytes \<le> 2 ^ 64 - 1024"
  shows "qae_mem_alloc (Some c) bytes align =
    (case first_fit (bitmap c) (units bytes) align of
       None \<Rightarrow> (None, Some c)
     | Some fb \<Rightarrow>
         (Some (fb * UNIT_SIZE),
          Some (c\<lparr>sizes := (sizes c)[fb := of_nat (units bytes)],
                  bitmap := set_bitmap (bitmap c) fb (units bytes)\<rparr>)))"
proof -
  have "mem_search (bitmap c) (units bytes) align 0 0 0 = first_fit (bitmap c) (units bytes) align"
    using mem_search_first_fit search_inv_start assms(1) units_pos [OF assms(2)] by blast
  then show ?thesis
    using assms(2) units_required [OF assms(3)] units_pos [OF assms(2)]
    by (auto simp: qae_mem_alloc_def Let_def dest: first_fit_SomeD(3) split: option.split)
qed

text \<open>Entering a block of \<open>n\<close> free units into the table and the bitmap.\<close>

lemma block_len_upd:
  "fb < 2048 \<Longrightarrow> length (sizes c) = 2048 \<Longrightarrow> n \<le> 2048 \<Longrightarrow>
   block_len (c\<lparr>sizes := (sizes c)[fb := of_nat n], bitmap := b\<rparr>) f =
     (if f = fb then n else block_len c f)"
  by (simp add: block_len_def nth_list_update unat_u16)

lemma bm_ok_iff:
  "bm_ok b \<longleftrightarrow> length b = 33 \<and> (\<forall>i. 2048 \<le> i \<and> i < 2112 \<longrightarrow> bm_bit b i)"
proof -
  have bit: "bm_bit b i \<longleftrightarrow> bit (b ! 32) (i - 2048)" if "2048 \<le> i" "i < 2112" for i
  proof -
    have i: "i = 32 * 64 + (i - 2048)" and lt: "i - 2048 < 64" using that by auto
    show ?thesis unfolding bm_bit_def using div_mod_eqI [OF i lt] by simp
  qed
  have "b ! 32 = QWORD_ALL_ONE" if "\<forall>i. 2048 \<le> i \<and> i < 2112 \<longrightarrow> bm_bit b i"
  proof (rule bit_word_eqI)
    fix n assume "n < LENGTH(64)"
    then show "bit (b ! 32) n = bit QWORD_ALL_ONE n"
      using bit [of "2048 + n"] that by simp
  qed
  then show ?thesis using bit by (auto simp: bm_ok_def)
qed

lemma bm_ok_bits:
  assumes "bm_ok b" and "fb + n \<le> 2048"
  shows "bm_bit (set_bitmap b fb n) i = ((fb \<le> i \<and> i < fb + n) \<or> bm_bit b i)"
    and "bm_bit (clear_bitmap b fb n) i = (\<not> (fb \<le> i \<and> i < fb + n) \<and> bm_bit b i)"
  using assms by (auto simp: bm_ok_def set_bitmap_bit clear_bitmap_bit)

lemma bm_ok_upd:
  assumes "bm_ok b" and "fb + n \<le> 2048"
  shows "bm_ok (set_bitmap b fb n)" and "bm_ok (clear_bitmap b fb n)"
  using assms by (auto simp: bm_ok_iff bm_ok_bits [OF assms])

lemma owns_upd:
  assumes "length (sizes c) = 2048" and "fb < 2048" and "n \<le> 2048"
  shows "owns (c\<lparr>sizes := (sizes c)[fb := of_nat n], bitmap := b\<rparr>) f i \<longleftrightarrow>
         (if f = fb then fb \<le> i \<and> i < fb + n else owns c f i)"
  using assms by (simp add: owns_def block_len_upd)

lemma owns_clear:
  assumes "length (sizes c) = 2048" and "fb < 2048"
  shows "owns (c\<lparr>sizes := (sizes c)[fb := 0], bitmap := b, slab_data := d\<rparr>) f i \<longleftrightarrow>
         f \<noteq> fb \<and> owns c f i"
  using assms by (auto simp: owns_def block_len_def nth_list_update)

text \<open>A free run belongs to no allocated block and starts behind the reserved units.\<close>

lemma fits_unowned:
  assumes inv: "slab_inv r c" and fit: "fits_at (bitmap c) n fb" and i: "fb \<le> i" "i < fb + n"
  shows "r \<le> i" and "i < 2048" and "\<not> owns c f i"
proof -
  have "\<not> busy (bitmap c) i" using fit i by (simp add: fits_at_iff)
  then have "i < 2048" "\<not> bm_bit (bitmap c) i" by (auto simp: busy_def)
  with inv show "r \<le> i" "i < 2048" "\<not> owns c f i" by (auto simp: slab_inv_def)
qed

lemma block_free_at_fit:
  assumes inv: "slab_inv r c" and fit: "fits_at (bitmap c) n fb" and n: "0 < n"
  shows "block_len c fb = 0"
proof (rule ccontr)
  assume "block_len c fb \<noteq> 0"
  moreover have "fb < 2048" "\<not> owns c fb fb" using fits_unowned [OF inv fit, of fb] n by auto
  ultimately show False by (simp add: owns_def)
qed

lemma slab_inv_enter:
  assumes inv: "slab_inv r c" and fit: "fits_at (bitmap c) n fb" and n: "0 < n"
    and le: "fb + n \<le> 2048"
  shows "slab_inv r (c\<lparr>sizes := (sizes c)[fb := of_nat n], bitmap := set_bitmap (bitmap c) fb n\<rparr>)"
proof -
  have len: "length (sizes c) = 2048" and ok: "bm_ok (bitmap c)"
    using inv by (auto simp: slab_inv_def)
  note own = owns_upd [OF len, of fb n "set_bitmap (bitmap c) fb n"]
  note un = fits_unowned [OF inv fit]
  have fb: "fb < 2048" "n \<le> 2048" using n le by auto
  have no: "\<not> owns c fb i" for i
    using block_free_at_fit [OF inv fit n] by (simp add: owns_def)
  show ?thesis
    unfolding slab_inv_def BLOCK_SIZES_eq own [OF fb]
    using inv un no bm_ok_upd(1) [OF ok le] len bm_ok_bits(1) [OF ok le]
    by (auto simp: slab_inv_def) metis
qed

lemma slab_inv_release:
  assumes inv: "slab_inv r c" and fb: "fb < 2048" and len: "block_len c fb \<noteq> 0"
  shows "fb + block_len c fb \<le> 2048"
    and "slab_inv r (c\<lparr>sizes := (sizes c)[fb := 0],
                       bitmap := clear_bitmap (bitmap c) fb (block_len c fb), slab_data := d\<rparr>)"
proof -
  have sz: "length (sizes c) = 2048" and ok: "bm_ok (bitmap c)"
    using inv by (auto simp: slab_inv_def)
  have "owns c fb (fb + block_len c fb - 1)" using fb len by (simp add: owns_def)
  then have "fb + block_len c fb - 1 < 2048" using inv by (auto simp: slab_inv_def)
  then show le: "fb + block_len c fb \<le> 2048" by simp
  have mine: "fb \<le> i \<and> i < fb + block_len c fb \<longleftrightarrow> owns c fb i" for i
    using fb by (simp add: owns_def)
  show "slab_inv r (c\<lparr>sizes := (sizes c)[fb := 0],
                       bitmap := clear_bitmap (bitmap c) fb (block_len c fb), slab_data := d\<rparr>)"
    unfolding slab_inv_def BLOCK_SIZES_eq owns_clear [OF sz fb]
    using inv bm_ok_upd(2) [OF ok le] sz bm_ok_bits(2) [OF ok le]
    by (auto simp: slab_inv_def mine) (metis leD)+
qed

section \<open>Allocation and release\<close>

lemma alloc_inv:
  assumes inv: "slab_inv r c" and "bytes \<noteq> 0" and "unat bytes \<le> 2 ^ 64 - 1024"
    and al: "qae_mem_alloc (Some c) bytes align = (res, Some c')"
  shows "slab_inv r c'"
proof -
  have ok: "bm_ok (bitmap c)" using inv by (simp add: slab_inv_def)
  note pos = units_pos [OF assms(2)]
  show ?thesis
    using al inv slab_inv_enter [OF inv _ pos] first_fit_SomeD [OF _ pos]
    unfolding alloc_first_fit [OF ok assms(2,3)] by (auto split: option.splits)
qed

lemma free_block:
  assumes inv: "slab_inv r c" and fb: "fb < 2048" and "block_len c fb \<noteq> 0"
    and blk: "block = ctrl_addr + of_nat (fb * UNIT_SIZE)" "block \<noteq> 0"
      "block mod of_nat UNIT_SIZE = 0"
  shows "qae_mem_free (Some c) ctrl_addr block secure =
    Some (True, Some (c\<lparr>sizes := (sizes c)[fb := 0],
        bitmap := clear_bitmap (bitmap c) fb (block_len c fb),
        slab_data := (if secure
          then qae_memzero_explicit (fb * UNIT_SIZE) (block_len c fb * UNIT_SIZE) (slab_data c)
          else slab_data c)\<rparr>))"
proof -
  have "unat (of_nat (fb * 1024) :: u64) = fb * 1024"
    using fb by (simp only: unat_of_nat) simp
  then have off: "unat (of_nat fb * 1024 :: u64) = fb * 1024" by simp
  have "unat ((block - ctrl_addr) div of_nat UNIT_SIZE) = fb"
    using off by (simp add: blk(1) UNIT_SIZE_def unat_div)
  moreover have "unat (block - ctrl_addr) = fb * UNIT_SIZE"
    using off by (simp add: blk(1) UNIT_SIZE_def)
  ultimately show ?thesis
    using assms slab_inv_release(1) [OF inv fb assms(3)]
    by (simp add: qae_mem_free_def Let_def block_len_def add.commute)
qed

lemma free_inv:
  assumes inv: "slab_inv r c"
    and fr: "qae_mem_free (Some c) ctrl_addr block secure = Some (ok, Some c')"
  shows "slab_inv r c'"
proof (cases ok)
  case False
  then show ?thesis using fr inv by (auto simp: qae_mem_free_def Let_def split: if_splits)
next
  case True
  define fb where "fb = unat ((block - ctrl_addr) div of_nat UNIT_SIZE)"
  have "fb < 2048" "block_len c fb \<noteq> 0"
    and "c' = c\<lparr>sizes := (sizes c)[fb := 0],
           bitmap := clear_bitmap (bitmap c) fb (block_len c fb), slab_data := slab_data c'\<rparr>"
    using fr True by (auto simp: qae_mem_free_def Let_def fb_def block_len_def split: if_splits)
  then show ?thesis using slab_inv_release(2) [OF inv] by metis
qed

lemma unit_offset:
  fixes a :: u64
  assumes "a mod of_nat UNIT_SIZE = 0"
  shows "(a + of_nat (k * UNIT_SIZE)) mod of_nat UNIT_SIZE = 0"
proof -
  have "unat a mod 1024 = 0" using arg_cong [OF assms, of unat] by (simp add: UNIT_SIZE_def unat_mod)
  moreover have "unat (a + of_nat (k * 1024)) mod 1024 = (unat a + k * 1024) mod 1024"
    by (simp only: unat_word_ariths unat_of_nat) (simp add: mod_mod_cancel mod_add_right_eq mod_simps)
  ultimately have "unat (a + of_nat (k * 1024)) mod 1024 = 0" by presburger
  then show ?thesis by (simp add: UNIT_SIZE_def word_eq_iff_unsigned unat_mod flip: unat_eq_0)
qed

text \<open>A free run that is taken and cleared again leaves the bitmap as it was.\<close>

lemma clear_set_bitmap:
  assumes ok: "bm_ok b" and fit: "fits_at b n fb" and le: "fb + n \<le> 2048"
  shows "clear_bitmap (set_bitmap b fb n) fb n = b"
proof (rule nth_equalityI)
  have ok': "bm_ok (set_bitmap b fb n)" by (rule bm_ok_upd(1) [OF ok le])
  have bits: "bm_bit (clear_bitmap (set_bitmap b fb n) fb n) i = bm_bit b i" for i
    using fit by (auto simp: bm_ok_bits [OF ok' le] bm_ok_bits [OF ok le] fits_at_iff busy_def)
  show len: "length (clear_bitmap (set_bitmap b fb n) fb n) = length b"
    using bm_ok_upd [OF ok le] bm_ok_upd(2) [OF ok' le] ok by (simp add: bm_ok_iff)
  fix q assume "q < length (clear_bitmap (set_bitmap b fb n) fb n)"
  show "clear_bitmap (set_bitmap b fb n) fb n ! q = b ! q"
  proof (rule bit_word_eqI)
    fix j :: nat assume j: "j < LENGTH(64)"
    then have "(q * 64 + j) div 64 = q" "(q * 64 + j) mod 64 = j" by auto
    then show "bit (clear_bitmap (set_bitmap b fb n) fb n ! q) j = bit (b ! q) j"
      using bits [of "q * 64 + j"] by (simp add: bm_bit_def)
  qed
qed

text \<open>The slab as the kernel hands it out: zero filled.\<close>

definition zero_slab :: block_ctrl where
  "zero_slab = \<lparr>bitmap = replicate (BITMAP_LEN + 1) 0, sizes = replicate BLOCK_SIZES 0,
                slab_data = (\<lambda>_. 0)\<rparr>"

lemma reserved_units_eq: "reserved_units = 5"
  by (simp add: reserved_units_def sizeof_block_ctrl_def div_round_up_def UNIT_SIZE_def)

lemma init_slab_inv: "slab_inv reserved_units (init_slab 0x200000 zero_slab)"
proof -
  let ?b = "replicate 33 0 :: u64 list"
  let ?c = "init_slab 0x200000 zero_slab"
  have "0 < length ?b" "0 + 5 \<le> 64 * (length ?b - 1)" by simp_all
  note bits = set_bitmap_bit [OF this]
  have len: "length (set_bitmap ?b 0 5) = 33" by (simp add: set_bitmap_length)
  have bm: "bitmap ?c = (set_bitmap ?b 0 5)[32 := QWORD_ALL_ONE]"
    by (simp add: init_slab_def zero_slab_def reserved_units_eq Let_def UNIT_SIZE_def)
  have "i div 64 \<noteq> 32" if "i < 2048" for i :: nat using that by linarith
  then have low: "bm_bit (bitmap ?c) i = (i < 5)" if "i < 2048" for i
    using that bits [of i] by (simp add: bm bm_bit_def)
  have "\<not> owns ?c fb i" for fb i
    by (simp add: owns_def block_len_def init_slab_def zero_slab_def Let_def)
  moreover have "length (sizes ?c) = 2048" by (simp add: init_slab_def zero_slab_def Let_def)
  ultimately show ?thesis
    using low by (simp add: slab_inv_def reserved_units_eq bm bm_ok_def len)
qed

section \<open>Sequences of operations\<close>

datatype slab_op = Op_Alloc u64 nat | Op_Free u64 bool

text \<open>
  A run of operations on one slab mapped at \<open>ctrl_addr\<close>; \<open>None\<close> when some free names an address
  whose unit number lies outside the table of sizes.
\<close>

fun slab_run :: "u64 \<Rightarrow> slab_op list \<Rightarrow> block_ctrl \<Rightarrow> block_ctrl option" where
  "slab_run ctrl_addr [] c = Some c"
| "slab_run ctrl_addr (Op_Alloc bytes align # ops) c =
     (case snd (qae_mem_alloc (Some c) bytes align) of
        None \<Rightarrow> None | Some c' \<Rightarrow> slab_run ctrl_addr ops c')"
| "slab_run ctrl_addr (Op_Free block secure # ops) c =
     (case qae_mem_free (Some c) ctrl_addr block secure of
        Some (_, Some c') \<Rightarrow> slab_run ctrl_addr ops c'
      | _ \<Rightarrow> None)"

fun op_ok :: "slab_op \<Rightarrow> bool" where
  "op_ok (Op_Alloc bytes align) = (unat bytes \<le> 2 ^ 64 - 1024)"
| "op_ok (Op_Free block secure) = True"

lemma alloc_zero: "qae_mem_alloc (Some c) 0 align = (None, Some c)"
  by (simp add: qae_mem_alloc_def)

lemma slab_run_inv:
  "slab_inv r c \<Longrightarrow> list_all op_ok ops \<Longrightarrow> slab_run a ops c = Some c' \<Longrightarrow> slab_inv r c'"
proof (induction ops arbitrary: c)
  case (Cons op ops)
  show ?case
  proof (cases op)
    case (Op_Alloc bytes align)
    then show ?thesis
      using Cons alloc_inv [OF Cons.prems(1), of bytes align "fst (qae_mem_alloc (Some c) bytes align)"]
      by (cases "bytes = 0") (auto simp: alloc_zero prod_eq_iff split: option.splits)
  next
    case (Op_Free block secure)
    then show ?thesis
      using Cons free_inv [OF Cons.prems(1)] by (fastforce split: option.splits)
  qed
qed simp

section \<open>A fresh slab\<close>

abbreviation fresh_slab :: block_ctrl where
  "fresh_slab \<equiv> init_slab 0x200000 zero_slab"

lemma fresh_unowned: "\<not> owns fresh_slab fb i"
  by (simp add: owns_def block_len_def init_slab_def zero_slab_def Let_def)

lemma fresh_bits: "i < 2048 \<Longrightarrow> bm_bit (bitmap fresh_slab) i = (i < 5)"
  using init_slab_inv fresh_unowned by (simp add: slab_inv_def reserved_units_eq)

lemma fresh_first_fit: "first_fit (bitmap fresh_slab) 3 4 = Some 8"
  unfolding first_fit_def
proof (rule find_upt_Some)
  show "aligned_at 4 8 \<and> fits_at (bitmap fresh_slab) 3 8"
    by (auto simp: aligned_at_def fits_at_iff busy_def fresh_bits)
  fix j :: nat assume "j < 8"
  moreover have "busy (bitmap fresh_slab) 0" "busy (bitmap fresh_slab) 4"
    by (simp_all add: busy_def fresh_bits)
  moreover have "j = 0 \<or> j = 4" if "j mod 4 = 0" using that \<open>j < 8\<close> by presburger
  ultimately show "\<not> (aligned_at 4 j \<and> fits_at (bitmap fresh_slab) 3 j)"
    by (force simp: aligned_at_def fits_at_iff)
qed simp

definition fresh_after_alloc :: block_ctrl where
  "fresh_after_alloc = fresh_slab\<lparr>sizes := (sizes fresh_slab)[8 := 3],
     bitmap := set_bitmap (bitmap fresh_slab) 8 3\<rparr>"

lemma fresh_alloc: "qae_mem_alloc (Some fresh_slab) 3000 4 = (Some 8192, Some fresh_after_alloc)"
proof -
  have "bm_ok (bitmap fresh_slab)" using init_slab_inv by (simp add: slab_inv_def)
  note al = alloc_first_fit [OF this, of 3000 4]
  have "units 3000 = 3" by (simp add: units_def UNIT_SIZE_def)
  with al show ?thesis
    by (simp add: fresh_first_fit UNIT_SIZE_def fresh_after_alloc_def)
qed

section \<open>Properties\<close>

text \<open>C8. On a well-formed slab the allocator is first fit: it fails only when no aligned run of
  enough free units exists, and leaves the slab untouched then; otherwise it returns the lowest
  aligned run, outside the control units and disjoint from every live block, and the live blocks
  afterwards are the old ones and the new one.\<close>

theorem qae_mem_alloc_spec:
  assumes inv: "slab_inv r c" and nz: "bytes \<noteq> 0" and big: "unat bytes \<le> 2 ^ 64 - 1024"
    and al: "qae_mem_alloc (Some c) bytes align = (res, Some c')"
  shows "case res of
      None \<Rightarrow> c' = c \<and>
        (\<forall>fb < BLOCK_SIZES. aligned_at align fb \<longrightarrow> \<not> fits_at (bitmap c) (units bytes) fb)
    | Some off \<Rightarrow> \<exists>fb. off = fb * UNIT_SIZE \<and>
        aligned_at align fb \<and> r \<le> fb \<and> fb + units bytes \<le> BLOCK_SIZES \<and>
        (\<forall>f < fb. aligned_at align f \<longrightarrow> \<not> fits_at (bitmap c) (units bytes) f) \<and>
        (\<forall>f i. owns c f i \<longrightarrow> \<not> (fb \<le> i \<and> i < fb + units bytes)) \<and>
        (\<forall>f i. owns c' f i \<longleftrightarrow> (if f = fb then fb \<le> i \<and> i < fb + units bytes else owns c f i))"
proof -
  have ok: "bm_ok (bitmap c)" using inv by (simp add: slab_inv_def)
  note al' = al [unfolded alloc_first_fit [OF ok nz big]]
  have pos: "0 < units bytes" by (rule units_pos [OF nz])
  show ?thesis
  proof (cases "first_fit (bitmap c) (units bytes) align")
    case None
    with al' have "res = None" "c' = c" by auto
    with None show ?thesis by (auto simp: first_fit_def find_None_iff)
  next
    case (Some fb)
    with al' have res: "res = Some (fb * UNIT_SIZE)"
      and c': "c' = c\<lparr>sizes := (sizes c)[fb := of_nat (units bytes)],
                 bitmap := set_bitmap (bitmap c) fb (units bytes)\<rparr>" by auto
    note ff = first_fit_SomeD [OF Some pos]
    have sz: "length (sizes c) = 2048" "fb < 2048" "units bytes \<le> 2048"
      using inv ff(3) pos by (auto simp: slab_inv_def)
    note un = fits_unowned [OF inv ff(2)]
    have "r \<le> fb" using un(1) [of fb] pos by simp
    moreover have "\<forall>f i. owns c f i \<longrightarrow> \<not> (fb \<le> i \<and> i < fb + units bytes)" using un(3) by blast
    ultimately show ?thesis unfolding res c' owns_upd [OF sz] option.case
      using ff by (intro exI [of _ fb]) simp
  qed
qed

theorem qae_mem_alloc_spec_witness:
  "\<exists>fb. 8192 = fb * UNIT_SIZE \<and> reserved_units \<le> fb \<and>
        (\<forall>i. owns fresh_after_alloc fb i \<longleftrightarrow> fb \<le> i \<and> i < fb + 3)"
proof -
  have big: "unat (3000 :: u64) \<le> 2 ^ 64 - 1024" and nz: "(3000 :: u64) \<noteq> 0" by simp_all
  have u: "units 3000 = 3" by (simp add: units_def UNIT_SIZE_def)
  note spec = qae_mem_alloc_spec [OF init_slab_inv nz big fresh_alloc, unfolded option.case u]
  from spec obtain fb where "8192 = fb * UNIT_SIZE" "reserved_units \<le> fb"
    and o: "\<forall>f i. owns fresh_after_alloc f i \<longleftrightarrow>
      (if f = fb then fb \<le> i \<and> i < fb + 3 else owns fresh_slab f i)" by blast
  moreover from o have "\<forall>i. owns fresh_after_alloc fb i \<longleftrightarrow> fb \<le> i \<and> i < fb + 3" by simp
  ultimately show ?thesis by blast
qed

text \<open>C16. Any sequence of allocations and frees, whatever addresses are freed, keeps the slab
  well formed: blocks stay inside the slab, stay behind the control units, never overlap, and the
  bitmap marks exactly the units of the control structure and of live blocks.\<close>

theorem slab_run_keeps_inv:
  assumes "list_all op_ok ops" and "slab_run ctrl_addr ops fresh_slab = Some c"
  shows "slab_inv reserved_units c"
  by (rule slab_run_inv [OF init_slab_inv assms])

theorem slab_run_keeps_inv_witness: "slab_inv reserved_units fresh_after_alloc"
  using slab_run_keeps_inv [of "[Op_Alloc 3000 4]" 0 fresh_after_alloc]
  by (simp add: fresh_alloc)

text \<open>C33. Freeing the block just allocated succeeds and restores the bitmap and the table of sizes
  bit for bit; with secure free exactly the units of the block are zeroed, otherwise the contents
  are untouched.\<close>

theorem qae_mem_alloc_free:
  assumes inv: "slab_inv r c" and nz: "bytes \<noteq> 0" and big: "unat bytes \<le> 2 ^ 64 - 1024"
    and al: "qae_mem_alloc (Some c) bytes align = (Some off, Some c')"
    and base: "ctrl_addr mod of_nat UNIT_SIZE = 0" "ctrl_addr + of_nat off \<noteq> 0"
  shows "qae_mem_free (Some c') ctrl_addr (ctrl_addr + of_nat off) secure =
    Some (True, Some (c\<lparr>slab_data :=
      (if secure then qae_memzero_explicit off (units bytes * UNIT_SIZE) (slab_data c)
       else slab_data c)\<rparr>))"
proof -
  have ok: "bm_ok (bitmap c)" and sz: "length (sizes c) = 2048"
    using inv by (auto simp: slab_inv_def)
  have pos: "0 < units bytes" by (rule units_pos [OF nz])
  obtain fb where fb: "first_fit (bitmap c) (units bytes) align = Some fb"
      "off = fb * UNIT_SIZE"
      "c' = c\<lparr>sizes := (sizes c)[fb := of_nat (units bytes)],
              bitmap := set_bitmap (bitmap c) fb (units bytes)\<rparr>"
    using al unfolding alloc_first_fit [OF ok nz big] by (auto split: option.splits)
  note ff = first_fit_SomeD [OF fb(1) pos]
  have lt: "fb < 2048" "units bytes \<le> 2048" using ff(3) pos by auto
  have len: "block_len c' fb = units bytes"
    using block_len_upd [OF lt(1) sz lt(2)] by (simp add: fb(3))
  have old: "sizes c ! fb = 0"
    using block_free_at_fit [OF inv ff(2) pos] by (simp add: block_len_def unat_eq_0)
  have unit: "(ctrl_addr + of_nat off) mod of_nat UNIT_SIZE = 0"
    using unit_offset [OF base(1)] by (simp add: fb(2))
  have same: "(sizes c)[fb := 0] = sizes c" using old sz lt(1) by (simp add: list_update_same_conv)
  have live: "block_len c' fb \<noteq> 0" using len pos by simp
  have at: "ctrl_addr + of_nat off = ctrl_addr + of_nat (fb * UNIT_SIZE)" by (simp only: fb(2))
  show ?thesis
    unfolding free_block [OF alloc_inv [OF inv nz big al] lt(1) live at base(2) unit] len
    using same clear_set_bitmap [OF ok ff(2,3)] by (simp add: fb(2,3))
qed

theorem qae_mem_alloc_free_witness:
  "qae_mem_free (Some fresh_after_alloc) 0x200000 (0x200000 + of_nat 8192) False =
     Some (True, Some fresh_slab)"
  using qae_mem_alloc_free 
    [OF init_slab_inv _ _ fresh_alloc, where ctrl_addr = "0x200000" and secure = False]
  by (simp add: UNIT_SIZE_def)

text \<open>A block freed twice in a row is refused the second time, without a change to the slab.\<close>

lemma qae_mem_double_free:
  assumes "slab_inv r c"
    and "qae_mem_free (Some c) ctrl_addr block secure = Some (True, Some c')"
  shows "qae_mem_free (Some c') ctrl_addr block secure' = Some (False, Some c')"
  using assms by (auto simp: qae_mem_free_def Let_def slab_inv_def split: if_splits)

lemma fresh_inv_after_alloc: "slab_inv reserved_units fresh_after_alloc"
  by (rule alloc_inv [OF init_slab_inv _ _ fresh_alloc]) simp_all

lemma fresh_free:
  "qae_mem_free (Some fresh_after_alloc) 0x200000 0x202000 True =
     Some (True, Some (fresh_after_alloc\<lparr>sizes := (sizes fresh_after_alloc)[8 := 0],
        bitmap := clear_bitmap (bitmap fresh_after_alloc) 8 3,
        slab_data := qae_memzero_explicit 8192 3072 (slab_data fresh_after_alloc)\<rparr>))"
proof -
  have "length (sizes fresh_slab) = 2048" using init_slab_inv by (simp add: slab_inv_def)
  then have "block_len fresh_after_alloc 8 = 3" by (simp add: block_len_def fresh_after_alloc_def)
  then show ?thesis
    using free_block [OF fresh_inv_after_alloc, of 8 "0x202000" "0x200000" True]
    by (simp add: UNIT_SIZE_def)
qed

end
