(* ===== verification/Usdm_Iova.thy ===== *)
theory Usdm_Iova
  imports Usdm_Bitmap
begin

text \<open>
  The IOVA allocator of the VFIO memory driver (\<open>vfio/qae_mem_utils_vfio.c\<close>): a bitmap over the
  2 MB slabs of the 39 bit I/O address space and a cursor.  The bitmap is the array of 32 bit
  words of the source; every access is checked, so that \<open>None\<close> stands for an access outside the
  array (or a division by zero), and the lemmas show that it does not happen.
\<close>

unbundle bit_operations_syntax

abbreviation IOVA_BITS :: nat where "IOVA_BITS \<equiv> 39"
abbreviation SLAB_BITS :: nat where "SLAB_BITS \<equiv> 21"

definition IOVA_SLAB_SIZE :: u64 where "IOVA_SLAB_SIZE = push_bit SLAB_BITS 1"
definition FIRST_IOVA :: u64 where "FIRST_IOVA = IOVA_SLAB_SIZE"
definition NUM_IOVA_SLABS :: nat where "NUM_IOVA_SLABS = 2 ^ (IOVA_BITS - SLAB_BITS)"
definition MAX_IOVA :: u64 where "MAX_IOVA = push_bit IOVA_BITS 1 - IOVA_SLAB_SIZE"

definition IOVA_IDX :: "u64 \<Rightarrow> u32" where
  "IOVA_IDX iova = ucast (drop_bit SLAB_BITS iova AND (push_bit (IOVA_BITS - SLAB_BITS) 1 - 1))"

record iova_state =
  iova_used :: "u32 list"
  next_iova :: u64

definition iova_init :: iova_state where
  "iova_init = \<lparr>iova_used = replicate (NUM_IOVA_SLABS div 32) 0, next_iova = FIRST_IOVA\<rparr>"

definition round_up :: "u64 \<Rightarrow> u64 \<Rightarrow> u64" where
  "round_up n s = ((n + s - 1) div s) * s"

definition bit_is_set :: "u32 list \<Rightarrow> u32 \<Rightarrow> bool option" where
  "bit_is_set used index =
     (let w = unat (index div 32)
      in if w < length used
         then Some (used ! w AND push_bit (unat (index mod 32)) 1 \<noteq> 0) else None)"

definition set_bit_u32 :: "u32 list \<Rightarrow> u32 \<Rightarrow> u32 list option" where
  "set_bit_u32 used index =
     (let w = unat (index div 32)
      in if w < length used
         then Some (used[w := used ! w OR push_bit (unat (index mod 32)) 1]) else None)"

definition clear_bit_u32 :: "u32 list \<Rightarrow> u32 \<Rightarrow> u32 list option" where
  "clear_bit_u32 used index =
     (let w = unat (index div 32)
      in if w < length used
         then Some (used[w := used ! w AND NOT (push_bit (unat (index mod 32)) 1)]) else None)"

text \<open>
  The loops of \<open>iova_reserve\<close>: the first takes slabs while they are free and returns how many it
  took and the slab it stopped at; the second gives them back in reverse order.
\<close>

fun reserve_loop :: "nat \<Rightarrow> u32 \<Rightarrow> u32 list \<Rightarrow> (nat \<times> u32 \<times> u32 list) option" where
  "reserve_loop 0 slab used = Some (0, slab, used)"
| "reserve_loop (Suc n) slab used =
     (case bit_is_set used slab of
        None \<Rightarrow> None
      | Some taken \<Rightarrow>
          if taken then Some (0, slab, used)
          else (case set_bit_u32 used slab of
                  None \<Rightarrow> None
                | Some used' \<Rightarrow>
                    map_option (\<lambda>(count, rest). (Suc count, rest))
                      (reserve_loop n (slab + 1) used')))"

fun revert_loop :: "nat \<Rightarrow> u32 \<Rightarrow> u32 list \<Rightarrow> u32 list option" where
  "revert_loop 0 slab used = Some used"
| "revert_loop (Suc count) slab used =
     (case clear_bit_u32 used (slab - 1) of
        None \<Rightarrow> None
      | Some used' \<Rightarrow> revert_loop count (slab - 1) used')"

text \<open>The result is \<open>True\<close> where the source returns 1, the range could not be reserved.\<close>

definition iova_reserve :: "u32 list \<Rightarrow> u64 \<Rightarrow> u32 \<Rightarrow> (bool \<times> u32 list) option" where
  "iova_reserve used iova bytes =
     (let slab = IOVA_IDX iova;
          num_slabs = unat (div_round_up (ucast bytes) IOVA_SLAB_SIZE)
      in if iova + ucast bytes - IOVA_SLAB_SIZE > MAX_IOVA then Some (True, used)
         else (case reserve_loop num_slabs slab used of
                 None \<Rightarrow> None
               | Some (count, slab', used') \<Rightarrow>
                   if count < num_slabs
                   then map_option (\<lambda>u. (True, u)) (revert_loop count slab' used')
                   else Some (False, used')))"

fun release_loop :: "nat \<Rightarrow> u32 \<Rightarrow> u32 list \<Rightarrow> u32 list option" where
  "release_loop 0 slab used = Some used"
| "release_loop (Suc n) slab used =
     (case clear_bit_u32 used slab of
        None \<Rightarrow> None
      | Some used' \<Rightarrow> release_loop n (slab + 1) used')"

text \<open>The number of slabs is computed in 32 bits here, unlike in \<open>iova_reserve\<close>.\<close>

definition iova_release :: "u32 list \<Rightarrow> u64 \<Rightarrow> u32 \<Rightarrow> u32 list option" where
  "iova_release used iova bytes =
     release_loop (unat (drop_bit SLAB_BITS (bytes + push_bit SLAB_BITS 1 - 1)))
       (IOVA_IDX iova) used"

text \<open>
  The search loop of \<open>allocate_iova\<close>, with the number of tries left.  The IOVA is 0 when every try
  failed.
\<close>

fun allocate_loop :: "nat \<Rightarrow> u32 \<Rightarrow> u64 \<Rightarrow> u64 \<Rightarrow> iova_state \<Rightarrow> (u64 \<times> iova_state) option" where
  "allocate_loop 0 bytes alignment iova st = Some (0, st)"
| "allocate_loop (Suc tries) bytes alignment iova st =
     (case iova_reserve (iova_used st) iova bytes of
        None \<Rightarrow> None
      | Some (True, used) \<Rightarrow>
          let iova' = iova + alignment;
              iova'' = if iova' > MAX_IOVA then round_up FIRST_IOVA alignment else iova'
          in allocate_loop tries bytes alignment iova'' (st\<lparr>iova_used := used\<rparr>)
      | Some (False, used) \<Rightarrow>
          let nxt = iova + round_up (ucast bytes) IOVA_SLAB_SIZE
          in Some (iova, st\<lparr>iova_used := used,
                          next_iova := (if nxt > MAX_IOVA then FIRST_IOVA else nxt)\<rparr>))"

definition allocate_iova :: "iova_state \<Rightarrow> u32 \<Rightarrow> u32 \<Rightarrow> (u64 \<times> iova_state) option" where
  "allocate_iova st bytes alignment =
     (let alignment' = ucast (ucast (round_up (ucast alignment) IOVA_SLAB_SIZE) :: u32)
      in if alignment' = 0 then None
         else allocate_loop (unat (MAX_IOVA div alignment')) bytes alignment'
                (round_up (next_iova st) alignment') st)"

text \<open>
  \<open>filter_range\<close>: the IOMMU reports the usable ranges, the slabs between them are marked used.
  The inner \<open>while\<close> loop first; the second component of the result is the new \<open>next\<close>.
\<close>

function exclude_loop :: "u64 \<Rightarrow> u64 \<Rightarrow> u32 list \<Rightarrow> (u64 \<times> u32 list) option" where
  "exclude_loop nxt start used =
     (if nxt < min start MAX_IOVA
      then (case set_bit_u32 used (IOVA_IDX nxt) of
              None \<Rightarrow> None
            | Some used' \<Rightarrow> exclude_loop (nxt + IOVA_SLAB_SIZE) start used')
      else Some (nxt, used))"
  by pat_completeness auto

lemma iova_consts:
  "unat IOVA_SLAB_SIZE = 2097152" "unat FIRST_IOVA = 2097152" "unat MAX_IOVA = 549753716736"
  "NUM_IOVA_SLABS = 262144"
  by (simp_all add: IOVA_SLAB_SIZE_def FIRST_IOVA_def MAX_IOVA_def NUM_IOVA_SLABS_def)

lemma exclude_step:
  assumes "nxt < min start MAX_IOVA"
  shows "unat (nxt + IOVA_SLAB_SIZE) = unat nxt + 2097152" and "unat nxt < 549753716736"
proof -
  have "nxt < MAX_IOVA" using assms by simp
  then show lt: "unat nxt < 549753716736" by (simp add: word_less_nat_alt iova_consts)
  then show "unat (nxt + IOVA_SLAB_SIZE) = unat nxt + 2097152"
    by (simp add: unat_word_ariths iova_consts)
qed

termination exclude_loop
proof (relation "measure (\<lambda>(nxt, start, used). 1099511627776 - unat nxt)")
  fix nxt start :: u64 and used used' :: "u32 list"
  assume "nxt < min start MAX_IOVA"
  from exclude_step [OF this]
  show "((nxt + IOVA_SLAB_SIZE, start, used'), nxt, start, used)
        \<in> measure (\<lambda>(nxt, start, used). 1099511627776 - unat nxt)" by simp
qed simp

declare exclude_loop.simps [simp del]

fun filter_range :: "u64 \<Rightarrow> (u64 \<times> u64) list \<Rightarrow> u32 list \<Rightarrow> (u64 \<times> u32 list) option" where
  "filter_range nxt [] used = Some (nxt, used)"
| "filter_range nxt ((start, stop) # ranges) used =
     (case exclude_loop nxt start used of
        None \<Rightarrow> None
      | Some (nxt', used') \<Rightarrow>
          if stop \<ge> MAX_IOVA then Some (nxt', used')
          else filter_range ((stop + 1) AND NOT (IOVA_SLAB_SIZE - 1)) ranges used')"

section \<open>The bitmap as a set of slabs\<close>

definition slab_used :: "u32 list \<Rightarrow> nat \<Rightarrow> bool" where
  "slab_used used i \<longleftrightarrow> bit (used ! (i div 32)) (i mod 32)"

definition range_free :: "u32 list \<Rightarrow> nat \<Rightarrow> nat \<Rightarrow> bool" where
  "range_free used a n \<longleftrightarrow> (\<forall>j. a \<le> j \<and> j < a + n \<longrightarrow> \<not> slab_used used j)"

abbreviation used_ok :: "u32 list \<Rightarrow> bool" where
  "used_ok used \<equiv> length used = 8192"

lemma used_eqI:
  assumes "length u = length v" and "\<And>i. slab_used u i = slab_used v i"
  shows "u = v"
proof (rule nth_equalityI)
  fix q assume "q < length u"
  show "u ! q = v ! q"
  proof (rule bit_word_eqI)
    fix j :: nat assume "j < LENGTH(32)"
    then have "(q * 32 + j) div 32 = q" "(q * 32 + j) mod 32 = j" by auto
    then show "bit (u ! q) j = bit (v ! q) j" using assms(2) [of "q * 32 + j"] by (simp add: slab_used_def)
  qed
qed (rule assms(1))

lemma u32_div_mod: "unat (i div 32 :: u32) = unat i div 32" "unat (i mod 32 :: u32) = unat i mod 32"
  by (simp_all add: unat_div unat_mod)

lemma div_mod_32_eqD: "i div 32 = j div 32 \<Longrightarrow> j mod 32 = i mod 32 \<Longrightarrow> j = (i :: nat)"
  by (metis div_mult_mod_eq)

lemma bit_is_set_ok:
  assumes "used_ok used" and "unat i < 262144"
  shows "bit_is_set used i = Some (slab_used used (unat i))"
  using assms
  by (simp add: bit_is_set_def slab_used_def u32_div_mod bit_iff_and_push_bit_not_eq_0 Let_def)

lemma set_bit_ok:
  assumes "used_ok used" and "unat i < 262144"
  shows "\<exists>u. set_bit_u32 used i = Some u \<and> used_ok u \<and>
           (\<forall>j. slab_used u j \<longleftrightarrow> j = unat i \<or> slab_used used j)"
proof -
  have "bit (2 ^ n :: u32) k \<longleftrightarrow> k = n" if "n < 32" for n k
    using that by (auto simp: bit_exp_iff)
  then show ?thesis
    using assms
    by (auto simp: set_bit_u32_def slab_used_def u32_div_mod nth_list_update bit_or_iff Let_def
        dest: div_mod_32_eqD)
qed

lemma clear_bit_ok:
  assumes "used_ok used" and "unat i < 262144"
  shows "\<exists>u. clear_bit_u32 used i = Some u \<and> used_ok u \<and>
           (\<forall>j. slab_used u j \<longleftrightarrow> j \<noteq> unat i \<and> slab_used used j)"
proof -
  have "bit (2 ^ n :: u32) k \<longleftrightarrow> k = n" if "n < 32" for n k
    using that by (auto simp: bit_exp_iff)
  then show ?thesis
    using assms
    by (auto simp: clear_bit_u32_def slab_used_def u32_div_mod nth_list_update bit_and_iff
        bit_not_iff Let_def dest: div_mod_32_eqD)
qed

section \<open>The loops\<close>

lemma unat_Suc_u32: "unat s < 262144 \<Longrightarrow> unat (s + 1 :: u32) = Suc (unat s)"
  by (simp add: unat_word_ariths)

lemma unat_pred_u32: "0 < unat s \<Longrightarrow> unat (s - 1 :: u32) = unat s - 1"
  by (metis One_nat_def Suc_leI unat_1 unat_sub word_le_nat_alt)

lemma reserve_loop_ok:
  "used_ok used \<Longrightarrow> unat s + n \<le> 262144 \<Longrightarrow>
   \<exists>c s' u. reserve_loop n s used = Some (c, s', u) \<and> unat s' = unat s + c \<and> c \<le> n \<and> used_ok u \<and>
     (\<forall>j. slab_used u j \<longleftrightarrow> (unat s \<le> j \<and> j < unat s + c) \<or> slab_used used j) \<and>
     range_free used (unat s) c \<and> (c < n \<longrightarrow> slab_used used (unat s + c))"
proof (induction n arbitrary: s used)
  case 0
  then show ?case by (auto simp: range_free_def)
next
  case (Suc n)
  then have lt: "unat s < 262144" by simp
  show ?case
  proof (cases "slab_used used (unat s)")
    case True
    then show ?thesis using Suc.prems lt by (auto simp: bit_is_set_ok range_free_def)
  next
    case False
    obtain v where v: "set_bit_u32 used s = Some v" "used_ok v"
        "\<And>j. slab_used v j \<longleftrightarrow> j = unat s \<or> slab_used used j"
      using set_bit_ok [OF Suc.prems(1) lt] by blast
    have "unat (s + 1) + n \<le> 262144" using Suc.prems(2) by (simp add: unat_Suc_u32 [OF lt])
    then obtain c s' u where r: "reserve_loop n (s + 1) v = Some (c, s', u)"
        "unat s' = Suc (unat s) + c" "c \<le> n" "used_ok u"
        "\<forall>j. slab_used u j \<longleftrightarrow> (Suc (unat s) \<le> j \<and> j < Suc (unat s) + c) \<or> slab_used v j"
        "range_free v (Suc (unat s)) c" "c < n \<longrightarrow> slab_used v (Suc (unat s) + c)"
      using Suc.IH [OF v(2), of "s + 1"] unfolding unat_Suc_u32 [OF lt] by blast
    have run: "reserve_loop (Suc n) s used = Some (Suc c, s', u)"
      using Suc.prems(1) lt False v(1) r(1) by (simp add: bit_is_set_ok)
    have "unat s \<le> j \<and> j < unat s + Suc c \<longleftrightarrow>
          j = unat s \<or> (Suc (unat s) \<le> j \<and> j < Suc (unat s) + c)" for j by auto
    then have "\<forall>j. slab_used u j \<longleftrightarrow> (unat s \<le> j \<and> j < unat s + Suc c) \<or> slab_used used j"
      and "range_free used (unat s) (Suc c)"
      using r(5,6) v(3) False by (auto simp: range_free_def)
    moreover have "Suc c < Suc n \<longrightarrow> slab_used used (unat s + Suc c)" using r(7) v(3) by simp
    ultimately show ?thesis using run r(2,3,4) by simp
  qed
qed

lemma revert_loop_ok:
  "used_ok used \<Longrightarrow> c \<le> unat s \<Longrightarrow> unat s \<le> 262144 \<Longrightarrow>
   \<exists>u. revert_loop c s used = Some u \<and> used_ok u \<and>
     (\<forall>j. slab_used u j \<longleftrightarrow> \<not> (unat s - c \<le> j \<and> j < unat s) \<and> slab_used used j)"
proof (induction c arbitrary: s used)
  case (Suc c)
  have s: "unat (s - 1) = unat s - 1" "unat s - 1 < 262144" "0 < unat s"
    using Suc.prems unat_pred_u32 [of s] by auto
  obtain v where v: "clear_bit_u32 used (s - 1) = Some v" "used_ok v"
      "\<And>j. slab_used v j \<longleftrightarrow> j \<noteq> unat s - 1 \<and> slab_used used j"
    using clear_bit_ok [OF Suc.prems(1), of "s - 1"] s by auto
  have le: "c \<le> unat (s - 1)" "unat (s - 1) \<le> 262144" using s Suc.prems by linarith+
  obtain u where u: "revert_loop c (s - 1) v = Some u" "used_ok u"
      "\<And>j. slab_used u j \<longleftrightarrow> \<not> (unat s - 1 - c \<le> j \<and> j < unat s - 1) \<and> slab_used v j"
    using Suc.IH [OF v(2) le] unfolding s(1) by blast
  have "\<not> (unat s - 1 - c \<le> j \<and> j < unat s - 1) \<and> j \<noteq> unat s - 1 \<longleftrightarrow>
        \<not> (unat s - Suc c \<le> j \<and> j < unat s)" for j
    using s(3) Suc.prems(2) by auto
  then have "\<forall>j. slab_used u j \<longleftrightarrow> \<not> (unat s - Suc c \<le> j \<and> j < unat s) \<and> slab_used used j"
    unfolding u(3) v(3) by blast
  with v(1) u(1,2) show ?case by simp
qed auto

lemma release_loop_ok:
  "used_ok used \<Longrightarrow> unat s + n \<le> 262144 \<Longrightarrow>
   \<exists>u. release_loop n s used = Some u \<and> used_ok u \<and>
     (\<forall>j. slab_used u j \<longleftrightarrow> \<not> (unat s \<le> j \<and> j < unat s + n) \<and> slab_used used j)"
proof (induction n arbitrary: s used)
  case (Suc n)
  then have s: "unat s < 262144" by simp
  obtain v where v: "clear_bit_u32 used s = Some v" "used_ok v"
      "\<And>j. slab_used v j \<longleftrightarrow> j \<noteq> unat s \<and> slab_used used j"
    using clear_bit_ok [OF Suc.prems(1) s] by blast
  have le: "unat (s + 1) + n \<le> 262144" using Suc.prems(2) unat_Suc_u32 [OF s] by simp
  obtain u where u: "release_loop n (s + 1) v = Some u" "used_ok u"
      "\<And>j. slab_used u j \<longleftrightarrow> \<not> (Suc (unat s) \<le> j \<and> j < Suc (unat s) + n) \<and> slab_used v j"
    using Suc.IH [OF v(2) le] unfolding unat_Suc_u32 [OF s] by blast
  have "\<not> (Suc (unat s) \<le> j \<and> j < Suc (unat s) + n) \<and> j \<noteq> unat s \<longleftrightarrow>
        \<not> (unat s \<le> j \<and> j < unat s + Suc n)" for j by auto
  then have "\<forall>j. slab_used u j \<longleftrightarrow> \<not> (unat s \<le> j \<and> j < unat s + Suc n) \<and> slab_used used j"
    unfolding u(3) v(3) by blast
  with v(1) u(1,2) show ?case by simp
qed auto

section \<open>Reserving and releasing\<close>

definition slabs :: "u32 \<Rightarrow> nat" where
  "slabs bytes = (unat bytes + 2097151) div 2097152"

lemma slabs_pos: "bytes \<noteq> 0 \<Longrightarrow> 0 < slabs bytes"
  unfolding slabs_def using unat_gt_0 [of bytes] by (simp add: div_greater_zero_iff)

lemma u32_lt: "unat (x :: u32) < 4294967296"
  using unsigned_less [of x] by simp

lemma unat_ucast_u32: "unat (ucast (x :: u32) :: u64) = unat x"
  using u32_lt [of x] by (simp add: unsigned_ucast_eq take_bit_nat_eq_self_iff)

lemma num_slabs: "unat (div_round_up (ucast bytes) IOVA_SLAB_SIZE) = slabs bytes"
  using u32_lt [of bytes] div_round_up_unat [of "ucast bytes" IOVA_SLAB_SIZE]
  by (simp add: unat_ucast_u32 iova_consts slabs_def IOVA_SLAB_SIZE_def)

lemma IOVA_IDX_unat:
  assumes "unat iova < 549755813888"
  shows "unat (IOVA_IDX iova) = unat iova div 2097152"
proof -
  have "drop_bit 21 iova AND (push_bit 18 1 - 1) = take_bit 18 (drop_bit 21 iova)"
    by (simp add: take_bit_eq_mask mask_eq_exp_minus_1)
  moreover have "unat (take_bit 18 (drop_bit 21 iova)) = unat iova div 2097152"
    using assms
    by (simp add: unsigned_take_bit_eq drop_bit_eq_div unat_div take_bit_nat_eq_self_iff
        less_mult_imp_div_less)
  ultimately show ?thesis
    using assms
    by (simp add: IOVA_IDX_def unsigned_ucast_eq take_bit_nat_eq_self_iff less_mult_imp_div_less)
qed

lemma release_slabs:
  assumes "unat bytes \<le> 4292870144"
  shows "unat (drop_bit 21 (bytes + push_bit 21 1 - 1 :: u32)) = slabs bytes"
proof -
  have "bytes + push_bit 21 1 - 1 = of_nat (unat bytes + 2097151)" by simp
  moreover have "unat (of_nat (unat bytes + 2097151) :: u32) = unat bytes + 2097151"
    using assms by (simp only: unat_of_nat) simp
  moreover have "unat (2 ^ 21 :: u32) = 2097152" by simp
  ultimately show ?thesis by (simp only: drop_bit_eq_div unat_div slabs_def)
qed

definition can_reserve :: "u32 list \<Rightarrow> u64 \<Rightarrow> u32 \<Rightarrow> bool" where
  "can_reserve used iova bytes \<longleftrightarrow>
     unat iova + unat bytes \<le> 549755813888 \<and>
     range_free used (unat iova div 2097152) (slabs bytes)"

definition in_slabs :: "u64 \<Rightarrow> u32 \<Rightarrow> nat \<Rightarrow> bool" where
  "in_slabs iova bytes j \<longleftrightarrow>
     unat iova div 2097152 \<le> j \<and> j < unat iova div 2097152 + slabs bytes"

abbreviation slab_aligned :: "u64 \<Rightarrow> bool" where
  "slab_aligned iova \<equiv> unat iova mod 2097152 = 0"

lemma iova_limit:
  fixes bytes :: u32
  assumes "2097152 \<le> unat iova" and "unat iova < 1099511627776"
  shows "iova + ucast bytes - IOVA_SLAB_SIZE > MAX_IOVA \<longleftrightarrow> unat iova + unat bytes > 549755813888"
proof -
  have sum: "unat (iova + ucast bytes) = unat iova + unat bytes"
    using assms(2) u32_lt [of bytes] by (simp add: unat_word_ariths unat_ucast_u32)
  then have "unat (iova + ucast bytes - IOVA_SLAB_SIZE) = unat iova + unat bytes - 2097152"
    using assms(1) by (subst unat_sub) (simp_all add: word_le_nat_alt iova_consts)
  then show ?thesis using assms(1) by (simp add: word_less_nat_alt iova_consts) linarith
qed

lemma slabs_bound:
  assumes "slab_aligned iova" and "unat iova + unat bytes \<le> 549755813888"
  shows "unat iova div 2097152 + slabs bytes \<le> 262144"
proof -
  have "unat iova div 2097152 + slabs bytes = (unat iova + (unat bytes + 2097151)) div 2097152"
    using assms(1) unfolding slabs_def by (subst div_plus_div_distrib_dvd_left) auto
  also have "\<dots> \<le> (549755813888 + 2097151) div 2097152"
    using assms(2) by (intro div_le_mono) simp
  finally show ?thesis by simp
qed

lemma iova_reserve_ok:
  assumes u: "used_ok used" and lo: "2097152 \<le> unat iova" and hi: "unat iova < 1099511627776"
    and al: "slab_aligned iova" and nz: "bytes \<noteq> 0" and fit: "can_reserve used iova bytes"
  shows "\<exists>u. iova_reserve used iova bytes = Some (False, u) \<and> used_ok u \<and>
           (\<forall>j. slab_used u j \<longleftrightarrow> in_slabs iova bytes j \<or> slab_used used j)"
proof -
  have le: "unat iova + unat bytes \<le> 549755813888"
    and free: "range_free used (unat iova div 2097152) (slabs bytes)"
    using fit by (auto simp: can_reserve_def)
  have lt: "unat iova < 549755813888" using le unat_gt_0 [of bytes] nz by linarith
  have s: "unat (IOVA_IDX iova) = unat iova div 2097152" by (rule IOVA_IDX_unat [OF lt])
  have b: "unat (IOVA_IDX iova) + slabs bytes \<le> 262144" using slabs_bound [OF al le] s by simp
  obtain c s' v where r: "reserve_loop (slabs bytes) (IOVA_IDX iova) used = Some (c, s', v)"
      "c \<le> slabs bytes" "used_ok v"
      "\<forall>j. slab_used v j \<longleftrightarrow> (unat (IOVA_IDX iova) \<le> j \<and> j < unat (IOVA_IDX iova) + c) \<or> slab_used used j"
      "c < slabs bytes \<longrightarrow> slab_used used (unat (IOVA_IDX iova) + c)"
    using reserve_loop_ok [OF u b] by blast
  have c: "c = slabs bytes" using r(2,5) free s by (auto simp: range_free_def nat_less_le)
  show ?thesis
    using iova_limit [OF lo hi, of bytes] le r(1,3,4)
    by (simp add: iova_reserve_def num_slabs c s in_slabs_def)
qed

lemma iova_reserve_fail:
  assumes u: "used_ok used" and lo: "2097152 \<le> unat iova" and hi: "unat iova < 1099511627776"
    and al: "slab_aligned iova" and nz: "bytes \<noteq> 0" and fit: "\<not> can_reserve used iova bytes"
  shows "iova_reserve used iova bytes = Some (True, used)"
proof (cases "unat iova + unat bytes \<le> 549755813888")
  case False
  then show ?thesis using iova_limit [OF lo hi, of bytes] by (simp add: iova_reserve_def)
next
  case True
  have lt: "unat iova < 549755813888" using True unat_gt_0 [of bytes] nz by linarith
  have s: "unat (IOVA_IDX iova) = unat iova div 2097152" by (rule IOVA_IDX_unat [OF lt])
  have b: "unat (IOVA_IDX iova) + slabs bytes \<le> 262144" using slabs_bound [OF al True] s by simp
  obtain c s' v where r: "reserve_loop (slabs bytes) (IOVA_IDX iova) used = Some (c, s', v)"
      "unat s' = unat (IOVA_IDX iova) + c" "c \<le> slabs bytes" "used_ok v"
      "\<And>j. slab_used v j \<longleftrightarrow> (unat (IOVA_IDX iova) \<le> j \<and> j < unat (IOVA_IDX iova) + c) \<or> slab_used used j"
      "range_free used (unat (IOVA_IDX iova)) c"
    using reserve_loop_ok [OF u b] by blast
  have "c \<noteq> slabs bytes" using r(6) fit True s by (auto simp: can_reserve_def)
  then have c: "c < slabs bytes" using r(3) by simp
  have le: "c \<le> unat s'" "unat s' \<le> 262144" using r(2,3) b by linarith+
  obtain w where w: "revert_loop c s' v = Some w" "used_ok w"
      "\<And>j. slab_used w j \<longleftrightarrow> \<not> (unat s' - c \<le> j \<and> j < unat s') \<and> slab_used v j"
    using revert_loop_ok [OF r(4) le] by blast
  have "w = used"
  proof (rule used_eqI)
    fix j show "slab_used w j = slab_used used j"
      using r(6) unfolding w(3) r(5) r(2) range_free_def by auto
  qed (simp add: w(2) u)
  then show ?thesis
    using iova_limit [OF lo hi, of bytes] True r(1) c w(1)
    by (simp add: iova_reserve_def num_slabs)
qed

section \<open>The search for a free IOVA\<close>

lemma round_up_unat:
  assumes "unat n + unat s \<le> 2 ^ 64" and "s \<noteq> 0"
  shows "unat (round_up n s) = (unat n + unat s - 1) div unat s * unat s"
proof -
  have "round_up n s = div_round_up n s * s" by (simp add: round_up_def div_round_up_def)
  moreover have "(unat n + unat s - 1) div unat s * unat s \<le> unat n + unat s - 1" by simp
  then have "(unat n + unat s - 1) div unat s * unat s < 2 ^ 64"
    using assms unat_gt_0 [of s] by linarith
  ultimately show ?thesis
    by (simp only: unat_word_ariths div_round_up_unat [OF assms]) simp
qed

definition align_ok :: "u64 \<Rightarrow> bool" where
  "align_ok al \<longleftrightarrow> 0 < unat al \<and> unat al < 4294967296 \<and> 2097152 dvd unat al"

lemma align_okD:
  assumes "align_ok al"
  shows "al \<noteq> 0" and "2097152 \<le> unat al" and "unat al < 4294967296"
    and "unat al dvd n \<Longrightarrow> n mod 2097152 = 0"
  using assms by (auto simp: align_ok_def dvd_imp_le intro: dvd_trans)

text \<open>The candidate tried after \<open>iova\<close>: the next multiple, or the first one past the end.\<close>

definition next_candidate :: "u64 \<Rightarrow> u64 \<Rightarrow> u64" where
  "next_candidate al iova =
     (let iova' = iova + al in if iova' > MAX_IOVA then round_up FIRST_IOVA al else iova')"

lemma next_candidate_unat:
  assumes al: "align_ok al" and "unat iova < 1099511627776"
  shows "unat (next_candidate al iova) =
    (if unat iova + unat al > 549753716736 then unat al else unat iova + unat al)"
proof -
  note a = align_okD [OF al]
  have sum: "unat (iova + al) = unat iova + unat al"
    using assms(2) a(3) by (simp add: unat_word_ariths)
  have "(2097152 + unat al - 1) div unat al = 1"
    using a(2) by (simp add: div_nat_eqI)
  then have "unat (round_up FIRST_IOVA al) = unat al"
    using a(1,3) by (subst round_up_unat) (simp_all add: iova_consts)
  then show ?thesis by (simp add: next_candidate_def Let_def word_less_nat_alt iova_consts sum)
qed

definition candidate :: "u64 \<Rightarrow> u64 \<Rightarrow> bool" where
  "candidate al iova \<longleftrightarrow> unat al dvd unat iova \<and> unat al \<le> unat iova \<and> unat iova < 1099511627776"

lemma candidate_next:
  assumes "align_ok al" and "candidate al iova"
  shows "candidate al (next_candidate al iova)"
  using assms align_okD [OF assms(1)] by (auto simp: candidate_def next_candidate_unat)

lemma candidateD:
  assumes "align_ok al" and "candidate al iova"
  shows "2097152 \<le> unat iova" and "unat iova < 1099511627776" and "slab_aligned iova"
    and "iova \<noteq> 0"
proof -
  have c: "unat al dvd unat iova" "unat al \<le> unat iova" "unat iova < 1099511627776"
    using assms(2) by (auto simp: candidate_def)
  show lo: "2097152 \<le> unat iova" using align_okD(2) [OF assms(1)] c(2) by (rule le_trans)
  then show "iova \<noteq> 0" by auto
  show "unat iova < 1099511627776" by (rule c(3))
  show "slab_aligned iova" by (rule align_okD(4) [OF assms(1) c(1)])
qed

lemma allocate_loop_step:
  assumes "used_ok (iova_used st)" and "align_ok al" and "candidate al iova" and "bytes \<noteq> 0"
    and "\<not> can_reserve (iova_used st) iova bytes"
  shows "allocate_loop (Suc n) bytes al iova st = allocate_loop n bytes al (next_candidate al iova) st"
  using iova_reserve_fail [OF assms(1) candidateD(1,2,3) [OF assms(2,3)] assms(4,5)]
  by (simp add: next_candidate_def Let_def)

text \<open>
  What a successful search gives: the range was free before, exactly its slabs are added, and the
  cursor moves behind it.
\<close>

definition reserved_at :: "iova_state \<Rightarrow> u32 \<Rightarrow> u64 \<Rightarrow> u64 \<Rightarrow> iova_state \<Rightarrow> bool" where
  "reserved_at st bytes al r st' \<longleftrightarrow>
     candidate al r \<and> can_reserve (iova_used st) r bytes \<and> used_ok (iova_used st') \<and>
     (\<forall>j. slab_used (iova_used st') j \<longleftrightarrow> in_slabs r bytes j \<or> slab_used (iova_used st) j) \<and>
     unat (next_iova st') =
       (let n = unat r + slabs bytes * 2097152 in if n > 549753716736 then 2097152 else n)"

lemma allocate_loop_hit:
  assumes "used_ok (iova_used st)" and "align_ok al" and "candidate al iova" and "bytes \<noteq> 0"
    and "can_reserve (iova_used st) iova bytes"
  shows "\<exists>st'. allocate_loop (Suc n) bytes al iova st = Some (iova, st') \<and> reserved_at st bytes al iova st'"
proof -
  note c = candidateD [OF assms(2,3)]
  obtain u where u: "iova_reserve (iova_used st) iova bytes = Some (False, u)" "used_ok u"
      "\<forall>j. slab_used u j \<longleftrightarrow> in_slabs iova bytes j \<or> slab_used (iova_used st) j"
    using iova_reserve_ok [OF assms(1) c(1,2,3) assms(4,5)] by blast
  have "unat (round_up (ucast bytes) IOVA_SLAB_SIZE) = slabs bytes * 2097152"
    using u32_lt [of bytes]
    by (subst round_up_unat) (simp_all add: unat_ucast_u32 iova_consts IOVA_SLAB_SIZE_def slabs_def)
  moreover have "slabs bytes * 2097152 \<le> unat bytes + 2097151" unfolding slabs_def by simp
  ultimately have "unat (iova + round_up (ucast bytes) IOVA_SLAB_SIZE) = unat iova + slabs bytes * 2097152"
    using c(2) u32_lt [of bytes] by (simp add: unat_word_ariths)
  then show ?thesis
    using u assms(3,5)
    by (simp add: reserved_at_def word_less_nat_alt iova_consts Let_def)
qed

lemma allocate_loop_spec:
  "used_ok (iova_used st) \<Longrightarrow> align_ok al \<Longrightarrow> candidate al iova \<Longrightarrow> bytes \<noteq> 0 \<Longrightarrow>
   (\<exists>r st'. allocate_loop n bytes al iova st = Some (r, st') \<and> reserved_at st bytes al r st') \<or>
   (allocate_loop n bytes al iova st = Some (0, st) \<and>
    (\<forall>j < n. \<not> can_reserve (iova_used st) ((next_candidate al ^^ j) iova) bytes))"
proof (induction n arbitrary: iova)
  case (Suc n)
  show ?case
  proof (cases "can_reserve (iova_used st) iova bytes")
    case True
    then show ?thesis using allocate_loop_hit [OF Suc.prems] by blast
  next
    case False
    note step = allocate_loop_step [OF Suc.prems False]
    have "\<forall>j < Suc n. \<not> can_reserve (iova_used st) ((next_candidate al ^^ j) iova) bytes"
      if "\<forall>j < n. \<not> can_reserve (iova_used st) ((next_candidate al ^^ j) (next_candidate al iova)) bytes"
      using that False by (auto simp: less_Suc_eq_0_disj funpow_swap1)
    then show ?thesis
      using Suc.IH [OF Suc.prems(1,2) candidate_next [OF Suc.prems(2,3)] Suc.prems(4)]
      unfolding step by blast
  qed
qed simp

text \<open>Started inside the address space, the candidates run through all multiples.\<close>

lemma candidates_cyclic:
  assumes al: "align_ok al" and q: "1 \<le> q" "q \<le> 549753716736 div unat al"
    and iova: "unat iova = q * unat al"
  shows "unat ((next_candidate al ^^ j) iova) =
    ((q - 1 + j) mod (549753716736 div unat al) + 1) * unat al"
proof (induction j)
  case 0
  then show ?case using q iova by simp
next
  case (Suc j)
  let ?A = "unat al" and ?N = "549753716736 div unat al"
  define k where "k = (q - 1 + j) mod ?N"
  have N: "0 < ?N" using q by linarith
  have k: "k < ?N" unfolding k_def using N by simp
  have "(k + 1) * ?A \<le> ?N * ?A" using k by (intro mult_le_mono1) simp
  also have "\<dots> \<le> 549753716736" by (rule div_times_less_eq_dividend)
  finally have le: "(k + 1) * ?A \<le> 549753716736" .
  have gt: "(k + 1) * ?A + ?A > 549753716736 \<longleftrightarrow> k + 1 = ?N"
  proof
    assume "(k + 1) * ?A + ?A > 549753716736"
    then have "?N < k + 2" by (intro less_mult_imp_div_less) (simp add: algebra_simps)
    then show "k + 1 = ?N" using k by simp
  next
    assume "k + 1 = ?N"
    then show "(k + 1) * ?A + ?A > 549753716736"
      using align_okD(2) [OF al] dividend_less_div_times [of ?A 549753716736] by simp
  qed
  have "(q - 1 + Suc j) mod ?N = (if k + 1 = ?N then 0 else k + 1)"
    unfolding k_def using mod_Suc [of "q - 1 + j" ?N] by simp
  moreover have IH: "unat ((next_candidate al ^^ j) iova) = (k + 1) * ?A"
    using Suc.IH by (simp only: k_def)
  then have "unat ((next_candidate al ^^ j) iova) < 1099511627776" using le by linarith
  from next_candidate_unat [OF al this]
  have "unat ((next_candidate al ^^ Suc j) iova) = (if k + 1 = ?N then ?A else (k + 1) * ?A + ?A)"
    unfolding IH gt by simp
  ultimately show ?case by simp
qed

section \<open>The allocator\<close>

definition iova_inv :: "iova_state \<Rightarrow> bool" where
  "iova_inv st \<longleftrightarrow> used_ok (iova_used st) \<and> slab_aligned (next_iova st) \<and>
     2097152 \<le> unat (next_iova st) \<and> unat (next_iova st) \<le> 549753716736"

definition eff_align :: "u32 \<Rightarrow> nat" where
  "eff_align alignment = (unat alignment + 2097151) div 2097152 * 2097152"

definition first_candidate :: "iova_state \<Rightarrow> u32 \<Rightarrow> nat" where
  "first_candidate st alignment =
     (unat (next_iova st) + eff_align alignment - 1) div eff_align alignment * eff_align alignment"

lemma eff_align_word:
  assumes "0 < unat alignment" and "unat alignment \<le> 4292870144"
  defines "al \<equiv> ucast (ucast (round_up (ucast alignment) IOVA_SLAB_SIZE) :: u32) :: u64"
  shows "unat al = eff_align alignment" and "align_ok al"
proof -
  have "(unat alignment + 2097151) div 2097152 \<le> (4292870144 + 2097151) div 2097152"
    using assms(2) by (intro div_le_mono) simp
  then have hi: "eff_align alignment < 4294967296" by (simp add: eff_align_def)
  have "0 < (unat alignment + 2097151) div 2097152" using assms(1) by (simp add: div_greater_zero_iff)
  then have lo: "0 < eff_align alignment" by (simp add: eff_align_def)
  have "unat (round_up (ucast alignment) IOVA_SLAB_SIZE) = eff_align alignment"
    using u32_lt [of alignment]
    by (subst round_up_unat)
      (simp_all add: unat_ucast_u32 iova_consts IOVA_SLAB_SIZE_def eff_align_def)
  then show a: "unat al = eff_align alignment"
    using hi
    by (simp add: al_def unat_ucast_u32 unsigned_ucast_eq unsigned_take_bit_eq take_bit_nat_eq_self_iff)
  then show "align_ok al" using lo hi by (simp add: align_ok_def eff_align_def)
qed

lemma first_candidate_word:
  assumes inv: "iova_inv st" and al: "align_ok al"
  shows "unat (round_up (next_iova st) al) = (unat (next_iova st) + unat al - 1) div unat al * unat al"
    and "candidate al (round_up (next_iova st) al)"
proof -
  note a = align_okD [OF al]
  let ?n = "unat (next_iova st)" and ?A = "unat al"
  have n: "2097152 \<le> ?n" "?n \<le> 549753716736" using inv by (auto simp: iova_inv_def)
  show r: "unat (round_up (next_iova st) al) = (?n + ?A - 1) div ?A * ?A"
    using n a(1,3) by (intro round_up_unat) simp_all
  have "1 \<le> (?n + ?A - 1) div ?A" using n a(2) by (simp add: Suc_le_eq div_greater_zero_iff)
  then have "?A \<le> (?n + ?A - 1) div ?A * ?A" by simp
  moreover have "(?n + ?A - 1) div ?A * ?A \<le> ?n + ?A - 1" by (rule div_times_less_eq_dividend)
  then have "(?n + ?A - 1) div ?A * ?A < 1099511627776" using n(2) a(3) by linarith
  ultimately show "candidate al (round_up (next_iova st) al)"
    unfolding candidate_def r by simp
qed

lemma reserved_at_inv: "align_ok al \<Longrightarrow> reserved_at st bytes al r st' \<Longrightarrow> iova_inv st'"
  using candidateD [of al r]
  by (auto simp: reserved_at_def iova_inv_def Let_def mod_add_left_eq [symmetric] split: if_splits)

lemma allocate_iova_eq:
  assumes "0 < unat alignment" and "unat alignment \<le> 4292870144"
  obtains al where "unat al = eff_align alignment" "align_ok al"
    "allocate_iova st bytes alignment =
       allocate_loop (549753716736 div eff_align alignment) bytes al (round_up (next_iova st) al) st"
proof -
  note e = eff_align_word [OF assms]
  show ?thesis
    using that [OF e] align_okD(1) [OF e(2)]
    by (simp add: allocate_iova_def Let_def unat_div iova_consts e(1))
qed

section \<open>Excluded ranges\<close>

lemma exclude_loop_ok:
  "used_ok used \<Longrightarrow> slab_aligned nxt \<Longrightarrow>
   \<exists>n' u. exclude_loop nxt start used = Some (n', u) \<and> used_ok u \<and>
     (\<forall>j. slab_used used j \<longrightarrow> slab_used u j) \<and>
     (\<forall>j. unat nxt \<le> j * 2097152 \<and> j * 2097152 < min (unat start) 549753716736 \<longrightarrow> slab_used u j)"
proof (induction nxt start used rule: exclude_loop.induct)
  case (1 nxt start used)
  show ?case
  proof (cases "nxt < min start MAX_IOVA")
    case True
    note st = exclude_step [OF True]
    have idx: "unat (IOVA_IDX nxt) = unat nxt div 2097152" using IOVA_IDX_unat st(2) by simp
    then have lt: "unat (IOVA_IDX nxt) < 262144" using st(2) by simp
    obtain v where v: "set_bit_u32 used (IOVA_IDX nxt) = Some v" "used_ok v"
        "\<And>j. slab_used v j \<longleftrightarrow> j = unat (IOVA_IDX nxt) \<or> slab_used used j"
      using set_bit_ok [OF "1.prems"(1) lt] by blast
    have al: "slab_aligned (nxt + IOVA_SLAB_SIZE)" using "1.prems"(2) st(1) by simp
    obtain n' u where r: "exclude_loop (nxt + IOVA_SLAB_SIZE) start v = Some (n', u)" "used_ok u"
        "\<forall>j. slab_used v j \<longrightarrow> slab_used u j"
        "\<forall>j. unat nxt + 2097152 \<le> j * 2097152 \<and> j * 2097152 < min (unat start) 549753716736 \<longrightarrow> slab_used u j"
      using "1.IH" [OF True v(1) v(2) al] unfolding st(1) by blast
    have "slab_used u j" if j: "unat nxt \<le> j * 2097152" "j * 2097152 < min (unat start) 549753716736" for j
    proof (cases "unat nxt + 2097152 \<le> j * 2097152")
      case False
      moreover obtain k where k: "unat nxt = 2097152 * k" using "1.prems"(2) by auto
      ultimately have "j = unat nxt div 2097152" using j(1) by simp
      then show ?thesis using r(3) v(3) idx by simp
    qed (use r(4) j in blast)
    then show ?thesis using True v r(1,2,3) by (simp add: exclude_loop.simps [of nxt start used])
  next
    case False
    then have "\<not> (unat nxt < min (unat start) 549753716736)"
      by (simp add: word_less_nat_alt iova_consts min_def word_le_nat_alt split: if_splits)
    then show ?thesis using False "1.prems" by (auto simp: exclude_loop.simps [of nxt start used])
  qed
qed

text \<open>Ranges in increasing order, as the kernel reports them.\<close>

fun ranges_ok :: "(u64 \<times> u64) list \<Rightarrow> bool" where
  "ranges_ok [] = True"
| "ranges_ok ((start, stop) # ranges) =
     (start \<le> stop \<and> (\<forall>(s, e) \<in> set ranges. stop < s) \<and> ranges_ok ranges)"

definition inside :: "(u64 \<times> u64) list \<Rightarrow> nat \<Rightarrow> bool" where
  "inside ranges j \<longleftrightarrow>
     (\<exists>(s, e) \<in> set ranges. unat s \<le> j * 2097152 \<and> (j + 1) * 2097152 \<le> unat e + 1)"

lemma round_down_slab:
  assumes "unat n < 549753716736"
  defines "m \<equiv> (n + 1) AND NOT (IOVA_SLAB_SIZE - 1)"
  shows "slab_aligned m" and "unat m \<le> unat n + 1" and "unat n + 1 < unat m + 2097152"
proof -
  have s: "unat (n + 1) = unat n + 1" using assms(1) by (simp add: unat_word_ariths)
  have "IOVA_SLAB_SIZE - 1 = mask 21" by (simp add: IOVA_SLAB_SIZE_def mask_eq_exp_minus_1)
  then have "m = push_bit 21 (drop_bit 21 (n + 1))"
    by (simp only: m_def and_not_mask)
  then have "m + take_bit 21 (n + 1) = n + 1" by (simp only: bits_ident)
  then have "m = n + 1 - take_bit 21 (n + 1)" by (simp add: eq_diff_eq)
  moreover have "unat (take_bit 21 (n + 1)) = (unat n + 1) mod 2097152"
    by (simp only: unsigned_take_bit_eq s) (simp add: take_bit_eq_mod)
  moreover have "(unat n + 1) mod 2097152 \<le> unat n + 1" by (rule mod_less_eq_dividend)
  ultimately have m: "unat m = unat n + 1 - (unat n + 1) mod 2097152"
    by (simp add: unat_sub word_le_nat_alt s)
  show "slab_aligned m" unfolding m by (simp add: minus_mod_eq_mult_div)
  show "unat m \<le> unat n + 1" unfolding m by simp
  have "(unat n + 1) mod 2097152 < 2097152" by simp
  then show "unat n + 1 < unat m + 2097152" unfolding m by linarith
qed

lemma filter_range_ok:
  "used_ok used \<Longrightarrow> slab_aligned nxt \<Longrightarrow> ranges_ok ranges \<Longrightarrow>
   \<exists>n' u. filter_range nxt ranges used = Some (n', u) \<and> used_ok u \<and>
     (\<forall>j. slab_used used j \<longrightarrow> slab_used u j) \<and>
     (\<forall>j. unat nxt \<le> j * 2097152 \<and> j < 262143 \<and> (\<exists>(s, e) \<in> set ranges. j * 2097152 < unat s) \<longrightarrow>
        slab_used u j \<or> inside ranges j)"
proof (induction nxt ranges used rule: filter_range.induct)
  case (1 nxt used)
  then show ?case by simp
next
  case (2 nxt start stop ranges used)
  obtain n1 v where v: "exclude_loop nxt start used = Some (n1, v)" "used_ok v"
      "\<forall>j. slab_used used j \<longrightarrow> slab_used v j"
      "\<forall>j. unat nxt \<le> j * 2097152 \<and> j * 2097152 < min (unat start) 549753716736 \<longrightarrow> slab_used v j"
    using exclude_loop_ok [OF "2.prems"(1,2), of start] by blast
  have low: "slab_used v j \<or> unat start \<le> j * 2097152" if "unat nxt \<le> j * 2097152" "j < 262143" for j
    using v(4) that by (auto simp: not_le)
  show ?case
  proof (cases "stop \<ge> MAX_IOVA")
    case True
    then have "549753716736 \<le> unat stop" by (simp add: word_le_nat_alt iova_consts)
    then have "(j + 1) * 2097152 \<le> unat stop + 1" if "j < 262143" for j using that by simp
    then have "slab_used v j \<or> inside ((start, stop) # ranges) j"
      if "unat nxt \<le> j * 2097152" "j < 262143" for j using low that by (auto simp: inside_def)
    then show ?thesis using v(1,2,3) True by simp
  next
    case False
    then have lt: "unat stop < 549753716736" by (simp add: word_le_nat_alt iova_consts)
    let ?m = "(stop + 1) AND NOT (IOVA_SLAB_SIZE - 1)"
    note m = round_down_slab [OF lt]
    have ok: "ranges_ok ranges" using "2.prems"(3) by simp
    obtain n2 u where u: "filter_range ?m ranges v = Some (n2, u)" "used_ok u"
        "\<forall>j. slab_used v j \<longrightarrow> slab_used u j"
        "\<forall>j. unat ?m \<le> j * 2097152 \<and> j < 262143 \<and> (\<exists>(s, e) \<in> set ranges. j * 2097152 < unat s) \<longrightarrow>
           slab_used u j \<or> inside ranges j"
      using "2.IH" [OF v(1) _ False v(2) m(1) ok] by blast
    have "slab_used u j \<or> inside ((start, stop) # ranges) j"
      if j: "unat nxt \<le> j * 2097152" "j < 262143"
        and ex: "\<exists>(s, e) \<in> set ((start, stop) # ranges). j * 2097152 < unat s" for j
    proof (cases "slab_used v j")
      case False
      with low j have ge: "unat start \<le> j * 2097152" by blast
      then have ex': "\<exists>(s, e) \<in> set ranges. j * 2097152 < unat s" using ex by auto
      show ?thesis
      proof (cases "unat ?m \<le> j * 2097152")
        case True
        then show ?thesis using u(4) j(2) ex' by (auto simp: inside_def)
      next
        case below: False
        obtain k where "unat ?m = 2097152 * k" using m(1) by auto
        with below have "(j + 1) * 2097152 \<le> unat ?m" by simp
        with m(2) ge show ?thesis by (auto simp: inside_def)
      qed
    qed (use u(3) in blast)
    then show ?thesis using v(1,3) u(1,2,3) False by simp
  qed
qed

lemma allocate_iova_cases:
  assumes inv: "iova_inv st" and nz: "bytes \<noteq> 0"
    and al: "0 < unat alignment" "unat alignment \<le> 4292870144"
  obtains (hit) a r st' where "unat a = eff_align alignment" "align_ok a" "r \<noteq> 0"
      "allocate_iova st bytes alignment = Some (r, st')" "reserved_at st bytes a r st'"
  | (miss) a where "unat a = eff_align alignment" "align_ok a"
      "allocate_iova st bytes alignment = Some (0, st)"
      "\<forall>j < 549753716736 div unat a.
         \<not> can_reserve (iova_used st) ((next_candidate a ^^ j) (round_up (next_iova st) a)) bytes"
proof -
  obtain a where a: "unat a = eff_align alignment" "align_ok a"
    and eq: "allocate_iova st bytes alignment =
       allocate_loop (549753716736 div eff_align alignment) bytes a (round_up (next_iova st) a) st"
    using allocate_iova_eq [OF al] by blast
  have ok: "used_ok (iova_used st)" using inv by (simp add: iova_inv_def)
  from allocate_loop_spec [OF ok a(2) first_candidate_word(2) [OF inv a(2)] nz,
      of "549753716736 div eff_align alignment"]
  show ?thesis
    using hit [OF a] miss [OF a] candidateD(4) [OF a(2)] unfolding eq a(1)
    by (auto simp: reserved_at_def)
qed

lemma release_ok:
  assumes "used_ok used" and "slab_aligned iova" and "bytes \<noteq> 0"
    and "unat iova + unat bytes \<le> 549755813888" and "unat bytes \<le> 4292870144"
  shows "\<exists>u. iova_release used iova bytes = Some u \<and> used_ok u \<and>
           (\<forall>j. slab_used u j \<longleftrightarrow> \<not> in_slabs iova bytes j \<and> slab_used used j)"
proof -
  have lt: "unat iova < 549755813888" using assms(3,4) unat_gt_0 [of bytes] by linarith
  have s: "unat (IOVA_IDX iova) = unat iova div 2097152" by (rule IOVA_IDX_unat [OF lt])
  have "unat (IOVA_IDX iova) + slabs bytes \<le> 262144" using slabs_bound [OF assms(2,4)] s by simp
  from release_loop_ok [OF assms(1) this]
  show ?thesis unfolding iova_release_def release_slabs [OF assms(5)] in_slabs_def s by blast
qed

lemma iova_init_inv: "iova_inv iova_init"
  by (simp add: iova_inv_def iova_init_def iova_consts)

lemma iova_init_free: "\<not> slab_used (iova_used iova_init) j" if "j < 262144"
  using that by (simp add: slab_used_def iova_init_def iova_consts nth_replicate)

lemma cyclic_reach:
  assumes "1 \<le> q0" "q0 \<le> N" "1 \<le> q" "q \<le> (N :: nat)"
  obtains j where "j < N" "(q0 - 1 + j) mod N + 1 = q"
proof
  show "(q + N - q0) mod N < N" using assms by simp
  have "(q0 - 1 + (q + N - q0) mod N) mod N = (q0 - 1 + (q + N - q0)) mod N" by (rule mod_add_right_eq)
  also have "q0 - 1 + (q + N - q0) = q - 1 + N" using assms by linarith
  also have "(q - 1 + N) mod N = q - 1" using assms by (simp only: mod_add_self2) simp
  finally show "(q0 - 1 + (q + N - q0) mod N) mod N + 1 = q" using assms by linarith
qed

lemma can_reserve_below:
  assumes "align_ok al" and "unat al dvd unat iova" and "bytes \<noteq> 0" and "can_reserve used iova bytes"
  shows "unat iova \<le> 549753716736"
proof -
  have "unat iova < 549755813888" using assms(3,4) unat_gt_0 [of bytes] by (auto simp: can_reserve_def)
  moreover obtain k where "unat iova = 2097152 * k" using align_okD(4) [OF assms(1,2)] by auto
  ultimately show ?thesis by simp
qed

lemma allocate_miss_all:
  assumes inv: "iova_inv st" and nz: "bytes \<noteq> 0" and al: "align_ok al"
    and first: "unat (round_up (next_iova st) al) \<le> 549753716736"
    and miss: "\<forall>j < 549753716736 div unat al.
      \<not> can_reserve (iova_used st) ((next_candidate al ^^ j) (round_up (next_iova st) al)) bytes"
    and iova: "unat al dvd unat iova" "0 < unat iova"
  shows "\<not> can_reserve (iova_used st) iova bytes"
proof
  assume can: "can_reserve (iova_used st) iova bytes"
  let ?N = "549753716736 div unat al"
  have mult: "1 \<le> n div unat al \<and> n div unat al \<le> ?N"
    if "unat al dvd n" "0 < n" "n \<le> 549753716736" for n
    using that by (auto simp: div_le_mono Suc_le_eq div_greater_zero_iff dvd_imp_le align_okD [OF al] intro!: Nat.gr0I)
  note c = first_candidate_word(2) [OF inv al]
  define q0 q where "q0 = unat (round_up (next_iova st) al) div unat al" and "q = unat iova div unat al"
  have q0: "1 \<le> q0" "q0 \<le> ?N" "unat (round_up (next_iova st) al) = q0 * unat al"
    using mult [of "unat (round_up (next_iova st) al)"] c first candidateD(1) [OF al c]
    by (auto simp: q0_def candidate_def)
  have q: "1 \<le> q" "q \<le> ?N" "unat iova = q * unat al"
    using mult [of "unat iova"] iova can_reserve_below [OF al iova(1) nz can] by (auto simp: q_def)
  obtain j where j: "j < ?N" "(q0 - 1 + j) mod ?N + 1 = q"
    using cyclic_reach [OF q0(1,2) q(1,2)] by blast
  have "unat ((next_candidate al ^^ j) (round_up (next_iova st) al)) = unat iova"
    unfolding candidates_cyclic [OF al q0] j(2) q(3) by (rule refl)
  then have "(next_candidate al ^^ j) (round_up (next_iova st) al) = iova" by (simp only: word_unat_eq_iff)
  with miss [rule_format, OF j(1)] can show False by simp
qed

section \<open>Two states\<close>

definition full_iova :: iova_state where
  "full_iova = \<lparr>iova_used = replicate 8192 (- 1), next_iova = FIRST_IOVA\<rparr>"

lemma full_iova_inv: "iova_inv full_iova"
  by (simp add: full_iova_def iova_inv_def iova_consts)

lemma full_iova_used: "j < 262144 \<Longrightarrow> slab_used (iova_used full_iova) j"
  by (simp add: slab_used_def full_iova_def)

lemma full_iova_fails: "allocate_iova full_iova 0x200000 0x1000 = Some (0, full_iova)"
proof (cases rule: allocate_iova_cases [OF full_iova_inv, of "0x200000" "0x1000", case_names nz lo hi hit miss])
  case (hit a r st')
  then have "unat r + 2097152 \<le> 549755813888" "range_free (iova_used full_iova) (unat r div 2097152) 1"
    by (simp_all add: reserved_at_def can_reserve_def slabs_def)
  then have "unat r div 2097152 < 262144" "\<not> slab_used (iova_used full_iova) (unat r div 2097152)"
    by (auto simp: range_free_def)
  then show ?thesis using full_iova_used by blast
qed simp_all

lemma iova_init_alloc:
  obtains r st' where "allocate_iova iova_init 0x400000 0x1000 = Some (r, st')" "r \<noteq> 0"
proof (cases rule: allocate_iova_cases [OF iova_init_inv, of "0x400000" "0x1000", case_names nz lo hi hit miss])
  case (miss a)
  have "eff_align 0x1000 = 2097152" by (simp add: eff_align_def)
  with miss have a: "unat a = 2097152" by simp
  have "unat (round_up (next_iova iova_init) a) = 2097152"
    using first_candidate_word(1) [OF iova_init_inv miss(2)] by (simp add: a iova_init_def iova_consts)
  then have "can_reserve (iova_used iova_init) (round_up (next_iova iova_init) a) 0x400000"
    by (auto simp: can_reserve_def range_free_def slabs_def iova_init_free)
  then show ?thesis using miss(4) [rule_format, of 0] a by simp
qed (use that in simp_all)

section \<open>Properties\<close>

text \<open>C13. Allocating I/O addresses never leaves the bitmap, and gives either 0 with the state
  unchanged, or an address that is a multiple of the alignment rounded up to whole slabs, inside the
  39 bit space and not null, whose slabs were all free; exactly these slabs become used and the
  invariant of the allocator is kept.\<close>

theorem allocate_iova_spec:
  assumes inv: "iova_inv st" and nz: "bytes \<noteq> 0"
    and al: "0 < unat alignment" "unat alignment \<le> 4292870144"
  shows "\<exists>r st'. allocate_iova st bytes alignment = Some (r, st') \<and> iova_inv st' \<and>
    (r = 0 \<longrightarrow> st' = st) \<and>
    (r \<noteq> 0 \<longrightarrow> eff_align alignment dvd unat r \<and> unat r + unat bytes \<le> 2 ^ IOVA_BITS \<and>
       range_free (iova_used st) (unat r div 2 ^ SLAB_BITS) (slabs bytes) \<and>
       (\<forall>j. slab_used (iova_used st') j \<longleftrightarrow> in_slabs r bytes j \<or> slab_used (iova_used st) j))"
proof (cases rule: allocate_iova_cases [OF inv nz al, case_names hit miss])
  case (hit a r st')
  then show ?thesis
    using reserved_at_inv [OF hit(2,5)] by (auto simp: reserved_at_def can_reserve_def candidate_def)
qed (use inv in auto)

theorem allocate_iova_spec_witness:
  "\<exists>r st'. allocate_iova iova_init 0x400000 0x1000 = Some (r, st') \<and> iova_inv st'"
  using allocate_iova_spec [OF iova_init_inv, of "0x400000" "0x1000"] by auto

text \<open>C20. The search is complete when its first candidate lies inside the address space: it fails
  only if no aligned range of enough free slabs exists anywhere.\<close>

theorem allocate_iova_complete:
  fixes iova :: u64
  assumes inv: "iova_inv st" and nz: "bytes \<noteq> 0"
    and al: "0 < unat alignment" "unat alignment \<le> 4292870144"
    and first: "first_candidate st alignment \<le> unat MAX_IOVA"
    and fail: "allocate_iova st bytes alignment = Some (0, st')"
    and iova: "eff_align alignment dvd unat iova" "0 < unat iova"
  shows "\<not> (unat iova + unat bytes \<le> 2 ^ IOVA_BITS \<and>
             range_free (iova_used st) (unat iova div 2 ^ SLAB_BITS) (slabs bytes))"
proof (cases rule: allocate_iova_cases [OF inv nz al, case_names hit miss])
  case (miss a)
  have "unat (round_up (next_iova st) a) \<le> 549753716736"
    using first unfolding first_candidate_def miss(1) [symmetric] first_candidate_word(1) [OF inv miss(2)]
    by (simp add: iova_consts)
  from allocate_miss_all [OF inv nz miss(2) this miss(4), of iova] iova
  show ?thesis by (simp add: miss(1) can_reserve_def)
qed (use fail in simp)

theorem allocate_iova_complete_witness:
  "\<not> (unat (0x400000 :: u64) + unat (0x200000 :: u32) \<le> 2 ^ IOVA_BITS \<and>
       range_free (iova_used full_iova) (unat (0x400000 :: u64) div 2 ^ SLAB_BITS) (slabs 0x200000))"
proof (rule allocate_iova_complete [OF full_iova_inv _ _ _ _ full_iova_fails])
  show "first_candidate full_iova 0x1000 \<le> unat MAX_IOVA"
    by (simp add: first_candidate_def eff_align_def full_iova_def iova_consts)
qed (simp_all add: eff_align_def)

text \<open>Releasing an allocated range gives back exactly its slabs: allocate followed by release
  restores the bitmap word for word.\<close>

lemma allocate_release:
  assumes inv: "iova_inv st" and nz: "bytes \<noteq> 0" "unat bytes \<le> 4292870144"
    and al: "0 < unat alignment" "unat alignment \<le> 4292870144"
    and ok: "allocate_iova st bytes alignment = Some (r, st')" "r \<noteq> 0"
  shows "iova_release (iova_used st') r bytes = Some (iova_used st)"
proof -
  have u: "used_ok (iova_used st)" using inv by (simp add: iova_inv_def)
  obtain a where a: "align_ok a" and res: "reserved_at st bytes a r st'"
    using allocate_iova_cases [OF inv nz(1) al] ok by (metis Pair_inject option.inject)
  from res have bits: "\<And>j. slab_used (iova_used st') j \<longleftrightarrow> in_slabs r bytes j \<or> slab_used (iova_used st) j"
    and can: "can_reserve (iova_used st) r bytes" and u': "used_ok (iova_used st')"
    by (auto simp: reserved_at_def)
  have al': "slab_aligned r" using candidateD(3) [OF a] res by (simp add: reserved_at_def)
  have le: "unat r + unat bytes \<le> 549755813888" using can by (simp add: can_reserve_def)
  obtain v where v: "iova_release (iova_used st') r bytes = Some v" "used_ok v"
      "\<And>j. slab_used v j \<longleftrightarrow> \<not> in_slabs r bytes j \<and> slab_used (iova_used st') j"
    using release_ok [OF u' al' nz(1) le nz(2)] by blast
  have "v = iova_used st"
  proof (rule used_eqI)
    fix j show "slab_used v j = slab_used (iova_used st) j"
      using can unfolding v(3) bits can_reserve_def range_free_def in_slabs_def by blast
  qed (simp add: v(2) u)
  with v(1) show ?thesis by simp
qed



end
