(* ===== verification/Usdm_Page_Table.thy ===== *)
theory Usdm_Page_Table
  imports Qat_Prelude
begin

text \<open>
  The user-space page table that translates virtual to physical addresses
  (\<open>qae_page_table_common.h\<close>): a trie with 512 entries per level, five levels for 4 KB pages and
  four for 2 MB pages.  The union of the source, a physical address or a pointer to the next
  level, is a datatype.  Levels are allocated by \<open>mmap\<close>: whether the \<open>k\<close>-th call succeeds is the
  parameter \<open>ok\<close>, and the number of calls made so far is passed through.
\<close>

type_synonym pidx = "9 word"

datatype page_table = Leaf "pidx \<Rightarrow> u64" | Node "pidx \<Rightarrow> page_table option"

abbreviation PAGE_SIZE :: nat where "PAGE_SIZE \<equiv> 4096"
abbreviation HUGEPAGE_SIZE :: nat where "HUGEPAGE_SIZE \<equiv> 2097152"

definition QAE_PAGE_MASK :: u64 where "QAE_PAGE_MASK = NOT (of_nat PAGE_SIZE - 1)"
definition HUGEPAGE_MASK :: u64 where "HUGEPAGE_MASK = NOT (of_nat HUGEPAGE_SIZE - 1)"

text \<open>The bit fields of \<open>page_index_t\<close>, from the root index down to the last level.\<close>

definition page_idx :: "nat \<Rightarrow> u64 \<Rightarrow> pidx" where
  "page_idx sh addr = ucast (drop_bit sh addr)"

definition pg_entry :: "u64 \<Rightarrow> pidx list" where
  "pg_entry addr = map (\<lambda>sh. page_idx sh addr) [48, 39, 30, 21, 12]"

definition hpg_entry :: "u64 \<Rightarrow> pidx list" where
  "hpg_entry addr = map (\<lambda>sh. page_idx sh addr) [48, 39, 30, 21]"

text \<open>A zero-filled level, with \<open>n\<close> levels below it.\<close>

fun zero_level :: "nat \<Rightarrow> page_table" where
  "zero_level 0 = Leaf (\<lambda>_. 0)"
| "zero_level (Suc n) = Node (\<lambda>_. None)"

definition next_level :: "(nat \<Rightarrow> bool) \<Rightarrow> nat \<Rightarrow> nat \<Rightarrow> page_table option \<Rightarrow> page_table option \<times> nat" where
  "next_level ok n k ptr =
     (case ptr of
        Some old \<Rightarrow> (Some old, k)
      | None \<Rightarrow> if ok k then (Some (zero_level n), Suc k) else (None, Suc k))"

text \<open>
  \<open>store_addr\<close> and \<open>store_addr_hpg\<close> walk down the levels and differ only in the indices; the
  fall-through cases never arise on tables of the right depth.
\<close>

fun store_path :: "(nat \<Rightarrow> bool) \<Rightarrow> pidx list \<Rightarrow> u64 \<Rightarrow> page_table \<Rightarrow> nat \<Rightarrow> page_table \<times> nat" where
  "store_path ok [i] phys (Leaf f) k = (Leaf (f(i := phys)), k)"
| "store_path ok (i # is) phys (Node f) k =
     (case next_level ok (length is - 1) k (f i) of
        (None, k') \<Rightarrow> (Node f, k')
      | (Some level, k') \<Rightarrow>
          let (level', k'') = store_path ok is phys level k'
          in (Node (f(i := Some level')), k''))"
| "store_path ok is phys level k = (level, k)"

definition store_addr :: "(nat \<Rightarrow> bool) \<Rightarrow> u64 \<Rightarrow> u64 \<Rightarrow> page_table \<Rightarrow> nat \<Rightarrow> page_table \<times> nat" where
  "store_addr ok virt phys = store_path ok (pg_entry virt) phys"

definition store_addr_hpg :: "(nat \<Rightarrow> bool) \<Rightarrow> u64 \<Rightarrow> u64 \<Rightarrow> page_table \<Rightarrow> nat \<Rightarrow> page_table \<times> nat" where
  "store_addr_hpg ok virt phys = store_path ok (hpg_entry virt) phys"

definition get_key :: "u64 \<Rightarrow> u64" where
  "get_key phys = drop_bit 20 phys AND NOT QAE_PAGE_MASK"

function store_loop ::
  "(nat \<Rightarrow> bool) \<Rightarrow> bool \<Rightarrow> u64 \<Rightarrow> u64 \<Rightarrow> nat \<Rightarrow> nat \<Rightarrow> page_table \<Rightarrow> nat \<Rightarrow> page_table \<times> nat" where
  "store_loop ok hp virt phys offset bytes t k =
     (if offset < bytes
      then let (t', k') = (if hp then store_addr_hpg else store_addr) ok
                            (virt + of_nat offset) (phys + of_nat offset) t k
           in store_loop ok hp virt phys
                (offset + (if hp then HUGEPAGE_SIZE else PAGE_SIZE)) bytes t' k'
      else (t, k))"
  by pat_completeness auto

termination store_loop
  by (relation "measure (\<lambda>(ok, hp, virt, phys, offset, bytes, t, k). bytes - offset)") auto

declare store_loop.simps [simp del]

definition store_mmap_range ::
  "(nat \<Rightarrow> bool) \<Rightarrow> u64 \<Rightarrow> u64 \<Rightarrow> u64 \<Rightarrow> bool \<Rightarrow> page_table \<Rightarrow> nat \<Rightarrow> page_table \<times> nat" where
  "store_mmap_range ok virt phys bytes hp_en t k =
     (let page_mask = if hp_en then HUGEPAGE_MASK else QAE_PAGE_MASK;
          phys' = (phys AND page_mask) OR get_key phys
      in store_loop ok hp_en virt phys' 0 (unat bytes) t k)"

text \<open>Walking down: \<open>None\<close> when a level is missing.\<close>

fun load_path :: "pidx list \<Rightarrow> page_table \<Rightarrow> u64 option" where
  "load_path [i] (Leaf f) = Some (f i)"
| "load_path (i # is) (Node f) = (case f i of None \<Rightarrow> None | Some level \<Rightarrow> load_path is level)"
| "load_path is level = None"

definition load_addr :: "page_table \<Rightarrow> u64 \<Rightarrow> u64" where
  "load_addr t virt =
     (case load_path (pg_entry virt) t of
        None \<Rightarrow> 0
      | Some phy_addr \<Rightarrow> (phy_addr AND QAE_PAGE_MASK) OR take_bit 12 virt)"

definition load_addr_hpg :: "page_table \<Rightarrow> u64 \<Rightarrow> u64" where
  "load_addr_hpg t virt =
     (case load_path (hpg_entry virt) t of
        None \<Rightarrow> 0
      | Some phy_addr \<Rightarrow> (phy_addr AND HUGEPAGE_MASK) OR take_bit 21 virt)"

definition load_key :: "page_table \<Rightarrow> u64 \<Rightarrow> u64" where
  "load_key t virt =
     (case load_path (pg_entry virt) t of
        None \<Rightarrow> 0
      | Some phy_addr \<Rightarrow> phy_addr AND NOT QAE_PAGE_MASK)"

text \<open>
  \<open>free_page_level\<close> visits every entry down to \<open>iter\<close> levels and unmaps the level below it; the
  result is the number of \<open>munmap\<close> calls.
\<close>

definition all_idx :: "pidx list" where
  "all_idx = map of_nat [0..<512]"

fun free_page_level :: "nat \<Rightarrow> page_table \<Rightarrow> nat" where
  "free_page_level (Suc n) (Node f) =
     (\<Sum>i\<leftarrow>all_idx. case f i of None \<Rightarrow> 0 | Some pt \<Rightarrow> Suc (free_page_level n pt))"
| "free_page_level n level = 0"

definition free_page_table :: "page_table \<Rightarrow> page_table \<times> nat" where
  "free_page_table t = (zero_level 4, free_page_level 4 t)"

section \<open>One entry\<close>

fun depth_ok :: "nat \<Rightarrow> page_table \<Rightarrow> bool" where
  "depth_ok 0 (Leaf f) = True"
| "depth_ok (Suc n) (Node f) = (\<forall>i t. f i = Some t \<longrightarrow> depth_ok n t)"
| "depth_ok n t = False"

text \<open>What the entry holds, a missing level reading as zero.\<close>

definition entry :: "pidx list \<Rightarrow> page_table \<Rightarrow> u64" where
  "entry is t = (case load_path is t of None \<Rightarrow> 0 | Some v \<Rightarrow> v)"

lemma depth_ok_zero [simp]: "depth_ok n (zero_level n)"
  by (cases n) simp_all

lemma depth_ok_0: "depth_ok 0 t \<longleftrightarrow> (\<exists>f. t = Leaf f)"
  by (cases t) simp_all

lemma depth_ok_Suc:
  "depth_ok (Suc n) t \<longleftrightarrow> (\<exists>f. t = Node f \<and> (\<forall>i u. f i = Some u \<longrightarrow> depth_ok n u))"
  by (cases t) simp_all

lemma store_path_node:
  "length is = Suc n \<Longrightarrow> store_path ok (i # is) phys (Node f) k =
     (case next_level ok n k (f i) of
        (None, k') \<Rightarrow> (Node f, k')
      | (Some level, k') \<Rightarrow>
          (Node (f(i := Some (fst (store_path ok is phys level k')))),
           snd (store_path ok is phys level k')))"
  by (cases "is") (auto simp: split_def Let_def split: option.split prod.split)

lemma load_path_node:
  "length is = Suc n \<Longrightarrow> load_path (i # is) (Node f) =
     (case f i of None \<Rightarrow> None | Some level \<Rightarrow> load_path is level)"
  by (cases "is") (auto split: option.split)

lemma entry_node:
  "length is = Suc n \<Longrightarrow>
   entry (i # is) (Node f) = (case f i of None \<Rightarrow> 0 | Some level \<Rightarrow> entry is level)"
  by (auto simp: entry_def load_path_node split: option.split)

declare store_path.simps(2) [simp del] load_path.simps(2) [simp del]

lemma entry_zero: "length is = Suc n \<Longrightarrow> entry is (zero_level n) = 0"
  by (cases n) (auto simp: length_Suc_conv entry_def load_path_node)

text \<open>The step from a table with \<open>Suc n\<close> levels below it to its children.\<close>

lemma depth_ok_step:
  assumes "depth_ok (Suc n) t" and "length is = Suc (Suc n)"
  obtains i js f where "is = i # js" "length js = Suc n" "t = Node f"
    "\<And>i u. f i = Some u \<Longrightarrow> depth_ok n u"
  using assms by (auto simp: depth_ok_Suc length_Suc_conv)

lemma store_path_depth:
  "depth_ok n t \<Longrightarrow> length is = Suc n \<Longrightarrow> depth_ok n (fst (store_path ok is phys t k))"
proof (induction n arbitrary: t "is" k)
  case (Suc n)
  obtain i js f where is_eq: "is = i # js" and js: "length js = Suc n" and t: "t = Node f"
    and f: "\<And>i u. f i = Some u \<Longrightarrow> depth_ok n u"
    using depth_ok_step [OF Suc.prems] by blast
  show ?case unfolding is_eq t store_path_node [OF js]
    using f Suc.IH [OF _ js] by (auto simp: next_level_def split: option.split)
qed (auto simp: depth_ok_0 length_Suc_conv)

lemma store_path_same:
  "depth_ok n t \<Longrightarrow> length is = Suc n \<Longrightarrow>
   load_path is (fst (store_path (\<lambda>_. True) is phys t k)) = Some phys"
proof (induction n arbitrary: t "is" k)
  case (Suc n)
  obtain i js f where is_eq: "is = i # js" and js: "length js = Suc n" and t: "t = Node f"
    and f: "\<And>i u. f i = Some u \<Longrightarrow> depth_ok n u"
    using depth_ok_step [OF Suc.prems] by blast
  show ?case unfolding is_eq t store_path_node [OF js]
    using f Suc.IH [OF _ js]
    by (auto simp: next_level_def load_path_node [OF js] split: option.split)
qed (auto simp: depth_ok_0 length_Suc_conv)

lemma store_path_other:
  "depth_ok n t \<Longrightarrow> length is = Suc n \<Longrightarrow> length ps = Suc n \<Longrightarrow> is \<noteq> ps \<Longrightarrow>
   entry ps (fst (store_path ok is phys t k)) = entry ps t"
proof (induction n arbitrary: t "is" ps k)
  case 0
  then show ?case by (auto simp: depth_ok_0 length_Suc_conv entry_def split: if_splits)
next
  case (Suc n)
  obtain i js f where is_eq: "is = i # js" and js: "length js = Suc n" and t: "t = Node f"
    and f: "\<And>i u. f i = Some u \<Longrightarrow> depth_ok n u"
    using depth_ok_step [OF Suc.prems(1,2)] by blast
  obtain p qs where ps: "ps = p # qs" and qs: "length qs = Suc n" using Suc.prems(3) by (cases ps) auto
  have "entry qs (fst (store_path ok js phys u k')) = entry qs u" if "p = i" "depth_ok n u" for u k'
    using Suc.IH [OF that(2) js qs] that(1) Suc.prems(4) by (simp add: is_eq ps)
  then show ?case unfolding is_eq t ps store_path_node [OF js]
    using f by (auto simp: next_level_def entry_node [OF qs] entry_zero [OF qs] split: option.split)
qed

section \<open>Ranges\<close>

lemma page_idx_bit: "j < 9 \<Longrightarrow> bit (page_idx sh a) j = bit a (sh + j)"
  by (simp add: page_idx_def bit_simps)

lemma high_bits_zero:
  assumes "unat (a :: u64) < 2 ^ n" and "n \<le> i"
  shows "\<not> bit a i"
proof
  assume "bit a i"
  then have "bit (unat a) i" by (simp add: bit_unsigned_iff)
  moreover have "unat a < 2 ^ i" using assms by (meson less_le_trans one_le_numeral power_increasing)
  ultimately show False by (simp add: bit_iff_odd)
qed

lemma pg_entry_inj:
  assumes eq: "pg_entry a = pg_entry b" and "unat a < 2 ^ 57" and "unat b < 2 ^ 57"
  shows "drop_bit 12 a = drop_bit 12 b"
proof (rule bit_word_eqI)
  fix j assume "j < LENGTH(64)"
  have fld: "bit a (sh + k) = bit b (sh + k)" if "sh \<in> {48, 39, 30, 21, 12}" "k < 9" for sh k
    using that eq page_idx_bit [of k sh a] page_idx_bit [of k sh b] by (auto simp: pg_entry_def)
  have "bit a (12 + j) = bit b (12 + j)"
  proof (cases "j < 45")
    case True
    then have "j div 9 < 5" by (simp add: less_mult_imp_div_less)
    then have "j div 9 = 0 \<or> j div 9 = 1 \<or> j div 9 = 2 \<or> j div 9 = 3 \<or> j div 9 = 4" by linarith
    then have "12 + 9 * (j div 9) \<in> {48, 39, 30, 21, 12}" by (elim disjE) simp_all
    from fld [OF this, of "j mod 9"] show ?thesis by (simp add: add.assoc)
  next
    case False
    then have "57 \<le> 12 + j" by simp
    then show ?thesis using high_bits_zero [OF assms(2)] high_bits_zero [OF assms(3)] by blast
  qed
  then show "bit (drop_bit 12 a) j = bit (drop_bit 12 b) j" by (simp add: bit_simps)
qed

lemma pg_entry_cong:
  assumes "drop_bit 12 a = drop_bit 12 b"
  shows "pg_entry a = pg_entry b"
proof -
  have "page_idx (n + 12) x = ucast (drop_bit n (drop_bit 12 x))" for n x
    by (simp add: page_idx_def)
  then have "page_idx (n + 12) a = page_idx (n + 12) b" for n
    by (simp only: assms)
  from this [of 36] this [of 27] this [of 18] this [of 9] this [of 0]
  show ?thesis by (simp add: pg_entry_def)
qed

lemma length_pg_entry [simp]: "length (pg_entry a) = Suc 4"
  by (simp add: pg_entry_def)

lemma unat_offset: "unat virt + m < 2 ^ 64 \<Longrightarrow> unat (virt + of_nat m :: u64) = unat virt + m"
  by (simp add: unat_word_ariths unat_of_nat)

lemma page_number: "unat (drop_bit 12 (a :: u64)) = unat a div 4096"
proof -
  have "unat (2 ^ 12 :: u64) = 4096" by simp
  then show ?thesis by (simp only: drop_bit_eq_div unat_div)
qed

text \<open>Two page-aligned offsets in a range that name the same page are equal.\<close>

lemma same_page:
  assumes "unat virt + m < 2 ^ 57" and "unat virt + m' < 2 ^ 57" and "4096 dvd m" and "4096 dvd m'"
    and "drop_bit 12 (virt + of_nat m :: u64) = drop_bit 12 (virt + of_nat m')"
  shows "m = m'"
proof -
  have "unat (virt + of_nat m) = unat virt + m" "unat (virt + of_nat m') = unat virt + m'"
    using assms(1,2) by (auto intro!: unat_offset)
  then have "(unat virt + m) div 4096 = (unat virt + m') div 4096"
    using arg_cong [OF assms(5), of unat] by (simp add: page_number)
  then show ?thesis using assms(3,4) by (auto simp: dvd_def)
qed

definition in_pages :: "u64 \<Rightarrow> nat \<Rightarrow> nat \<Rightarrow> u64 \<Rightarrow> bool" where
  "in_pages virt offset bytes x \<longleftrightarrow>
     (\<exists>m. offset \<le> m \<and> m < bytes \<and> 4096 dvd m \<and> drop_bit 12 x = drop_bit 12 (virt + of_nat m))"

lemma next_page:
  assumes "4096 dvd a" and "4096 dvd m" and "a \<le> m" and "m \<noteq> a"
  shows "a + 4096 \<le> (m :: nat)"
proof -
  obtain k l where "a = 4096 * k" "m = 4096 * l" using assms(1,2) by (auto elim!: dvdE)
  with assms(3,4) show ?thesis by simp
qed

lemma in_pages_step:
  assumes "offset < bytes" and "4096 dvd offset"
  shows "in_pages virt offset bytes x \<longleftrightarrow>
    drop_bit 12 x = drop_bit 12 (virt + of_nat offset) \<or> in_pages virt (offset + 4096) bytes x"
proof
  assume "in_pages virt offset bytes x"
  then obtain m where m: "offset \<le> m" "m < bytes" "4096 dvd m"
      "drop_bit 12 x = drop_bit 12 (virt + of_nat m)" by (auto simp: in_pages_def)
  then show "drop_bit 12 x = drop_bit 12 (virt + of_nat offset) \<or> in_pages virt (offset + 4096) bytes x"
    using next_page [OF assms(2) m(3,1)] unfolding in_pages_def by blast
next
  assume "drop_bit 12 x = drop_bit 12 (virt + of_nat offset) \<or> in_pages virt (offset + 4096) bytes x"
  then show "in_pages virt offset bytes x"
    unfolding in_pages_def using assms by (meson add_leD1 order_refl)
qed

lemma store_loop_ok:
  "depth_ok 4 t \<Longrightarrow> 4096 dvd offset \<Longrightarrow> unat virt + bytes \<le> 2 ^ 57 \<Longrightarrow>
   depth_ok 4 (fst (store_loop (\<lambda>_. True) False virt phys offset bytes t k)) \<and>
   (\<forall>m. offset \<le> m \<and> m < bytes \<and> 4096 dvd m \<longrightarrow>
      entry (pg_entry (virt + of_nat m))
        (fst (store_loop (\<lambda>_. True) False virt phys offset bytes t k)) = phys + of_nat m) \<and>
   (\<forall>x. unat x < 2 ^ 57 \<and> \<not> in_pages virt offset bytes x \<longrightarrow>
      entry (pg_entry x) (fst (store_loop (\<lambda>_. True) False virt phys offset bytes t k)) =
      entry (pg_entry x) t)"
proof (induction "bytes - offset" arbitrary: offset t k rule: less_induct)
  case less
  let ?run = "\<lambda>o' t k. fst (store_loop (\<lambda>_. True) False virt phys o' bytes t k)"
  show ?case
  proof (cases "offset < bytes")
    case False
    then show ?thesis using less.prems by (auto simp: store_loop.simps [of _ _ _ _ offset])
  next
    case True
    define t1 k1 where "t1 = fst (store_addr (\<lambda>_. True) (virt + of_nat offset) (phys + of_nat offset) t k)"
      and "k1 = snd (store_addr (\<lambda>_. True) (virt + of_nat offset) (phys + of_nat offset) t k)"
    have run: "?run offset t k = ?run (offset + 4096) t1 k1"
      using True by (simp add: store_loop.simps [of _ _ _ _ offset] t1_def k1_def split_def Let_def)
    let ?here = "virt + of_nat offset"
    have d1: "depth_ok 4 t1"
      unfolding t1_def store_addr_def by (rule store_path_depth [OF less.prems(1)]) simp
    have here: "entry (pg_entry ?here) t1 = phys + of_nat offset"
      unfolding t1_def store_addr_def entry_def
      by (subst store_path_same [OF less.prems(1)]) simp_all
    have other: "entry (pg_entry x) t1 = entry (pg_entry x) t"
      if "pg_entry ?here \<noteq> pg_entry x" for x
      unfolding t1_def store_addr_def
      by (rule store_path_other [OF less.prems(1) _ _ that]) simp_all
    have dec: "bytes - (offset + 4096) < bytes - offset" using True by simp
    have dvd: "4096 dvd offset + 4096" using less.prems(2) by simp
    note IH = less.hyps [OF dec d1 dvd less.prems(3), of k1]
    have lim: "unat virt + offset < 2 ^ 57" using True less.prems(3) by linarith
    then have uh: "unat ?here = unat virt + offset" by (intro unat_offset) simp
    have not_here: "\<not> in_pages virt (offset + 4096) bytes ?here"
    proof
      assume "in_pages virt (offset + 4096) bytes ?here"
      then obtain m where m: "offset + 4096 \<le> m" "m < bytes" "4096 dvd m"
          "drop_bit 12 (virt + of_nat m) = drop_bit 12 ?here" by (auto simp: in_pages_def)
      have "unat virt + m < 2 ^ 57" using m(2) less.prems(3) by linarith
      from same_page [OF this lim m(3) less.prems(2) m(4)] m(1) show False by simp
    qed
    have more: "in_pages virt offset bytes x \<longleftrightarrow>
        drop_bit 12 x = drop_bit 12 ?here \<or> in_pages virt (offset + 4096) bytes x" for x
      by (rule in_pages_step [OF True less.prems(2)])
    have ih: "depth_ok 4 (?run offset t k)"
      "\<And>m. offset + 4096 \<le> m \<Longrightarrow> m < bytes \<Longrightarrow> 4096 dvd m \<Longrightarrow>
         entry (pg_entry (virt + of_nat m)) (?run offset t k) = phys + of_nat m"
      "\<And>x. unat x < 2 ^ 57 \<Longrightarrow> \<not> in_pages virt (offset + 4096) bytes x \<Longrightarrow>
         entry (pg_entry x) (?run offset t k) = entry (pg_entry x) t1"
      unfolding run using IH by blast+
    have "entry (pg_entry (virt + of_nat m)) (?run offset t k) = phys + of_nat m"
      if "offset \<le> m" "m < bytes" "4096 dvd m" for m
    proof (cases "m = offset")
      case True
      then show ?thesis using ih(3) [OF _ not_here] here uh lim by (simp only:)
    next
      case False
      then have "offset + 4096 \<le> m" using next_page [OF less.prems(2)] that by blast
      then show ?thesis using ih(2) that by blast
    qed
    moreover have "entry (pg_entry x) (?run offset t k) = entry (pg_entry x) t"
      if "unat x < 2 ^ 57" "\<not> in_pages virt offset bytes x" for x
    proof -
      have "drop_bit 12 x \<noteq> drop_bit 12 ?here" using that(2) more by blast
      moreover have "unat ?here < 2 ^ 57" using uh lim by simp
      ultimately have "pg_entry ?here \<noteq> pg_entry x" using pg_entry_inj [OF _ _ that(1)] by metis
      then show ?thesis using ih(3) [OF that(1)] that(2) more other by metis
    qed
    ultimately show ?thesis using ih(1) by blast
  qed
qed

section \<open>Translation\<close>

lemma page_mask: "QAE_PAGE_MASK = NOT (mask 12)"
  by (simp add: QAE_PAGE_MASK_def mask_eq_exp_minus_1)

lemma load_addr_entry:
  "entry (pg_entry v) t \<noteq> 0 \<Longrightarrow> load_addr t v = (entry (pg_entry v) t AND NOT (mask 12)) OR take_bit 12 v"
  "load_key t v = entry (pg_entry v) t AND mask 12"
  by (auto simp: load_addr_def load_key_def entry_def page_mask split: option.split)

text \<open>An aligned address with something in its low 12 bits.\<close>

lemma low_or:
  fixes x y :: u64
  assumes "take_bit 12 x = 0" and "take_bit 12 y = y"
  shows "x + y = x OR y" and "(x OR y) AND NOT (mask 12) = x" and "(x OR y) AND mask 12 = y"
proof -
  have x: "\<not> bit x n" if "n < 12" for n
    using that arg_cong [OF assms(1), of "\<lambda>z. bit z n"] by (simp add: bit_take_bit_iff)
  have y: "\<not> bit y n" if "12 \<le> n" for n
    using that arg_cong [OF assms(2), of "\<lambda>z. bit z n"] by (auto simp: bit_take_bit_iff)
  have "\<not> bit x n \<or> \<not> bit y n" for n using x y by (cases "n < 12") auto
  then show "x + y = x OR y" by (rule disjunctive_add)
  show "(x OR y) AND NOT (mask 12) = x"
    using x y by (intro bit_word_eqI) (auto simp: bit_simps not_le)
  show "(x OR y) AND mask 12 = y"
    using x y by (intro bit_word_eqI) (auto simp: bit_simps, meson not_le)
qed

lemma take_bit_12_zero: "take_bit 12 (a :: u64) = 0 \<longleftrightarrow> 4096 dvd unat a"
proof -
  have "unat (take_bit 12 a) = unat a mod 4096"
    by (simp only: unsigned_take_bit_eq) (simp add: take_bit_eq_mod)
  moreover have "take_bit 12 a = 0 \<longleftrightarrow> unat (take_bit 12 a) = 0" by (simp only: unat_eq_0)
  ultimately show ?thesis by (simp only: dvd_eq_mod_eq_0)
qed

lemma unat_take_12: "unat (take_bit 12 (a :: u64)) = unat a mod 4096"
  by (simp only: unsigned_take_bit_eq) (simp add: take_bit_eq_mod)

lemma get_key_low: "take_bit 12 (get_key phys) = get_key phys"
  by (simp add: get_key_def page_mask flip: take_bit_eq_mask)

lemma aligned_and_mask:
  fixes a :: u64
  assumes "take_bit 12 a = 0"
  shows "a AND NOT (mask 12) = a"
  using low_or(2) [OF assms, of 0] by simp

text \<open>The entry of a byte of the range: the page of the byte, with the key in the low bits.\<close>

lemma range_entry:
  fixes virt phys bytes :: u64 and k :: nat
  assumes t: "depth_ok 4 t" and lim: "unat virt + unat bytes \<le> 2 ^ 57"
    and phys: "4096 dvd unat phys" and d: "d < unat bytes"
    and virt: "4096 dvd unat virt"
  defines "m \<equiv> 4096 * (d div 4096)"
  shows "entry (pg_entry (virt + of_nat d)) (fst (store_mmap_range (\<lambda>_. True) virt phys bytes False t k)) =
    (phys + of_nat m) OR get_key phys" and "take_bit 12 (phys + of_nat m) = 0"
proof -
  have m: "m \<le> d" "4096 dvd m" "m < unat bytes" using d by (auto simp: m_def intro: le_less_trans)
  have p0: "take_bit 12 phys = 0" using phys by (simp only: take_bit_12_zero)
  have "unat (of_nat m :: u64) = m" using m(3) lim by (simp add: unat_of_nat)
  then have "4096 dvd unat (phys + of_nat m)"
    using phys m(2) by (simp only: unat_word_ariths) (simp add: dvd_mod)
  then show z: "take_bit 12 (phys + of_nat m) = 0" by (simp only: take_bit_12_zero)
  have phys': "(phys AND QAE_PAGE_MASK) OR get_key phys = phys + get_key phys"
    using low_or(1) [OF p0 get_key_low, of phys] aligned_and_mask [OF p0] by (simp add: page_mask)
  have un: "unat (virt + of_nat d) = unat virt + d" "unat (virt + of_nat m) = unat virt + m"
    using lim d m(3) by (auto intro!: unat_offset)
  obtain a where "unat virt = 4096 * a" using virt by (auto elim: dvdE)
  then have "unat (virt + of_nat d) div 4096 = unat (virt + of_nat m) div 4096"
    unfolding un by (simp add: m_def)
  then have "drop_bit 12 (virt + of_nat d) = drop_bit 12 (virt + of_nat m)"
    by (simp only: word_unat_eq_iff page_number)
  then have pe: "pg_entry (virt + of_nat d) = pg_entry (virt + of_nat m)" by (rule pg_entry_cong)
  have "entry (pg_entry (virt + of_nat m)) (fst (store_mmap_range (\<lambda>_. True) virt phys bytes False t k)) =
      phys + get_key phys + of_nat m"
    using store_loop_ok [OF t _ lim, of 0] m(2,3)
    by (simp add: store_mmap_range_def Let_def phys')
  also have "\<dots> = (phys + of_nat m) OR get_key phys"
    using low_or(1) [OF z get_key_low] by (simp add: algebra_simps)
  finally show "entry (pg_entry (virt + of_nat d))
      (fst (store_mmap_range (\<lambda>_. True) virt phys bytes False t k)) = (phys + of_nat m) OR get_key phys"
    unfolding pe .
qed

lemma or_low_nonzero:
  fixes x y :: u64
  assumes "take_bit 12 x = 0" and "take_bit 12 y = y" and "x \<noteq> 0"
  shows "x OR y \<noteq> 0"
proof
  assume "x OR y = 0"
  then show False using low_or(2) [OF assms(1,2)] assms(3) by simp
qed

section \<open>Releasing the levels\<close>

definition mmapped :: "(nat \<Rightarrow> bool) \<Rightarrow> nat \<Rightarrow> nat \<Rightarrow> nat" where
  "mmapped ok k k' = length (filter ok [k..<k'])"

lemma mmapped_split: "k \<le> k' \<Longrightarrow> k' \<le> k'' \<Longrightarrow> mmapped ok k k'' = mmapped ok k k' + mmapped ok k' k''"
  unfolding mmapped_def by (metis filter_append le_Suc_ex length_append upt_add_eq_append)

lemma all_idx: "distinct all_idx" "i \<in> set all_idx"
proof -
  have inj: "inj_on (of_nat :: nat \<Rightarrow> pidx) {0..<512}"
  proof (rule inj_onI)
    fix a b :: nat assume "a \<in> {0..<512}" "b \<in> {0..<512}" "(of_nat a :: pidx) = of_nat b"
    then have "unat (of_nat a :: pidx) = unat (of_nat b :: pidx)" "a < 512" "b < 512" by auto
    then show "a = b" by (simp only: unat_of_nat) simp
  qed
  then show "distinct all_idx" unfolding all_idx_def by (simp add: distinct_map)
  have "unat i < 512" using unsigned_less [of i, where 'a = nat] by simp
  then show "i \<in> set all_idx" unfolding all_idx_def by (auto intro!: image_eqI [of _ _ "unat i"])
qed

lemma sum_list_upd:
  "distinct xs \<Longrightarrow> i \<in> set xs \<Longrightarrow>
   (\<Sum>x\<leftarrow>xs. g ((f(i := v)) x)) + g (f i) = (\<Sum>x\<leftarrow>xs. g (f x)) + (g v :: nat)"
proof (induction xs)
  case (Cons a xs)
  have "(\<Sum>x\<leftarrow>xs. g (if x = i then v else f x)) = (\<Sum>x\<leftarrow>xs. g (f x))" if "i \<notin> set xs"
    using that by (induction xs) auto
  then show ?case using Cons by (cases "i = a") auto
qed simp

definition level_pages :: "nat \<Rightarrow> page_table option \<Rightarrow> nat" where
  "level_pages n e = (case e of None \<Rightarrow> 0 | Some pt \<Rightarrow> Suc (free_page_level n pt))"

lemma free_node: "free_page_level (Suc n) (Node f) = (\<Sum>i\<leftarrow>all_idx. level_pages n (f i))"
  by (simp add: level_pages_def)

lemma free_node_upd:
  "free_page_level (Suc n) (Node (f(i := v))) + level_pages n (f i) =
   free_page_level (Suc n) (Node f) + level_pages n v"
  unfolding free_node by (rule sum_list_upd [OF all_idx])

lemma free_zero: "free_page_level n (zero_level n) = 0"
  by (cases n) (simp_all add: sum_list_0)

declare free_page_level.simps [simp del]

lemma store_path_pages:
  "depth_ok n t \<Longrightarrow> length is = Suc n \<Longrightarrow>
   k \<le> snd (store_path ok is phys t k) \<and>
   free_page_level n (fst (store_path ok is phys t k)) =
   free_page_level n t + mmapped ok k (snd (store_path ok is phys t k))"
proof (induction n arbitrary: t "is" k)
  case 0
  then show ?case by (auto simp: depth_ok_0 length_Suc_conv free_page_level.simps mmapped_def)
next
  case (Suc n)
  obtain i js f where is_eq: "is = i # js" and js: "length js = Suc n" and t: "t = Node f"
    and f: "\<And>i u. f i = Some u \<Longrightarrow> depth_ok n u"
    using depth_ok_step [OF Suc.prems] by blast
  note IH = Suc.IH [OF _ js]
  show ?case
  proof (cases "f i")
    case (Some u)
    let ?r = "store_path ok js phys u k"
    have ih: "k \<le> snd ?r" "free_page_level n (fst ?r) = free_page_level n u + mmapped ok k (snd ?r)"
      using IH [OF f [OF Some], of k] by auto
    have "store_path ok is phys t k = (Node (f(i := Some (fst ?r))), snd ?r)"
      unfolding is_eq t store_path_node [OF js] next_level_def using Some by simp
    then show ?thesis
      using ih free_node_upd [of n f i "Some (fst ?r)"] Some by (simp add: t level_pages_def)
  next
    case None
    have one: "mmapped ok k (Suc k) = (if ok k then 1 else 0)" by (simp add: mmapped_def)
    show ?thesis
    proof (cases "ok k")
      case True
      let ?r = "store_path ok js phys (zero_level n) (Suc k)"
      have ih: "Suc k \<le> snd ?r" "free_page_level n (fst ?r) = mmapped ok (Suc k) (snd ?r)"
        using IH [OF depth_ok_zero, of "Suc k"] free_zero by auto
      have "mmapped ok k (snd ?r) = Suc (mmapped ok (Suc k) (snd ?r))"
        using mmapped_split [of k "Suc k" "snd ?r" ok] ih(1) one True by simp
      moreover have "store_path ok is phys t k = (Node (f(i := Some (fst ?r))), snd ?r)"
        unfolding is_eq t store_path_node [OF js] next_level_def using None True by simp
      ultimately show ?thesis
        using free_node_upd [of n f i "Some (fst ?r)"] None ih by (simp add: t level_pages_def)
    next
      case False
      then show ?thesis
        using None one unfolding is_eq t store_path_node [OF js] next_level_def by simp
    qed
  qed
qed

lemma store_loop_pages:
  "depth_ok 4 t \<Longrightarrow>
   k \<le> snd (store_loop ok False virt phys offset bytes t k) \<and>
   free_page_level 4 (fst (store_loop ok False virt phys offset bytes t k)) =
   free_page_level 4 t + mmapped ok k (snd (store_loop ok False virt phys offset bytes t k))"
proof (induction "bytes - offset" arbitrary: offset t k rule: less_induct)
  case less
  show ?case
  proof (cases "offset < bytes")
    case True
    let ?r = "store_addr ok (virt + of_nat offset) (phys + of_nat offset) t k"
    let ?l = "store_loop ok False virt phys (offset + 4096) bytes (fst ?r) (snd ?r)"
    have run: "store_loop ok False virt phys offset bytes t k = ?l"
      using True by (simp add: store_loop.simps [of _ _ _ _ offset] split_def Let_def)
    have step: "k \<le> snd ?r" "free_page_level 4 (fst ?r) = free_page_level 4 t + mmapped ok k (snd ?r)"
      "depth_ok 4 (fst ?r)"
      using store_path_pages [OF less.prems length_pg_entry] store_path_depth [OF less.prems length_pg_entry]
      by (auto simp: store_addr_def)
    have "bytes - (offset + 4096) < bytes - offset" using True by simp
    note ih = less.hyps [OF this step(3), of "snd ?r"]
    show ?thesis unfolding run
      using ih step mmapped_split [of k "snd ?r" "snd ?l" ok] by simp
  qed (simp add: store_loop.simps [of _ _ _ _ offset] mmapped_def)
qed

section \<open>Properties\<close>

lemma load_after_store:
  fixes virt phys bytes :: u64 and k :: nat
  assumes t: "depth_ok 4 t" and lim: "unat virt + unat bytes \<le> 2 ^ 57"
    and phys: "4096 dvd unat phys" "0 < unat phys" "unat phys + unat bytes \<le> 2 ^ 64"
    and d: "d < unat bytes" and virt: "4096 dvd unat virt"
  defines "t' \<equiv> fst (store_mmap_range (\<lambda>_. True) virt phys bytes False t k)"
  shows "load_addr t' (virt + of_nat d) = phys + of_nat d"
    and "load_key t' (virt + of_nat d) = get_key phys"
proof -
  define m where "m = 4096 * (d div 4096)"
  let ?x = "phys + of_nat m" and ?r = "of_nat (d mod 4096) :: u64"
  note e = range_entry(1) [OF t lim phys(1) d virt, of k, folded m_def t'_def]
    range_entry(2) [OF t lim phys(1) d virt, folded m_def]
  have m: "m \<le> d" "d = m + d mod 4096" by (simp_all add: m_def)
  have "unat ?x = unat phys + m" using phys(3) d m(1) by (intro unat_offset) simp
  then have nz: "?x \<noteq> 0" using phys(2) by auto
  have "unat (virt + of_nat d) = unat virt + d" using lim d by (intro unat_offset) simp
  then have "unat (take_bit 12 (virt + of_nat d)) = d mod 4096"
    using virt unfolding unat_take_12 by (auto simp: dvd_def)
  moreover have "unat ?r = d mod 4096" by (simp add: unat_of_nat)
  ultimately have r: "take_bit 12 (virt + of_nat d) = ?r" by (simp only: word_unat_eq_iff)
  then have "take_bit 12 ?r = ?r" by (metis take_bit_take_bit min.idem)
  then have "?x OR ?r = ?x + ?r" using low_or(1) [OF e(2)] by simp
  also have "\<dots> = phys + of_nat d" using m(2) by (metis add.assoc of_nat_add)
  finally show "load_addr t' (virt + of_nat d) = phys + of_nat d"
    using or_low_nonzero [OF e(2) get_key_low nz] low_or(2) [OF e(2) get_key_low]
    by (simp add: load_addr_entry e(1) r)
  show "load_key t' (virt + of_nat d) = get_key phys"
    using low_or(3) [OF e(2) get_key_low] by (simp add: load_addr_entry e(1))
qed

text \<open>C11. After a slab has been entered in the page table, every byte address of the slab translates
  to the physical address at the same offset, and yields the hash key of the physical base
  address.\<close>

theorem virt_to_phys:
  fixes virt phys bytes :: u64
  assumes "depth_ok 4 t" and "unat virt + unat bytes \<le> 2 ^ 57"
    and "4096 dvd unat phys" and "0 < unat phys" and "unat phys + unat bytes \<le> 2 ^ 64"
    and "d < unat bytes" and "4096 dvd unat virt"
  shows "load_addr (fst (store_mmap_range (\<lambda>_. True) virt phys bytes False t k)) (virt + of_nat d) =
      phys + of_nat d \<and>
    load_key (fst (store_mmap_range (\<lambda>_. True) virt phys bytes False t k)) (virt + of_nat d) = get_key phys"
  using load_after_store [OF assms(1-6) assms(7)] by simp

theorem virt_to_phys_witness:
  "load_addr (fst (store_mmap_range (\<lambda>_. True) 0x7F0000000000 0x200000 0x3000 False (zero_level 4) 0))
     (0x7F0000000000 + of_nat 0x1234) = 0x201234"
  using virt_to_phys [of "zero_level 4" "0x7F0000000000" "0x3000" "0x200000" "0x1234" 0]
  by (simp add: dvd_def)

text \<open>Entering a slab leaves the translation of every mapped address on other pages as it was.\<close>

lemma other_pages_unchanged:
  fixes virt phys bytes x :: u64
  assumes "depth_ok 4 t" and "unat virt + unat bytes \<le> 2 ^ 57" and "unat x < 2 ^ 57"
    and "\<not> in_pages virt 0 (unat bytes) x" and "entry (pg_entry x) t \<noteq> 0"
  shows "load_addr (fst (store_mmap_range (\<lambda>_. True) virt phys bytes False t k)) x = load_addr t x \<and>
    load_key (fst (store_mmap_range (\<lambda>_. True) virt phys bytes False t k)) x = load_key t x"
proof -
  have "entry (pg_entry x) (fst (store_mmap_range (\<lambda>_. True) virt phys bytes False t k)) =
      entry (pg_entry x) t"
    using store_loop_ok [OF assms(1) _ assms(2), of 0] assms(3,4)
    by (simp add: store_mmap_range_def Let_def)
  then show ?thesis using assms(5) by (simp add: load_addr_entry)
qed

definition one_page :: page_table where
  "one_page = fst (store_mmap_range (\<lambda>_. True) 0x7F0000000000 0x200000 0x1000 False (zero_level 4) 0)"

lemma one_page_ok: "depth_ok 4 one_page" "entry (pg_entry 0x7F0000000000) one_page \<noteq> 0"
proof -
  show "depth_ok 4 one_page"
    using store_loop_ok [of "zero_level 4" 0 "0x7F0000000000" "0x1000"]
    by (simp add: one_page_def store_mmap_range_def Let_def)
  have "entry (pg_entry (0x7F0000000000 + of_nat 0)) one_page = (0x200000 + of_nat (4096 * (0 div 4096))) OR get_key 0x200000"
    unfolding one_page_def by (rule range_entry(1)) (simp_all add: dvd_def)
  moreover have "(0x200000 :: u64) OR get_key 0x200000 \<noteq> 0"
    by (rule or_low_nonzero [OF _ get_key_low]) simp_all
  ultimately show "entry (pg_entry 0x7F0000000000) one_page \<noteq> 0" by simp
qed


end
