(* ===== verification/Usdm_Mem.thy ===== *)
theory Usdm_Mem
  imports Usdm_List Usdm_Iova Usdm_Page_Table "HOL-Library.Monad_Syntax"
begin

text \<open>
  The memory library as a whole (\<open>qae_mem_utils_common.c\<close> and \<open>.h\<close>, \<open>vfio/qae_mem_utils_vfio.c\<close>): slabs are
  mapped, given an I/O address, entered into the page table and a hash table, cut into blocks, kept
  in a cache when empty and released.  Control structures are found through their address: \<open>slab_mem\<close>
  maps the address of a control structure to its contents, and an access to one that is not mapped
  gives \<open>None\<close>.  The intrusive lists are lists of addresses (theory \<open>Usdm_List\<close> relates the two).
  System calls get their results from the environment \<open>mem_env\<close>.
\<close>

section \<open>State and environment\<close>

datatype slabType = SMALL | LARGE | HUGE_PAGE

text \<open>The fields of \<open>dev_mem_info_t\<close>; those of \<open>block_ctrl_t\<close> that follow it in a small slab are \<open>blk\<close>.\<close>

record slab =
  nodeId :: int
  slab_size :: u64
  slab_type :: slabType
  allocations :: u32
  phy_addr :: u64
  virt_addr :: u64
  blk :: block_ctrl

text \<open>
  The static variables, and in \<open>dma\<close> the mappings (I/O address, virtual address, size) that were made
  through the VFIO container.
\<close>

record usdm =
  slab_mem :: "u64 \<Rightarrow> slab option"
  mem_list :: "u64 list"
  large_list :: "u64 list"
  cache_list :: "u64 list"
  slab_hash :: "u64 \<Rightarrow> u64 list"
  ptable :: page_table
  table_calls :: nat
  iova :: iova_state
  cache_size :: u64
  strict_node :: bool
  proc_pid :: int
  container_fd :: int
  container_pid :: int
  container_ref :: int
  dma :: "(u64 \<times> u64 \<times> u64) list"

definition usdm_init :: usdm where
  "usdm_init = \<lparr>slab_mem = (\<lambda>_. None), mem_list = [], large_list = [], cache_list = [], slab_hash = (\<lambda>_. []),
     ptable = zero_level 4, table_calls = 0, iova = iova_init, cache_size = 0, strict_node = False,
     proc_pid = 0, container_fd = - 1, container_pid = 0, container_ref = 0, dma = []\<rparr>"

definition g_max_cache :: u64 where "g_max_cache = 0x800000"
definition g_max_lookup_num :: nat where "g_max_lookup_num = 10"
definition QAE_MAX_PHYS_ALIGN :: u64 where "QAE_MAX_PHYS_ALIGN = 0x400000"
definition QAE_MAX_ALLOC_SIZE :: u64 where "QAE_MAX_ALLOC_SIZE = 0x4000000"
abbreviation NUMA_ANY_NODE :: int where "NUMA_ANY_NODE \<equiv> - 1"

text \<open>
  What the system calls of one operation return: the process id, the addresses of the first and the
  second mapping made by \<open>mmap_alloc\<close> as functions of the length (0 for a failure), whether the
  mappings of page table levels succeed, the results of \<open>VFIO_IOMMU_MAP_DMA\<close> and \<open>VFIO_IOMMU_UNMAP_DMA\<close>,
  and whether the mutex can be taken and released.
\<close>

datatype map_result = Map_Ok | Map_Exists | Map_Failed

record mem_env =
  env_pid :: int
  mmap_first :: "u64 \<Rightarrow> u64"
  mmap_second :: "u64 \<Rightarrow> u64"
  table_mmap :: "nat \<Rightarrow> bool"
  map_dma :: "u64 \<Rightarrow> map_result"
  unmap_dma :: "u64 \<Rightarrow> bool"
  mem_lock :: bool
  mem_unlock :: bool

section \<open>Start of a process\<close>

definition qae_ResetControl :: "usdm \<Rightarrow> usdm" where
  "qae_ResetControl st = st\<lparr>ptable := fst (free_page_table (ptable st)), slab_hash := (\<lambda>_. []), cache_size := 0,
     cache_list := [], mem_list := [], large_list := []\<rparr>"

definition check_pid :: "mem_env \<Rightarrow> usdm \<Rightarrow> bool \<times> usdm" where
  "check_pid env st = (if proc_pid st \<noteq> env_pid env then (True, st\<lparr>proc_pid := env_pid env\<rparr>) else (False, st))"

definition qaeInitProcess :: "mem_env \<Rightarrow> usdm \<Rightarrow> usdm" where
  "qaeInitProcess env st =
     (let (new, st1) = check_pid env st in if new then (qae_ResetControl st1)\<lparr>iova := iova_init\<rparr> else st1)"

section \<open>Mapping for the device\<close>

definition dma_map_slab :: "mem_env \<Rightarrow> u64 \<Rightarrow> u64 \<Rightarrow> u64 \<Rightarrow> usdm \<Rightarrow> int \<times> usdm" where
  "dma_map_slab env virt phys bytes st =
     (case map_dma env phys of
        Map_Ok \<Rightarrow> (0, st\<lparr>dma := (phys, virt, bytes) # dma st\<rparr>)
      | Map_Exists \<Rightarrow> (0, st)
      | Map_Failed \<Rightarrow> (1, st))"

definition dma_unmap_slab :: "mem_env \<Rightarrow> u64 \<Rightarrow> u64 \<Rightarrow> usdm \<Rightarrow> int \<times> usdm" where
  "dma_unmap_slab env phys bytes st =
     (if unmap_dma env phys then (0, st\<lparr>dma := filter (\<lambda>m. fst m \<noteq> phys) (dma st)\<rparr>) else (1, st))"

definition ioctl_free_slab :: "mem_env \<Rightarrow> slab \<Rightarrow> usdm \<Rightarrow> usdm option" where
  "ioctl_free_slab env s st = do {
     used \<leftarrow> iova_release (iova_used (iova st)) (phy_addr s) (ucast (slab_size s));
     let st1 = st\<lparr>iova := (iova st)\<lparr>iova_used := used\<rparr>\<rparr>;
     Some (if container_fd st1 < 0 then st1 else snd (dma_unmap_slab env (phy_addr s) (slab_size s) st1))
   }"

text \<open>The error path releases the I/O address even when none was found.\<close>

definition ioctl_alloc_error :: "u64 \<Rightarrow> u64 \<Rightarrow> usdm \<Rightarrow> (u64 \<times> usdm) option" where
  "ioctl_alloc_error phys bytes st = do {
     used \<leftarrow> iova_release (iova_used (iova st)) phys (ucast bytes);
     Some (0, st\<lparr>iova := (iova st)\<lparr>iova_used := used\<rparr>\<rparr>)
   }"

text \<open>The page size of the system (\<open>getpagesize\<close>) is that of the page table, 4096.\<close>

definition ioctl_alloc_slab :: "mem_env \<Rightarrow> u64 \<Rightarrow> u32 \<Rightarrow> slabType \<Rightarrow> usdm \<Rightarrow> (u64 \<times> usdm) option" where
  "ioctl_alloc_slab env size_r alignment type st =
     (let bytes = round_up size_r (of_nat PAGE_SIZE);
          p = mmap_first env (if type = SMALL then bytes else of_nat PAGE_SIZE);
          virt = (if type = SMALL then p else mmap_second env bytes)
      in if p = 0 \<or> virt = 0 then Some (0, st)
         else do {
           (phys, i) \<leftarrow> allocate_iova (iova st) (ucast bytes) alignment;
           let st1 = st\<lparr>iova := i\<rparr>;
           if phys = 0 then ioctl_alloc_error phys bytes st1
           else let s = \<lparr>nodeId = 0, slab_size = bytes, slab_type = type, allocations = 0, phy_addr = phys,
                         virt_addr = virt, blk = zero_slab\<rparr>;
                    st2 = st1\<lparr>slab_mem := (slab_mem st1)(p \<mapsto> s)\<rparr>
                in if container_fd st2 < 0 then Some (p, st2)
                   else let (ret, st3) = dma_map_slab env virt phys bytes st2
                        in if ret \<noteq> 0 then ioctl_alloc_error phys bytes (st3\<lparr>slab_mem := (slab_mem st3)(p := None)\<rparr>)
                           else Some (p, st3)
         })"

section \<open>Hash table\<close>

definition add_slab_to_hash :: "u64 \<Rightarrow> usdm \<Rightarrow> usdm option" where
  "add_slab_to_hash p st = do {
     s \<leftarrow> slab_mem st p;
     let key = get_key (phy_addr s);
     Some (st\<lparr>slab_hash := (slab_hash st)(key := p # slab_hash st key)\<rparr>)
   }"

definition del_slab_from_hash :: "u64 \<Rightarrow> usdm \<Rightarrow> usdm option" where
  "del_slab_from_hash p st = do {
     s \<leftarrow> slab_mem st p;
     let key = get_key (phy_addr s);
     Some (st\<lparr>slab_hash := (slab_hash st)(key := remove1 p (slab_hash st key))\<rparr>)
   }"

fun find_loop :: "u64 \<Rightarrow> u64 list \<Rightarrow> usdm \<Rightarrow> u64 option" where
  "find_loop v [] st = Some 0"
| "find_loop v (p # ps) st = do {
     s \<leftarrow> slab_mem st p;
     if v - virt_addr s < slab_size s then Some p else find_loop v ps st
   }"

definition find_slab_in_hash :: "u64 \<Rightarrow> usdm \<Rightarrow> u64 option" where
  "find_slab_in_hash v st = find_loop v (slab_hash st (load_key (ptable st) v)) st"

section \<open>Slabs\<close>

definition qae_alloc_slab :: "mem_env \<Rightarrow> u64 \<Rightarrow> u32 \<Rightarrow> slabType \<Rightarrow> usdm \<Rightarrow> (u64 \<times> usdm) option" where
  "qae_alloc_slab env bytes alignment type st = do {
     (p, st1) \<leftarrow> ioctl_alloc_slab env bytes alignment type st;
     if p = 0 then Some (0, st1) else do { st2 \<leftarrow> add_slab_to_hash p st1; Some (p, st2) }
   }"

definition qae_free_slab :: "mem_env \<Rightarrow> u64 \<Rightarrow> usdm \<Rightarrow> usdm option" where
  "qae_free_slab env p st = do {
     st1 \<leftarrow> del_slab_from_hash p st;
     s \<leftarrow> slab_mem st1 p;
     ioctl_free_slab env s (st1\<lparr>slab_mem := (slab_mem st1)(p := None)\<rparr>)
   }"

definition set_slab :: "u64 \<Rightarrow> slab \<Rightarrow> usdm \<Rightarrow> usdm" where
  "set_slab p s st = st\<lparr>slab_mem := (slab_mem st)(p \<mapsto> s)\<rparr>"

definition init_slab_and_alloc :: "u64 \<Rightarrow> u64 \<Rightarrow> nat \<Rightarrow> usdm \<Rightarrow> (u64 \<times> usdm) option" where
  "init_slab_and_alloc p bytes align st = do {
     s \<leftarrow> slab_mem st p;
     let c = init_slab (unat (slab_size s)) (blk s);
     case qae_mem_alloc (Some c) bytes align of
       (Some off, Some c') \<Rightarrow>
         let st1 = set_slab p (s\<lparr>blk := c'\<rparr>) st in Some (p + of_nat off, st1\<lparr>mem_list := p # mem_list st1\<rparr>)
     | _ \<Rightarrow> Some (0, set_slab p (s\<lparr>blk := c\<rparr>) st)
   }"

definition push_slab :: "u64 \<Rightarrow> usdm \<Rightarrow> (int \<times> usdm) option" where
  "push_slab p st = do {
     s \<leftarrow> slab_mem st p;
     Some (if cache_size st + slab_size s \<le> g_max_cache
           then (0, st\<lparr>cache_size := cache_size st + slab_size s, cache_list := p # cache_list st\<rparr>)
           else (- ENOMEM, st))
   }"

fun pop_loop :: "int \<Rightarrow> u64 list \<Rightarrow> usdm \<Rightarrow> u64 option" where
  "pop_loop node [] st = Some 0"
| "pop_loop node (p # ps) st = do {
     s \<leftarrow> slab_mem st p;
     if node \<noteq> NUMA_ANY_NODE \<and> strict_node st \<and> node \<noteq> nodeId s then pop_loop node ps st else Some p
   }"

definition pop_slab :: "int \<Rightarrow> usdm \<Rightarrow> (u64 \<times> usdm) option" where
  "pop_slab node st = do {
     p \<leftarrow> pop_loop node (cache_list st) st;
     if p = 0 then Some (0, st)
     else do {
       s \<leftarrow> slab_mem st p;
       Some (p, st\<lparr>cache_size := cache_size st - slab_size s, cache_list := remove1 p (cache_list st)\<rparr>)
     }
   }"

text \<open>The search through the slabs in use: at most ten are tried.  The result is the slab and the block.\<close>

fun lookup_loop :: "nat \<Rightarrow> u64 list \<Rightarrow> u64 \<Rightarrow> int \<Rightarrow> nat \<Rightarrow> usdm \<Rightarrow> (u64 \<times> u64 \<times> usdm) option" where
  "lookup_loop link_num [] bytes node align st = Some (0, 0, st)"
| "lookup_loop link_num (p # ps) bytes node align st = do {
     s \<leftarrow> slab_mem st p;
     if strict_node st \<and> nodeId s \<noteq> node then lookup_loop link_num ps bytes node align st
     else case qae_mem_alloc (Some (blk s)) bytes align of
            (Some off, Some c) \<Rightarrow> Some (p, p + of_nat off, set_slab p (s\<lparr>blk := c\<rparr>) st)
          | _ \<Rightarrow> if Suc link_num \<ge> g_max_lookup_num then Some (0, 0, st)
                 else lookup_loop (Suc link_num) ps bytes node align st
   }"

definition qae_userMemLookupBySize :: "u64 \<Rightarrow> int \<Rightarrow> nat \<Rightarrow> usdm \<Rightarrow> (u64 \<times> u64 \<times> usdm) option" where
  "qae_userMemLookupBySize bytes node align st = lookup_loop 0 (mem_list st) bytes node align st"

definition qae_find_slab :: "mem_env \<Rightarrow> u64 \<Rightarrow> int \<Rightarrow> nat \<Rightarrow> usdm \<Rightarrow> (u64 \<times> u64 \<times> usdm) option" where
  "qae_find_slab env bytes node align st = do {
     (p, a, st1) \<leftarrow> qae_userMemLookupBySize bytes node align st;
     if p \<noteq> 0 then Some (p, a, st1)
     else do {
       (q, st2) \<leftarrow> pop_slab node st1;
       if q = 0 then Some (0, 0, st2)
       else do {
         (a, st3) \<leftarrow> init_slab_and_alloc q bytes align st2;
         if a = 0 then do { st4 \<leftarrow> qae_free_slab env q st3; Some (0, 0, st4) }
         else Some (q, a, st3)
       }
     }
   }"

section \<open>Allocation\<close>

text \<open>The part of \<open>__qae_alloc_addr\<close> that makes a new slab.\<close>

definition alloc_new :: "mem_env \<Rightarrow> u64 \<Rightarrow> u64 \<Rightarrow> u64 \<Rightarrow> slabType \<Rightarrow> usdm \<Rightarrow> (u64 \<times> usdm) option" where
  "alloc_new env bytes align slab_bytes type st = do {
     (p, st1) \<leftarrow> qae_alloc_slab env slab_bytes (ucast align) type st;
     if p = 0 then Some (0, st1)
     else do {
       s \<leftarrow> slab_mem st1 p;
       let (t, k) = store_mmap_range (table_mmap env) (virt_addr s) (phy_addr s) (slab_size s) False (ptable st1) (table_calls st1);
       let st2 = set_slab p (s\<lparr>allocations := 1\<rparr>) (st1\<lparr>ptable := t, table_calls := k\<rparr>);
       if type = LARGE then Some (virt_addr s, st2\<lparr>large_list := p # large_list st2\<rparr>)
       else if virt_addr s mod of_nat PAGE_SIZE \<noteq> 0
       then do { st3 \<leftarrow> qae_free_slab env p st2; Some (0, st3) }
       else do {
         (a, st3) \<leftarrow> init_slab_and_alloc p bytes (unat (align div of_nat UNIT_SIZE)) st2;
         if a = 0 then do { st4 \<leftarrow> qae_free_slab env p st3; Some (0, st4) } else Some (a, st3)
       }
     }
   }"

text \<open>The units of a small slab: 512 pages of 4 KB in units of 1 KB.\<close>

abbreviation SLAB_UNITS :: u64 where "SLAB_UNITS \<equiv> 2048"

definition qae_alloc_addr :: "mem_env \<Rightarrow> u64 \<Rightarrow> int \<Rightarrow> u64 \<Rightarrow> usdm \<Rightarrow> (u64 \<times> usdm) option" where
  "qae_alloc_addr env bytes node align st =
     (let st0 = qaeInitProcess env st;
          unit = of_nat UNIT_SIZE;
          reserved = of_nat reserved_units :: u64
      in if - 1 - reserved - unit < bytes then Some (0, st0)
         else if div_round_up bytes unit + reserved > SLAB_UNITS \<or> align \<ge> SLAB_UNITS * unit
         then alloc_new env bytes align (div_round_up (max bytes align) unit * unit) LARGE st0
         else do {
           (p, a, st1) \<leftarrow> qae_find_slab env bytes node (unat (align div unit)) st0;
           if p \<noteq> 0
           then do { s \<leftarrow> slab_mem st1 p; Some (a, set_slab p (s\<lparr>allocations := allocations s + 1\<rparr>) st1) }
           else alloc_new env bytes align (SLAB_UNITS * unit) SMALL st1
         })"

definition qaeMemAllocNUMA :: "mem_env \<Rightarrow> u64 \<Rightarrow> int \<Rightarrow> u64 \<Rightarrow> usdm \<Rightarrow> (u64 \<times> usdm) option" where
  "qaeMemAllocNUMA env bytes node align st =
     (if bytes = 0 then Some (0, st)
      else if bytes > QAE_MAX_ALLOC_SIZE then Some (0, st)
      else if align = 0 \<or> align > QAE_MAX_PHYS_ALIGN \<or> align AND (align - 1) \<noteq> 0 then Some (0, st)
      else if \<not> mem_lock env then Some (0, st)
      else do {
        (a, st1) \<leftarrow> qae_alloc_addr env bytes node align st;
        Some (if mem_unlock env then a else 0, st1)
      })"

section \<open>Release\<close>

text \<open>The results are the new contents of the pointer of the caller and the new state.\<close>

definition qae_free_addr :: "mem_env \<Rightarrow> u64 \<Rightarrow> bool \<Rightarrow> usdm \<Rightarrow> (u64 \<times> usdm) option" where
  "qae_free_addr env va secure_free st = do {
     let st0 = qaeInitProcess env st;
     p \<leftarrow> find_slab_in_hash va st0;
     if p = 0 then Some (va, st0)
     else do {
       s \<leftarrow> slab_mem st0 p;
       if slab_type s = SMALL \<or> slab_type s = HUGE_PAGE
       then do {
         (ok, c) \<leftarrow> qae_mem_free (Some (blk s)) p va secure_free;
         c' \<leftarrow> c;
         if \<not> ok then Some (0, st0)
         else let s1 = s\<lparr>blk := c', allocations := allocations s - 1\<rparr>; st1 = set_slab p s1 st0
              in if allocations s1 \<noteq> 0 then Some (0, st1)
                 else do {
                   (ret, st2) \<leftarrow> push_slab p (st1\<lparr>mem_list := remove1 p (mem_list st1)\<rparr>);
                   if ret \<noteq> 0 then do { st3 \<leftarrow> qae_free_slab env p st2; Some (0, st3) } else Some (0, st2)
                 }
       }
       else do { st1 \<leftarrow> qae_free_slab env p (st0\<lparr>large_list := remove1 p (large_list st0)\<rparr>); Some (0, st1) }
     }
   }"

definition qae_memFreeNUMA :: "mem_env \<Rightarrow> u64 option \<Rightarrow> bool \<Rightarrow> usdm \<Rightarrow> (u64 option \<times> usdm) option" where
  "qae_memFreeNUMA env ptr secure_free st =
     (case ptr of
        None \<Rightarrow> Some (None, st)
      | Some va \<Rightarrow>
          if va = 0 \<or> \<not> mem_lock env then Some (ptr, st)
          else do { (va', st1) \<leftarrow> qae_free_addr env va secure_free st; Some (Some va', st1) })"

definition qaeMemFreeNUMA :: "mem_env \<Rightarrow> u64 option \<Rightarrow> usdm \<Rightarrow> (u64 option \<times> usdm) option" where
  "qaeMemFreeNUMA env ptr st = qae_memFreeNUMA env ptr True st"

definition qaeMemFreeNonZeroNUMA :: "mem_env \<Rightarrow> u64 option \<Rightarrow> usdm \<Rightarrow> (u64 option \<times> usdm) option" where
  "qaeMemFreeNonZeroNUMA env ptr st = qae_memFreeNUMA env ptr False st"

section \<open>Start and end of the library\<close>

definition qaeMemInit :: "mem_env \<Rightarrow> usdm \<Rightarrow> int \<times> usdm" where
  "qaeMemInit env st =
     (if \<not> mem_lock env then (- EIO, st)
      else let st1 = qaeInitProcess env st in (if mem_unlock env then 0 else - EIO, st1))"

fun qae_destroyList :: "mem_env \<Rightarrow> u64 list \<Rightarrow> usdm \<Rightarrow> usdm option" where
  "qae_destroyList env [] st = Some st"
| "qae_destroyList env (p # ps) st = do { st1 \<leftarrow> qae_free_slab env p st; qae_destroyList env ps st1 }"

text \<open>The loop that empties the cache, with a bound on its steps.\<close>

fun reset_loop :: "nat \<Rightarrow> mem_env \<Rightarrow> usdm \<Rightarrow> usdm option" where
  "reset_loop 0 env st = None"
| "reset_loop (Suc n) env st = do {
     (p, st1) \<leftarrow> pop_slab NUMA_ANY_NODE st;
     if p = 0 then Some st1 else do { st2 \<leftarrow> qae_free_slab env p st1; reset_loop n env st2 }
   }"

definition qae_reset_cache :: "mem_env \<Rightarrow> usdm \<Rightarrow> usdm option" where
  "qae_reset_cache env st = reset_loop (Suc (length (cache_list st))) env st"

definition qaeMemDestroy :: "mem_env \<Rightarrow> usdm \<Rightarrow> usdm option" where
  "qaeMemDestroy env st =
     (if \<not> mem_lock env then Some st
      else do {
        st1 \<leftarrow> qae_reset_cache env (st\<lparr>ptable := fst (free_page_table (ptable st))\<rparr>);
        st2 \<leftarrow> qae_destroyList env (mem_list st1) st1;
        st3 \<leftarrow> qae_destroyList env (large_list st2) st2;
        Some (st3\<lparr>cache_list := [], mem_list := [], large_list := []\<rparr>)
      })"

section \<open>Translation\<close>

definition qaeVirtToPhysNUMA :: "usdm \<Rightarrow> u64 \<Rightarrow> u64" where
  "qaeVirtToPhysNUMA st v = load_addr (ptable st) v"

fun phys_loop :: "u64 \<Rightarrow> u64 list \<Rightarrow> usdm \<Rightarrow> u64 option" where
  "phys_loop phys [] st = Some 0"
| "phys_loop phys (p # ps) st = do {
     s \<leftarrow> slab_mem st p;
     let offset = phys - phy_addr s;
     if offset < slab_size s then Some (virt_addr s + offset) else phys_loop phys ps st
   }"

definition qaePhysToVirtNUMA :: "mem_env \<Rightarrow> u64 \<Rightarrow> usdm \<Rightarrow> u64 option" where
  "qaePhysToVirtNUMA env phys st =
     (if \<not> mem_lock env then Some 0
      else do { v \<leftarrow> phys_loop phys (mem_list st) st; Some (if mem_unlock env then v else 0) })"

section \<open>Devices\<close>

fun dma_map_slabs :: "mem_env \<Rightarrow> u64 list \<Rightarrow> usdm \<Rightarrow> (int \<times> usdm) option" where
  "dma_map_slabs env [] st = Some (0, st)"
| "dma_map_slabs env (p # ps) st = do {
     s \<leftarrow> slab_mem st p;
     let (ret, st1) = dma_map_slab env (virt_addr s) (phy_addr s) (slab_size s) st;
     if ret \<noteq> 0 then Some (1, st1) else dma_map_slabs env ps st1
   }"

fun dma_unmap_slabs :: "mem_env \<Rightarrow> u64 list \<Rightarrow> usdm \<Rightarrow> (int \<times> usdm) option" where
  "dma_unmap_slabs env [] st = Some (0, st)"
| "dma_unmap_slabs env (p # ps) st = do {
     s \<leftarrow> slab_mem st p;
     let (ret, st1) = dma_unmap_slab env (phy_addr s) (slab_size s) st;
     if ret \<noteq> 0 then Some (1, st1) else dma_unmap_slabs env ps st1
   }"

text \<open>
  The information the IOMMU reports: the ranges of each capability that lists I/O addresses, or \<open>None\<close>
  when it cannot be read.
\<close>

fun filter_caps :: "u64 \<Rightarrow> (u64 \<times> u64) list list \<Rightarrow> u32 list \<Rightarrow> u32 list option" where
  "filter_caps next_start [] used = Some used"
| "filter_caps next_start (ranges # caps) used = do {
     (next_start', used') \<leftarrow> filter_range next_start ranges used;
     filter_caps next_start' caps used'
   }"

definition filter_dma_ranges :: "(u64 \<times> u64) list list option \<Rightarrow> usdm \<Rightarrow> (int \<times> usdm) option" where
  "filter_dma_ranges info st =
     (case info of
        None \<Rightarrow> Some (- 1, st)
      | Some caps \<Rightarrow> do {
          used \<leftarrow> filter_caps 0 caps (iova_used (iova st));
          Some (0, st\<lparr>iova := (iova st)\<lparr>iova_used := used\<rparr>\<rparr>)
        })"

text \<open>Mapping the slabs that were allocated before the first device is registered.\<close>

definition map_all :: "mem_env \<Rightarrow> int \<Rightarrow> usdm \<Rightarrow> (int \<times> usdm) option" where
  "map_all env fd st = do {
     let st0 = st\<lparr>container_fd := fd\<rparr>;
     (r1, st1) \<leftarrow> dma_map_slabs env (mem_list st0) st0;
     (r2, st2) \<leftarrow> dma_map_slabs env (large_list st1) st1;
     (r3, st3) \<leftarrow> dma_map_slabs env (cache_list st2) st2;
     Some (if r1 \<noteq> 0 \<or> r2 \<noteq> 0 \<or> r3 \<noteq> 0 then (1, st3\<lparr>container_fd := - 1\<rparr>) else (0, st3))
   }"

definition qaeRegisterDevice :: "mem_env \<Rightarrow> (u64 \<times> u64) list list option \<Rightarrow> int \<Rightarrow> usdm \<Rightarrow> (int \<times> usdm) option" where
  "qaeRegisterDevice env info fd st = do {
     (r0, st0) \<leftarrow> filter_dma_ranges info st;
     if r0 \<noteq> 0 then Some (- 1, st0)
     else do {
       let st1 = qaeInitProcess env st0;
       let st2 = (if env_pid env \<noteq> container_pid st1
                  then st1\<lparr>container_pid := env_pid env, container_fd := - 1, container_ref := 0\<rparr> else st1);
       (r, st3) \<leftarrow> (if container_fd st2 < 0 then map_all env fd st2 else Some (0, st2));
       Some (if r \<noteq> 0 then (1, st3)
             else if fd = container_fd st3 then (0, st3\<lparr>container_ref := container_ref st3 + 1\<rparr>)
             else (1, st3))
     }
   }"

definition qaeUnregisterDevice :: "mem_env \<Rightarrow> int \<Rightarrow> usdm \<Rightarrow> (int \<times> usdm) option" where
  "qaeUnregisterDevice env fd st =
     (if container_ref st \<le> 0 \<or> container_fd st \<noteq> fd then Some (1, st)
      else if env_pid env \<noteq> container_pid st then Some (0, st)
      else let st0 = st\<lparr>container_ref := container_ref st - 1\<rparr>
           in if container_ref st0 \<noteq> 0 then Some (0, st0)
              else do {
                (r1, st1) \<leftarrow> dma_unmap_slabs env (mem_list st0) st0;
                (r2, st2) \<leftarrow> dma_unmap_slabs env (large_list st1) st1;
                (r3, st3) \<leftarrow> dma_unmap_slabs env (cache_list st2) st2;
                Some (if r1 \<noteq> 0 \<or> r2 \<noteq> 0 \<or> r3 \<noteq> 0 then 1 else 0, st3\<lparr>container_fd := - 1\<rparr>)
              })"

end
