(* ===== verification/Usdm_Mem_Inv.thy ===== *)
theory Usdm_Mem_Inv
  imports Usdm_Mem
begin

text \<open>
  The invariant of the memory library (\<open>Usdm_Mem\<close>): where slabs are, how the page table, the hash table,
  the I/O addresses and the mappings of the device follow them, which blocks are allocated and on
  which list a slab is.  Adding and removing one slab keep it.
\<close>

section \<open>Where slabs are\<close>

text \<open>Type, size, I/O address and virtual address of a slab: they never change while it is mapped.\<close>

datatype placement = Place slabType u64 u64 u64

definition place :: "slab \<Rightarrow> placement" where
  "place s = Place (slab_type s) (slab_size s) (phy_addr s) (virt_addr s)"

definition places :: "usdm \<Rightarrow> u64 \<Rightarrow> placement option" where
  "places st = (\<lambda>p. map_option place (slab_mem st p))"

fun well_placed :: "u64 \<Rightarrow> placement \<Rightarrow> bool" where
  "well_placed p (Place ty n ph v) \<longleftrightarrow>
     p \<noteq> 0 \<and> 0 < unat n \<and> unat n \<le> 67108864 \<and> 4096 dvd unat n \<and>
     slab_aligned ph \<and> 2097152 \<le> unat ph \<and> unat ph + unat n \<le> 549755813888 \<and>
     4096 dvd unat v \<and> 0 < unat v \<and> unat v + unat n \<le> 140737488355328 \<and>
     (if ty = SMALL then v = p \<and> n = 0x200000 else ty = LARGE)"

fun covers :: "placement \<Rightarrow> nat \<Rightarrow> bool" where
  "covers (Place ty n ph v) j \<longleftrightarrow> in_slabs ph (ucast n) j"

fun key_of :: "placement \<Rightarrow> u64" where
  "key_of (Place ty n ph v) = get_key ph"

fun mapping_of :: "placement \<Rightarrow> u64 \<times> u64 \<times> u64" where
  "mapping_of (Place ty n ph v) = (ph, v, n)"

definition apart :: "u64 \<Rightarrow> nat \<Rightarrow> u64 \<Rightarrow> nat \<Rightarrow> bool" where
  "apart a n b m \<longleftrightarrow> unat a + n \<le> unat b \<or> unat b + m \<le> unat a"

fun virt_apart :: "placement \<Rightarrow> placement \<Rightarrow> bool" where
  "virt_apart (Place ty n ph v) (Place ty' n' ph' v') \<longleftrightarrow> apart v (unat n) v' (unat n')"

declare well_placed.simps [simp del] covers.simps [simp del] key_of.simps [simp del] mapping_of.simps [simp del]

lemmas placement_simps = well_placed.simps covers.simps key_of.simps mapping_of.simps

text \<open>
  The invariant of the slabs: they are well placed and do not overlap, their I/O addresses are taken,
  the hash table holds exactly them and, when a device is registered, exactly they are mapped for it.
\<close>

definition iova_ok :: "(u64 \<Rightarrow> placement option) \<Rightarrow> iova_state \<Rightarrow> bool" where
  "iova_ok m i \<longleftrightarrow> iova_inv i \<and>
     (\<forall>p x j. m p = Some x \<and> covers x j \<longrightarrow> slab_used (iova_used i) j) \<and>
     (\<forall>p x q y j. m p = Some x \<and> m q = Some y \<and> covers x j \<and> covers y j \<longrightarrow> p = q)"

lemma iova_okI:
  "iova_inv i \<Longrightarrow> (\<And>p x j. m p = Some x \<Longrightarrow> covers x j \<Longrightarrow> slab_used (iova_used i) j) \<Longrightarrow>
   (\<And>p x q y j. m p = Some x \<Longrightarrow> m q = Some y \<Longrightarrow> covers x j \<Longrightarrow> covers y j \<Longrightarrow> p = q) \<Longrightarrow> iova_ok m i"
  unfolding iova_ok_def by blast

lemma iova_okD:
  assumes "iova_ok m i"
  shows "iova_inv i" "m p = Some x \<Longrightarrow> covers x j \<Longrightarrow> slab_used (iova_used i) j"
    "m p = Some x \<Longrightarrow> m q = Some y \<Longrightarrow> covers x j \<Longrightarrow> covers y j \<Longrightarrow> p = q"
  using assms unfolding iova_ok_def by blast+

definition hash_ok :: "(u64 \<Rightarrow> placement option) \<Rightarrow> (u64 \<Rightarrow> u64 list) \<Rightarrow> bool" where
  "hash_ok m h \<longleftrightarrow> (\<forall>k. distinct (h k) \<and> set (h k) = {p. \<exists>x. m p = Some x \<and> key_of x = k})"

definition dma_ok :: "(u64 \<Rightarrow> placement option) \<Rightarrow> int \<Rightarrow> (u64 \<times> u64 \<times> u64) list \<Rightarrow> bool" where
  "dma_ok m fd d \<longleftrightarrow> set d = (if fd < 0 then {} else mapping_of ` ran m)"

definition virt_ok :: "(u64 \<Rightarrow> placement option) \<Rightarrow> bool" where
  "virt_ok m \<longleftrightarrow> (\<forall>p x. m p = Some x \<longrightarrow> well_placed p x) \<and>
     (\<forall>p x q y. m p = Some x \<and> m q = Some y \<and> p \<noteq> q \<longrightarrow> virt_apart x y)"

definition core :: "(u64 \<Rightarrow> placement option) \<Rightarrow> iova_state \<Rightarrow> (u64 \<Rightarrow> u64 list) \<Rightarrow> int \<Rightarrow> (u64 \<times> u64 \<times> u64) list \<Rightarrow> bool" where
  "core m i h fd d \<longleftrightarrow> virt_ok m \<and> iova_ok m i \<and> hash_ok m h \<and> dma_ok m fd d"

definition core_inv :: "usdm \<Rightarrow> bool" where
  "core_inv st \<longleftrightarrow> core (places st) (iova st) (slab_hash st) (container_fd st) (dma st)"

text \<open>The page table translates every byte of a slab.\<close>

definition table_ok :: "(u64 \<Rightarrow> placement option) \<Rightarrow> page_table \<Rightarrow> bool" where
  "table_ok m t \<longleftrightarrow> depth_ok 4 t \<and>
     (\<forall>p ty n ph v off. m p = Some (Place ty n ph v) \<and> off < unat n \<longrightarrow>
        entry (pg_entry (v + of_nat off)) t \<noteq> 0 \<and>
        load_addr t (v + of_nat off) = ph + of_nat off \<and> load_key t (v + of_nat off) = get_key ph)"

lemma places_upd: "places (st\<lparr>slab_mem := (slab_mem st)(p := x)\<rparr>) = (places st)(p := map_option place x)"
  by (auto simp: places_def)

lemma places_set_slab: "places (set_slab p s st) = (places st)(p \<mapsto> place s)"
  by (auto simp: places_def set_slab_def)

lemma places_Some: "places st p = Some x \<longleftrightarrow> (\<exists>s. slab_mem st p = Some s \<and> place s = x)"
  by (auto simp: places_def)

lemma bytes_u32:
  assumes "unat (n :: u64) \<le> 67108864"
  shows "unat (ucast n :: u32) = unat n"
  using assms by (simp add: unsigned_ucast_eq take_bit_nat_eq_self_iff)

section \<open>Removing a slab\<close>

lemma iova_ok_release:
  assumes "virt_ok m" and "iova_ok m i" and "m p = Some (Place ty n ph v)"
  shows "\<exists>u. iova_release (iova_used i) ph (ucast n) = Some u \<and> iova_ok (m(p := None)) (i\<lparr>iova_used := u\<rparr>)"
proof -
  have w: "well_placed p (Place ty n ph v)" using assms by (auto simp: virt_ok_def)
  have n: "unat (ucast n :: u32) = unat n" by (rule bytes_u32) (use w in \<open>auto simp: placement_simps\<close>)
  then have "(ucast n :: u32) \<noteq> 0" using w by (auto simp: placement_simps)
  then obtain u where u: "iova_release (iova_used i) ph (ucast n) = Some u" "used_ok u"
      "\<forall>j. slab_used u j \<longleftrightarrow> \<not> in_slabs ph (ucast n) j \<and> slab_used (iova_used i) j"
    using release_ok [of "iova_used i" ph "ucast n"] w iova_okD(1) [OF assms(2)] n by (auto simp: iova_inv_def placement_simps)
  have "slab_used u j" if "m q = Some y" "q \<noteq> p" "covers y j" for q y j
  proof -
    have "slab_used (iova_used i) j" using assms(2) that unfolding iova_ok_def by blast
    moreover have "\<not> covers (Place ty n ph v) j" using assms(2,3) that unfolding iova_ok_def by blast
    ultimately show ?thesis using u(3) by (simp add: placement_simps)
  qed
  then have "iova_ok (m(p := None)) (i\<lparr>iova_used := u\<rparr>)"
    using assms(2) u(2) iova_okD(3) [OF assms(2)]
    by (intro iova_okI) (auto simp: iova_ok_def iova_inv_def split: if_splits)
  then show ?thesis using u(1) by blast
qed

lemma hash_ok_del:
  assumes "hash_ok m h" and "m p = Some x"
  shows "hash_ok (m(p := None)) (h(key_of x := remove1 p (h (key_of x))))"
  using assms by (fastforce simp: hash_ok_def)

lemma virt_ok_del: "virt_ok m \<Longrightarrow> virt_ok (m(p := None))"
  by (auto simp: virt_ok_def split: if_splits)

lemma table_ok_del: "table_ok m t \<Longrightarrow> table_ok (m(p := None)) t"
  by (auto simp: table_ok_def)

text \<open>Two slabs have different I/O addresses.\<close>

lemma placement_slab: "well_placed p (Place ty n ph v) \<Longrightarrow> covers (Place ty n ph v) (unat ph div 2097152)"
proof -
  assume w: "well_placed p (Place ty n ph v)"
  have "unat (ucast n :: u32) = unat n" by (rule bytes_u32) (use w in \<open>auto simp: placement_simps\<close>)
  then have "(ucast n :: u32) \<noteq> 0" using w by (auto simp: placement_simps)
  then show ?thesis by (simp add: in_slabs_def slabs_pos placement_simps)
qed

lemma phys_distinct:
  assumes "virt_ok m" and "iova_ok m i" and "m p = Some (Place ty n ph v)" and "m q = Some (Place ty' n' ph v')"
  shows "p = q"
proof -
  have "covers (Place ty n ph v) (unat ph div 2097152)" "covers (Place ty' n' ph v') (unat ph div 2097152)"
    using placement_slab assms(1,3,4) unfolding virt_ok_def by blast+
  then show ?thesis using assms(2,3,4) unfolding iova_ok_def by blast
qed

lemma dma_ok_del:
  assumes "virt_ok m" and "iova_ok m i" and "dma_ok m fd d" and "m p = Some (Place ty n ph v)"
  shows "dma_ok (m(p := None)) fd (if fd < 0 then d else filter (\<lambda>e. fst e \<noteq> ph) d)"
proof (cases "fd < 0")
  case False
  have "mapping_of ` ran (m(p := None)) = {e \<in> mapping_of ` ran m. fst e \<noteq> ph}"
  proof (intro equalityI subsetI)
    fix e assume "e \<in> mapping_of ` ran (m(p := None))"
    then obtain q y where q: "m q = Some y" "q \<noteq> p" "e = mapping_of y" by (auto simp: ran_def split: if_splits)
    obtain ty' n' ph' v' where y: "y = (Place ty' n' ph' v')" by (cases y)
    have "ph' \<noteq> ph" using phys_distinct [OF assms(1,2,4)] q(1,2) y by blast
    then show "e \<in> {e \<in> mapping_of ` ran m. fst e \<noteq> ph}" using q y by (auto simp: ran_def placement_simps intro!: image_eqI [of _ _ y])
  next
    fix e assume "e \<in> {e \<in> mapping_of ` ran m. fst e \<noteq> ph}"
    then obtain q y where q: "m q = Some y" "e = mapping_of y" "fst e \<noteq> ph" by (auto simp: ran_def)
    then have "q \<noteq> p" using assms(4) by (auto simp: placement_simps)
    then show "e \<in> mapping_of ` ran (m(p := None))" using q by (auto simp: ran_def)
  qed
  then show ?thesis using False assms(3) by (simp add: dma_ok_def)
qed (use assms(3) in \<open>simp add: dma_ok_def\<close>)

abbreviation unmaps :: "mem_env \<Rightarrow> bool" where
  "unmaps env \<equiv> \<forall>ph. unmap_dma env ph"

lemma free_slab_core:
  assumes "core_inv st" and "slab_mem st p = Some s" and "unmaps env"
  obtains h i d where "qae_free_slab env p st =
      Some (st\<lparr>slab_mem := (slab_mem st)(p := None), slab_hash := h, iova := i, dma := d\<rparr>)"
    "core ((places st)(p := None)) i h (container_fd st) d"
proof -
  have c: "virt_ok (places st)" "iova_ok (places st) (iova st)" "hash_ok (places st) (slab_hash st)"
      "dma_ok (places st) (container_fd st) (dma st)"
    using assms(1) by (auto simp: core_inv_def core_def)
  have pl: "places st p = Some (Place (slab_type s) (slab_size s) (phy_addr s) (virt_addr s))"
    using assms(2) by (simp add: places_def place_def)
  obtain u where u: "iova_release (iova_used (iova st)) (phy_addr s) (ucast (slab_size s)) = Some u"
      "iova_ok ((places st)(p := None)) ((iova st)\<lparr>iova_used := u\<rparr>)"
    using iova_ok_release [OF c(1,2) pl] by blast
  let ?h = "(slab_hash st)(get_key (phy_addr s) := remove1 p (slab_hash st (get_key (phy_addr s))))"
  let ?d = "if container_fd st < 0 then dma st else filter (\<lambda>e. fst e \<noteq> phy_addr s) (dma st)"
  have "qae_free_slab env p st =
      Some (st\<lparr>slab_mem := (slab_mem st)(p := None), slab_hash := ?h, iova := (iova st)\<lparr>iova_used := u\<rparr>, dma := ?d\<rparr>)"
    using assms(2,3) u(1)
    by (simp add: qae_free_slab_def del_slab_from_hash_def ioctl_free_slab_def dma_unmap_slab_def Let_def)
  moreover have "core ((places st)(p := None)) ((iova st)\<lparr>iova_used := u\<rparr>) ?h (container_fd st) ?d"
    using virt_ok_del [OF c(1)] u(2) hash_ok_del [OF c(3) pl] dma_ok_del [OF c(1,2,4) pl]
    by (simp add: core_def placement_simps)
  ultimately show ?thesis by (rule that)
qed

section \<open>Adding a slab\<close>

text \<open>An address at which the system may map \<open>n\<close> bytes: page aligned and outside everything mapped.\<close>

definition region_free :: "(u64 \<Rightarrow> slab option) \<Rightarrow> u64 \<Rightarrow> nat \<Rightarrow> bool" where
  "region_free m a n \<longleftrightarrow> 4096 dvd unat a \<and> unat a + n \<le> 140737488355328 \<and>
     (\<forall>p s. m p = Some s \<longrightarrow> apart a n (virt_addr s) (unat (slab_size s)) \<and> apart a n p 4096)"

text \<open>
  What the library relies on: mappings are made at free addresses, page table levels can be mapped,
  the IOMMU unmaps what was mapped and has no mapping that the library does not know of.
\<close>

definition env_ok :: "(u64 \<Rightarrow> slab option) \<Rightarrow> mem_env \<Rightarrow> bool" where
  "env_ok m env \<longleftrightarrow>
     (\<forall>n. 0 < unat n \<and> unat n \<le> 67108864 \<longrightarrow>
        (mmap_first env n \<noteq> 0 \<longrightarrow> region_free m (mmap_first env n) (unat n)) \<and>
        (mmap_second env n \<noteq> 0 \<longrightarrow> region_free m (mmap_second env n) (unat n))) \<and>
     table_mmap env = (\<lambda>_. True) \<and> unmaps env \<and> (\<forall>ph. map_dma env ph \<noteq> Map_Exists)"

lemma region_free_new: "region_free m a n \<Longrightarrow> 0 < n \<Longrightarrow> m a = None"
  by (cases "m a") (fastforce simp: region_free_def apart_def)+

lemma virt_ok_add:
  assumes "virt_ok (places st)" and "region_free (slab_mem st) (virt_addr s) (unat (slab_size s))"
    and "well_placed p (place s)"
  shows "virt_ok ((places st)(p \<mapsto> place s))"
proof -
  have "virt_apart (place s) y \<and> virt_apart y (place s)" if y: "places st q = Some y" for q y
  proof -
    obtain t where t: "slab_mem st q = Some t" "y = place t" using y by (auto simp: places_Some)
    then have "apart (virt_addr s) (unat (slab_size s)) (virt_addr t) (unat (slab_size t))"
      using assms(2) unfolding region_free_def by blast
    then show ?thesis unfolding t(2) place_def virt_apart.simps apart_def by blast
  qed
  then show ?thesis using assms(1,3) by (auto simp: virt_ok_def)
qed

lemma iova_ok_add:
  assumes "iova_ok m i" and "reserved_at i (ucast n) al ph i'" and "align_ok al"
  shows "iova_ok (m(p \<mapsto> (Place ty n ph v))) i'"
proof -
  have free: "\<not> slab_used (iova_used i) j" if "covers (Place ty n ph v) j" for j
    using assms(2) that by (auto simp: reserved_at_def can_reserve_def range_free_def placement_simps in_slabs_def)
  have used: "slab_used (iova_used i') j \<longleftrightarrow> covers (Place ty n ph v) j \<or> slab_used (iova_used i) j" for j
    using assms(2) by (simp add: reserved_at_def placement_simps)
  show ?thesis
  proof (rule iova_okI)
    show "iova_inv i'" by (rule reserved_at_inv [OF assms(3,2)])
  next
    fix q x j assume "(m(p \<mapsto> (Place ty n ph v))) q = Some x" "covers x j"
    then show "slab_used (iova_used i') j" using used iova_okD(2) [OF assms(1)] by (auto split: if_splits)
  next
    fix q x r y j
    assume "(m(p \<mapsto> (Place ty n ph v))) q = Some x" "(m(p \<mapsto> (Place ty n ph v))) r = Some y" "covers x j" "covers y j"
    then show "q = r" using free iova_okD(2,3) [OF assms(1)] by (auto split: if_splits)
  qed
qed

lemma iova_ok_undo:
  fixes n :: u64
  assumes "iova_ok m i" and "reserved_at i (ucast n) al ph i'" and "align_ok al"
    and n: "0 < unat n" "unat n \<le> 67108864"
  shows "\<exists>u. iova_release (iova_used i') ph (ucast n) = Some u \<and> iova_ok m (i'\<lparr>iova_used := u\<rparr>)"
proof -
  have r: "candidate al ph" "unat ph + unat (ucast n :: u32) \<le> 549755813888" "used_ok (iova_used i')"
      "\<And>j. in_slabs ph (ucast n) j \<Longrightarrow> \<not> slab_used (iova_used i) j"
      "\<And>j. slab_used (iova_used i') j \<longleftrightarrow> in_slabs ph (ucast n) j \<or> slab_used (iova_used i) j"
    using assms(2) by (auto simp: reserved_at_def can_reserve_def range_free_def in_slabs_def)
  have nn: "unat (ucast n :: u32) = unat n" by (rule bytes_u32 [OF n(2)])
  then have "(ucast n :: u32) \<noteq> 0" using n(1) by auto
  then obtain u where u: "iova_release (iova_used i') ph (ucast n) = Some u" "used_ok u"
      "\<forall>j. slab_used u j \<longleftrightarrow> \<not> in_slabs ph (ucast n) j \<and> slab_used (iova_used i') j"
    using release_ok [OF r(3) candidateD(3) [OF assms(3) r(1)] _ r(2)] nn n by auto
  have eq: "slab_used u j \<longleftrightarrow> slab_used (iova_used i) j" for j using u(3) r(4,5) by blast
  have "iova_ok m (i'\<lparr>iova_used := u\<rparr>)"
  proof (rule iova_okI)
    show "iova_inv (i'\<lparr>iova_used := u\<rparr>)"
      using reserved_at_inv [OF assms(3,2)] u(2) by (simp add: iova_inv_def)
    show "slab_used (iova_used (i'\<lparr>iova_used := u\<rparr>)) j" if "m p = Some x" "covers x j" for p x j
      using iova_okD(2) [OF assms(1) that] eq by simp
  qed (rule iova_okD(3) [OF assms(1)])
  then show ?thesis using u(1) by blast
qed

text \<open>Releasing the I/O address 0 does no harm to slabs when it is for at most one slab of addresses.\<close>

lemma iova_ok_zero:
  fixes n :: u64
  assumes "virt_ok m" and "iova_ok m i" and n: "0 < unat n" "unat n \<le> 2097152"
  shows "\<exists>u. iova_release (iova_used i) 0 (ucast n) = Some u \<and> iova_ok m (i\<lparr>iova_used := u\<rparr>)"
proof -
  have nn: "unat (ucast n :: u32) = unat n" by (rule bytes_u32) (use n in simp)
  then have nz: "(ucast n :: u32) \<noteq> 0" using n(1) by auto
  have i: "used_ok (iova_used i)" using iova_okD(1) [OF assms(2)] by (simp add: iova_inv_def)
  have one: "slabs (ucast n) = 1" using n nn by (simp add: slabs_def div_nat_eqI)
  obtain u where u: "iova_release (iova_used i) 0 (ucast n) = Some u" "used_ok u"
      "\<forall>j. slab_used u j \<longleftrightarrow> \<not> in_slabs 0 (ucast n) j \<and> slab_used (iova_used i) j"
    using release_ok [OF i _ nz, of 0] nn n by auto
  have pos: "\<not> in_slabs 0 (ucast n) j" if "m p = Some x" "covers x j" for p x j
  proof -
    obtain ty k ph v where x: "x = (Place ty k ph v)" by (cases x)
    have "2097152 \<le> unat ph" using assms(1) that(1) x unfolding virt_ok_def by (metis well_placed.simps)
    then have "0 < unat ph div 2097152" by (simp add: div_greater_zero_iff)
    then have "0 < j" using that(2) x by (simp add: placement_simps in_slabs_def)
    then show ?thesis by (simp add: in_slabs_def one)
  qed
  have "iova_ok m (i\<lparr>iova_used := u\<rparr>)"
  proof (rule iova_okI)
    show "iova_inv (i\<lparr>iova_used := u\<rparr>)" using iova_okD(1) [OF assms(2)] u(2) by (simp add: iova_inv_def)
    show "slab_used (iova_used (i\<lparr>iova_used := u\<rparr>)) j" if "m p = Some x" "covers x j" for p x j
      using iova_okD(2) [OF assms(2) that] pos [OF that] u(3) by simp
  qed (rule iova_okD(3) [OF assms(2)])
  then show ?thesis using u(1) by blast
qed

lemma hash_ok_add:
  assumes "hash_ok m h" and "m p = None"
  shows "hash_ok (m(p \<mapsto> x)) (h(key_of x := p # h (key_of x)))"
  using assms by (fastforce simp: hash_ok_def)

lemma dma_ok_add:
  assumes "dma_ok m fd d" and "m p = None"
  shows "dma_ok (m(p \<mapsto> x)) fd (if fd < 0 then d else mapping_of x # d)"
  using assms by (simp add: dma_ok_def)

lemma core_invD:
  assumes "core_inv st"
  shows "virt_ok (places st)" "iova_ok (places st) (iova st)" "hash_ok (places st) (slab_hash st)"
    "dma_ok (places st) (container_fd st) (dma st)"
  using assms by (auto simp: core_inv_def core_def)

abbreviation new_slab :: "slabType \<Rightarrow> u64 \<Rightarrow> u64 \<Rightarrow> u64 \<Rightarrow> slab" where
  "new_slab ty n ph v \<equiv> \<lparr>nodeId = 0, slab_size = n, slab_type = ty, allocations = 0, phy_addr = ph, virt_addr = v, blk = zero_slab\<rparr>"

lemma new_slab_core:
  assumes inv: "core_inv st" and p: "slab_mem st p = None" "p \<noteq> 0"
    and v: "region_free (slab_mem st) v (unat n)" "v \<noteq> 0"
    and n: "0 < unat n" "unat n \<le> 67108864" "4096 dvd unat n"
    and ty: "ty = SMALL \<and> v = p \<and> n = 0x200000 \<or> ty = LARGE"
    and r: "reserved_at (iova st) (ucast n) al ph i" "align_ok al"
  shows "core ((places st)(p \<mapsto> Place ty n ph v)) i ((slab_hash st)(get_key ph := p # slab_hash st (get_key ph)))
    (container_fd st) (if container_fd st < 0 then dma st else (ph, v, n) # dma st)"
proof -
  note c = core_invD [OF inv]
  have cand: "candidate al ph" "unat ph + unat n \<le> 549755813888"
    using r(1) bytes_u32 [OF n(2)] by (auto simp: reserved_at_def can_reserve_def)
  have "0 < unat v" using v(2) by (simp add: unat_gt_0)
  then have w: "well_placed p (Place ty n ph v)"
    using n ty v(1) p(2) candidateD [OF r(2) cand(1)] cand(2) by (auto simp: placement_simps region_free_def)
  have none: "places st p = None" using p(1) by (simp add: places_def)
  have "virt_ok ((places st)(p \<mapsto> Place ty n ph v))"
    using virt_ok_add [OF c(1), of "new_slab ty n ph v" p] v(1) w by (simp add: place_def)
  then show ?thesis
    using iova_ok_add [OF c(2) r, of p ty v] hash_ok_add [OF c(3) none, of "Place ty n ph v"]
      dma_ok_add [OF c(4) none, of "Place ty n ph v"]
    unfolding core_def mapping_of.simps key_of.simps by blast
qed

text \<open>The control structure of a new slab and its memory are at free addresses.\<close>

lemma mmap_regions:
  assumes env: "env_ok m env" and n: "0 < unat n" "unat n \<le> 67108864"
    and p: "p = mmap_first env (if ty = SMALL then n else of_nat PAGE_SIZE)" and v: "v = (if ty = SMALL then p else mmap_second env n)"
    and nz: "\<not> (p = 0 \<or> v = 0)"
  shows "m p = None" "region_free m v (unat n)"
proof -
  have k: "0 < unat k \<and> unat k \<le> 67108864 \<and> mmap_first env k \<noteq> 0 \<longrightarrow> region_free m (mmap_first env k) (unat k)" for k
    using env by (simp add: env_ok_def)
  have pf: "region_free m p (if ty = SMALL then unat n else 4096)"
    using k [of n] k [of 4096] n nz by (auto simp: p)
  then show "m p = None" using region_free_new [OF pf] n(1) by (auto split: if_splits)
  show "region_free m v (unat n)" using env n nz pf by (auto simp: env_ok_def v)
qed

lemma alloc_slab_core:
  assumes inv: "core_inv st" and env: "env_ok (slab_mem st) env"
    and n: "n = round_up size_r (of_nat PAGE_SIZE)" "0 < unat n" "unat n \<le> 67108864" "4096 dvd unat n"
    and ty: "ty = SMALL \<and> n = 0x200000 \<or> ty = LARGE"
    and al: "0 < unat alignment" "unat alignment \<le> 4194304"
    and room: "unat n \<le> 2097152 \<or> (\<forall>i. allocate_iova (iova st) (ucast n) alignment \<noteq> Some (0, i))"
  obtains (fail) i where "qae_alloc_slab env size_r alignment ty st = Some (0, st\<lparr>iova := i\<rparr>)"
      "core (places st) i (slab_hash st) (container_fd st) (dma st)"
  | (ok) p ph v i h d where "qae_alloc_slab env size_r alignment ty st =
        Some (p, st\<lparr>slab_mem := (slab_mem st)(p \<mapsto> new_slab ty n ph v), slab_hash := h, iova := i, dma := d\<rparr>)"
      "core ((places st)(p \<mapsto> Place ty n ph v)) i h (container_fd st) d"
      "slab_mem st p = None" "p \<noteq> 0" "eff_align alignment dvd unat ph"
proof -
  note c = core_invD [OF inv]
  define p where "p = mmap_first env (if ty = SMALL then n else of_nat PAGE_SIZE)"
  define v where "v = (if ty = SMALL then p else mmap_second env n)"
  have nz: "(ucast n :: u32) \<noteq> 0" using n(2) bytes_u32 [OF n(3)] by auto
  have al': "unat alignment \<le> 4292870144" using al by simp
  have same: "core (places st) i (slab_hash st) (container_fd st) (dma st)" if "iova_ok (places st) i" for i
    using c that by (simp add: core_def)
  note defs = qae_alloc_slab_def ioctl_alloc_slab_def ioctl_alloc_error_def Let_def n(1) [symmetric] p_def [symmetric] v_def [symmetric]
  show ?thesis
  proof (cases "p = 0 \<or> v = 0")
    case True
    then have "qae_alloc_slab env size_r alignment ty st = Some (0, st\<lparr>iova := iova st\<rparr>)" unfolding defs by auto
    then show ?thesis using fail same c(2) by blast
  next
    case False
    then have pn: "slab_mem st p = None" and vf: "region_free (slab_mem st) v (unat n)"
      using mmap_regions [OF env n(2,3) p_def v_def] by blast+
    have ty': "ty = SMALL \<and> v = p \<and> n = 0x200000 \<or> ty = LARGE" using ty by (auto simp: v_def)
    show ?thesis
    proof (cases rule: allocate_iova_cases [OF iova_okD(1) [OF c(2)] nz al(1) al', case_names hit miss])
      case (miss a)
      then have "unat n \<le> 2097152" using room by blast
      then obtain u where u: "iova_release (iova_used (iova st)) 0 (ucast n) = Some u"
          "iova_ok (places st) ((iova st)\<lparr>iova_used := u\<rparr>)"
        using iova_ok_zero [OF c(1,2) n(2)] by blast
      have "qae_alloc_slab env size_r alignment ty st = Some (0, st\<lparr>iova := (iova st)\<lparr>iova_used := u\<rparr>\<rparr>)"
        using False miss(3) u(1) unfolding defs by simp
      then show ?thesis using fail same u(2) by blast
    next
      case (hit a ph i)
      have e: "eff_align alignment dvd unat ph" using hit(1,5) by (simp add: reserved_at_def candidate_def)
      note core' = new_slab_core [OF inv pn _ vf _ n(2-4) ty' hit(5,2)]
      show ?thesis
      proof (cases "container_fd st < 0 \<or> map_dma env ph = Map_Ok")
        case True
        let ?h = "(slab_hash st)(get_key ph := p # slab_hash st (get_key ph))"
        let ?d = "if container_fd st < 0 then dma st else (ph, v, n) # dma st"
        have "qae_alloc_slab env size_r alignment ty st =
            Some (p, st\<lparr>slab_mem := (slab_mem st)(p \<mapsto> new_slab ty n ph v), slab_hash := ?h, iova := i, dma := ?d\<rparr>)"
          using False hit(3,4) True unfolding defs by (auto simp: dma_map_slab_def add_slab_to_hash_def Let_def)
        then show ?thesis using ok [OF _ _ pn _ e] core' False by blast
      next
        case fl: False
        then have m: "map_dma env ph = Map_Failed" "\<not> container_fd st < 0"
          using env by (cases "map_dma env ph"; auto simp: env_ok_def)+
        obtain u where u: "iova_release (iova_used i) ph (ucast n) = Some u" "iova_ok (places st) (i\<lparr>iova_used := u\<rparr>)"
          using iova_ok_undo [OF c(2) hit(5,2) n(2,3)] by blast
        have "(slab_mem st)(p := None) = slab_mem st" using pn by (simp add: fun_upd_idem)
        then have "qae_alloc_slab env size_r alignment ty st = Some (0, st\<lparr>iova := i\<lparr>iova_used := u\<rparr>\<rparr>)"
          using False hit(3,4) m u(1) unfolding defs by (simp add: dma_map_slab_def Let_def)
        then show ?thesis using fail same u(2) by blast
      qed
    qed
  qed
qed

section \<open>The page table\<close>

lemma not_in_pages:
  fixes v n :: u64 and x :: u64
  assumes "4096 dvd unat v" and "unat v + n' \<le> 140737488355328" and "4096 dvd n'"
    and "unat x < unat v \<or> unat v + n' \<le> unat x"
  shows "\<not> in_pages v 0 n' x"
proof
  assume "in_pages v 0 n' x"
  then obtain m where m: "m < n'" "4096 dvd m" "drop_bit 12 x = drop_bit 12 (v + of_nat m)" by (auto simp: in_pages_def)
  have "unat (v + of_nat m) = unat v + m" using m(1) assms(2) by (intro unat_offset) simp
  then have q: "unat x div 4096 = (unat v + m) div 4096" using m(3) page_number by metis
  obtain a b c where abc: "unat v = 4096 * a" "m = 4096 * b" "n' = 4096 * c" using assms(1,3) m(2) by (auto elim!: dvdE)
  then have "unat x div 4096 = a + b" "b < c" using q m(1) by simp_all
  moreover obtain r where "unat x = unat x div 4096 * 4096 + r" "r < 4096"
    using div_mult_mod_eq [of "unat x" 4096] by (metis mod_less_divisor zero_less_numeral)
  ultimately obtain r where r: "unat x = (a + b) * 4096 + r" "r < 4096" "b + 1 \<le> c" by auto
  then have "unat x < 4096 * (a + (b + 1))" by simp
  also have "\<dots> \<le> 4096 * (a + c)" using r(3) by simp
  finally have "4096 * a \<le> unat x" "unat x < 4096 * (a + c)" using r(1) by simp_all
  then show False using assms(4) abc by auto
qed

lemma store_other:
  fixes virt phys bytes x :: u64
  assumes "depth_ok 4 t" and "unat virt + unat bytes \<le> 2 ^ 57" and "unat x < 2 ^ 57" and "\<not> in_pages virt 0 (unat bytes) x"
  shows "entry (pg_entry x) (fst (store_mmap_range (\<lambda>_. True) virt phys bytes False t k)) = entry (pg_entry x) t"
  using store_loop_ok [OF assms(1) _ assms(2), of 0] assms(3,4) by (simp add: store_mmap_range_def Let_def)

lemma store_depth:
  fixes virt phys bytes :: u64
  assumes "depth_ok 4 t" and "unat virt + unat bytes \<le> 2 ^ 57"
  shows "depth_ok 4 (fst (store_mmap_range (\<lambda>_. True) virt phys bytes False t k))"
  using store_loop_ok [OF assms(1) _ assms(2), of 0] by (simp add: store_mmap_range_def Let_def)

lemma load_cong:
  assumes "entry (pg_entry x) t \<noteq> 0" and "entry (pg_entry x) t' = entry (pg_entry x) t"
  shows "load_addr t' x = load_addr t x" "load_key t' x = load_key t x"
  using assms by (simp_all add: load_addr_entry)

lemma table_ok_add:
  assumes t: "table_ok m t" and none: "m p = None" and vo: "virt_ok (m(p \<mapsto> Place ty n ph v))"
  shows "table_ok (m(p \<mapsto> Place ty n ph v)) (fst (store_mmap_range (\<lambda>_. True) v ph n False t k))"
proof -
  let ?m = "m(p \<mapsto> Place ty n ph v)" and ?t = "fst (store_mmap_range (\<lambda>_. True) v ph n False t k)"
  have "?m p = Some (Place ty n ph v)" by simp
  then have w: "well_placed p (Place ty n ph v)" using vo unfolding virt_ok_def by blast
  have d: "depth_ok 4 t" using t by (simp add: table_ok_def)
  have lim: "unat v + unat n \<le> 2 ^ 57" using w by (simp add: placement_simps)
  have ph: "4096 dvd unat ph" "0 < unat ph" "unat ph + unat n \<le> 2 ^ 64" "4096 dvd unat v"
    using w by (auto simp: placement_simps dvd_def mod_eq_0_iff_dvd elim: dvd_trans [rotated])
  have new: "entry (pg_entry (v + of_nat off)) ?t \<noteq> 0 \<and> load_addr ?t (v + of_nat off) = ph + of_nat off \<and>
      load_key ?t (v + of_nat off) = get_key ph" if "off < unat n" for off
  proof -
    let ?x = "ph + of_nat (4096 * (off div 4096))"
    note e = range_entry [OF d lim ph(1) that ph(4)]
    have "unat ?x = unat ph + 4096 * (off div 4096)" using ph(3) that by (intro unat_offset) simp
    then have "?x \<noteq> 0" using ph(2) by auto
    then have "entry (pg_entry (v + of_nat off)) ?t \<noteq> 0"
      unfolding e(1) by (rule or_low_nonzero [OF e(2) get_key_low])
    then show ?thesis using load_after_store [OF d lim ph(1-3) that ph(4)] by blast
  qed
  have old: "entry (pg_entry (v' + of_nat off)) ?t = entry (pg_entry (v' + of_nat off)) t"
    if q: "m q = Some (Place ty' n' ph' v')" "off < unat n'" for q ty' n' ph' v' off
  proof (rule store_other [OF d lim])
    have "q \<noteq> p" using q none by auto
    then have "?m q = Some (Place ty' n' ph' v')" using q by simp
    then have "well_placed q (Place ty' n' ph' v')" "virt_apart (Place ty n ph v) (Place ty' n' ph' v')"
      using vo \<open>q \<noteq> p\<close> unfolding virt_ok_def by (blast, metis fun_upd_same)
    then have a: "unat v' + unat n' \<le> 140737488355328" "apart v (unat n) v' (unat n')" by (auto simp: placement_simps)
    then have u: "unat (v' + of_nat off) = unat v' + off" using q(2) by (intro unat_offset) simp
    then show "unat (v' + of_nat off) < 2 ^ 57" using a q(2) by simp
    show "\<not> in_pages v 0 (unat n) (v' + of_nat off)"
      using w a(2) q(2) by (intro not_in_pages) (auto simp: placement_simps apart_def u)
  qed
  show ?thesis
    unfolding table_ok_def
  proof (intro conjI allI impI)
    show "depth_ok 4 ?t" by (rule store_depth [OF d lim])
  next
    fix q ty' n' ph' v' off
    assume q: "?m q = Some (Place ty' n' ph' v') \<and> off < unat n'"
    show "entry (pg_entry (v' + of_nat off)) ?t \<noteq> 0" "load_addr ?t (v' + of_nat off) = ph' + of_nat off"
        "load_key ?t (v' + of_nat off) = get_key ph'"
      using q new old [of q ty' n' ph' v' off] load_cong [of "v' + of_nat off" t ?t] t
      by (cases "q = p"; force simp: table_ok_def)+
  qed
qed

section \<open>Blocks\<close>

definition blocks :: "block_ctrl \<Rightarrow> nat set" where
  "blocks c = {fb. fb < 2048 \<and> block_len c fb \<noteq> 0}"

lemma finite_blocks [simp]: "finite (blocks c)"
  by (simp add: blocks_def)

lemma card_blocks_le: "card (blocks c) \<le> 2048"
  using card_mono [of "{..<2048}" "blocks c"] by (auto simp: blocks_def)

abbreviation RES :: nat where "RES \<equiv> reserved_units"

text \<open>The block \<open>fb\<close> has been added.\<close>

definition block_new :: "u64 \<Rightarrow> nat \<Rightarrow> block_ctrl \<Rightarrow> nat \<Rightarrow> block_ctrl \<Rightarrow> bool" where
  "block_new bytes align c fb c' \<longleftrightarrow> slab_inv RES c' \<and> aligned_at align fb \<and> RES \<le> fb \<and>
     fb + units bytes \<le> 2048 \<and> 0 < units bytes \<and> fb \<notin> blocks c \<and> blocks c' = insert fb (blocks c) \<and>
     block_len c' = (block_len c)(fb := units bytes)"

lemma alloc_block_cases:
  assumes inv: "slab_inv RES c" and b: "bytes \<noteq> 0" "unat bytes \<le> 2 ^ 64 - 1024"
  obtains (none) "qae_mem_alloc (Some c) bytes align = (None, Some c)" "first_fit (bitmap c) (units bytes) align = None"
  | (some) fb c' where "qae_mem_alloc (Some c) bytes align = (Some (fb * UNIT_SIZE), Some c')"
      "block_new bytes align c fb c'"
proof -
  have ok: "bm_ok (bitmap c)" and len: "length (sizes c) = 2048" using inv by (auto simp: slab_inv_def)
  note eq = alloc_first_fit [OF ok b, of align]
  have pos: "0 < units bytes" by (rule units_pos [OF b(1)])
  show ?thesis
  proof (cases "first_fit (bitmap c) (units bytes) align")
    case None
    then show ?thesis using none eq by simp
  next
    case (Some fb)
    let ?c = "c\<lparr>sizes := (sizes c)[fb := of_nat (units bytes)], bitmap := set_bitmap (bitmap c) fb (units bytes)\<rparr>"
    note ff = first_fit_SomeD [OF Some pos]
    have lt: "fb < 2048" "units bytes \<le> 2048" using ff(3) pos by auto
    have eq': "qae_mem_alloc (Some c) bytes align = (Some (fb * UNIT_SIZE), Some ?c)" using eq Some by simp
    have bl: "block_len ?c = (block_len c)(fb := units bytes)"
      using block_len_upd [OF lt(1) len lt(2)] by auto
    have free: "block_len c fb = 0" by (rule block_free_at_fit [OF inv ff(2) pos])
    have res: "RES \<le> fb" using fits_unowned(1) [OF inv ff(2), of fb] pos by simp
    have "fb \<notin> blocks c" using free by (simp add: blocks_def)
    moreover have "blocks ?c = insert fb (blocks c)" using lt pos unfolding blocks_def bl by auto
    ultimately have "block_new bytes align c fb ?c"
      using alloc_inv [OF inv b eq'] ff(1,3) res pos bl unfolding block_new_def by blast
    then show ?thesis by (rule some [OF eq'])
  qed
qed

lemma free_block_cases:
  assumes inv: "slab_inv RES c" and a: "block \<noteq> 0" "unat (block - ctrl) < 2097152"
  obtains (refused) "qae_mem_free (Some c) ctrl block secure = Some (False, Some c)"
      "block mod 1024 \<noteq> 0 \<or> unat (block - ctrl) div 1024 \<notin> blocks c"
  | (freed) fb c' where "fb = unat (block - ctrl) div 1024" "qae_mem_free (Some c) ctrl block secure = Some (True, Some c')"
      "slab_inv RES c'" "fb \<in> blocks c" "blocks c' = blocks c - {fb}" "block_len c' = (block_len c)(fb := 0)"
      "block mod 1024 = 0"
proof -
  define fb where "fb = unat (block - ctrl) div 1024"
  have fb: "fb < 2048" "unat ((block - ctrl) div of_nat UNIT_SIZE) = fb"
    using a(2) by (simp_all add: fb_def UNIT_SIZE_def unat_div less_mult_imp_div_less)
  have len: "length (sizes c) = 2048" using inv by (simp add: slab_inv_def)
  show ?thesis
  proof (cases "block mod 1024 \<noteq> 0 \<or> fb \<notin> blocks c")
    case True
    then have "qae_mem_free (Some c) ctrl block secure = Some (False, Some c)"
      using a(1) fb by (auto simp: qae_mem_free_def Let_def UNIT_SIZE_def blocks_def block_len_def)
    then show ?thesis using refused True by (simp add: fb_def)
  next
    case False
    then have bl: "block_len c fb \<noteq> 0" by (simp add: blocks_def)
    have le: "fb + block_len c fb \<le> 2048" by (rule slab_inv_release(1) [OF inv fb(1) bl])
    let ?d = "if secure then qae_memzero_explicit (unat (block - ctrl)) (block_len c fb * UNIT_SIZE) (slab_data c) else slab_data c"
    let ?c = "c\<lparr>sizes := (sizes c)[fb := 0], bitmap := clear_bitmap (bitmap c) fb (block_len c fb), slab_data := ?d\<rparr>"
    have eq: "qae_mem_free (Some c) ctrl block secure = Some (True, Some ?c)"
      using a(1) fb False bl le
      by (simp add: qae_mem_free_def Let_def UNIT_SIZE_def block_len_def fb_def [symmetric] add.commute)
    have bc: "block_len ?c = (block_len c)(fb := 0)" using len fb(1) by (auto simp: block_len_def)
    then have "blocks ?c = blocks c - {fb}" unfolding blocks_def bc by auto
    then show ?thesis using freed [OF fb_def eq free_inv [OF inv eq] _ _ bc] False by blast
  qed
qed

text \<open>Preparing a slab that was used before changes nothing.\<close>

lemma init_slab_used:
  assumes "slab_inv RES c"
  shows "slab_inv RES (init_slab 0x200000 c)" "block_len (init_slab 0x200000 c) = block_len c"
proof -
  have ok: "bm_ok (bitmap c)" using assms by (simp add: slab_inv_def)
  have r: "RES = 5" by (rule reserved_units_eq)
  note upd = bm_ok_upd(1) [OF ok, of 0 5] bm_ok_bits(1) [OF ok, of 0 5]
  have "(set_bitmap (bitmap c) 0 5)[32 := QWORD_ALL_ONE] = set_bitmap (bitmap c) 0 5"
    using upd(1) list_update_id [of "set_bitmap (bitmap c) 0 5" 32] by (simp add: bm_ok_def)
  then have eq: "init_slab 0x200000 c = c\<lparr>bitmap := set_bitmap (bitmap c) 0 5\<rparr>"
    by (simp add: init_slab_def Let_def UNIT_SIZE_def r)
  show "block_len (init_slab 0x200000 c) = block_len c" unfolding eq by (auto simp: block_len_def)
  then have "owns (init_slab 0x200000 c) = owns c" by (intro ext) (simp add: owns_def)
  then show "slab_inv RES (init_slab 0x200000 c)"
    using assms upd unfolding slab_inv_def eq r by auto
qed

lemma blocks_init [simp]: "slab_inv RES c \<Longrightarrow> blocks (init_slab 0x200000 c) = blocks c"
  using init_slab_used(2) by (simp add: blocks_def)

lemma fresh_slab_blocks: "blocks fresh_slab = {}" "slab_inv RES fresh_slab"
  using init_slab_inv by (auto simp: blocks_def block_len_def init_slab_def zero_slab_def Let_def)

section \<open>Lists\<close>

text \<open>Small slabs count their blocks; those in use have some, those in the cache have none.\<close>

definition counted_slab :: "slab \<Rightarrow> bool" where
  "counted_slab s \<longleftrightarrow> slab_type s = SMALL \<and> slab_inv RES (blk s) \<and> unat (allocations s) = card (blocks (blk s))"

definition in_use :: "slab \<Rightarrow> bool" where
  "in_use s \<longleftrightarrow> counted_slab s \<and> blocks (blk s) \<noteq> {}"

definition cached :: "slab \<Rightarrow> bool" where
  "cached s \<longleftrightarrow> counted_slab s \<and> blocks (blk s) = {}"

definition all_slabs :: "(u64 \<Rightarrow> slab option) \<Rightarrow> u64 list \<Rightarrow> (slab \<Rightarrow> bool) \<Rightarrow> bool" where
  "all_slabs m ps P \<longleftrightarrow> (\<forall>p \<in> set ps. \<exists>s. m p = Some s \<and> P s)"

definition lists_ok :: "(u64 \<Rightarrow> slab option) \<Rightarrow> u64 list \<Rightarrow> u64 list \<Rightarrow> u64 list \<Rightarrow> u64 \<Rightarrow> bool" where
  "lists_ok m ml ll cl cs \<longleftrightarrow> distinct (ml @ ll @ cl) \<and> dom m = set (ml @ ll @ cl) \<and>
     all_slabs m ml in_use \<and> all_slabs m ll (\<lambda>s. slab_type s = LARGE) \<and> all_slabs m cl cached \<and>
     cs = of_nat (2097152 * length cl) \<and> length cl \<le> 4"

abbreviation list_inv :: "usdm \<Rightarrow> bool" where
  "list_inv st \<equiv> lists_ok (slab_mem st) (mem_list st) (large_list st) (cache_list st) (cache_size st)"

lemma all_slabs_frame: "all_slabs m ps P \<Longrightarrow> q \<notin> set ps \<Longrightarrow> all_slabs (m(q := x)) ps P"
  by (auto simp: all_slabs_def)

lemma lists_ok_update:
  assumes "lists_ok m ml ll cl cs" and "p \<in> set ml" and "in_use s"
  shows "lists_ok (m(p \<mapsto> s)) ml ll cl cs"
proof -
  have "p \<notin> set ll" "p \<notin> set cl" "dom (m(p \<mapsto> s)) = dom m" using assms(1,2) by (auto simp: lists_ok_def)
  moreover have "all_slabs (m(p \<mapsto> s)) ml in_use" using assms by (auto simp: lists_ok_def all_slabs_def)
  ultimately show ?thesis using assms(1) by (auto simp: lists_ok_def all_slabs_frame)
qed

lemma lists_ok_new:
  assumes "lists_ok m ml ll cl cs" and "m p = None"
  shows "in_use s \<Longrightarrow> lists_ok (m(p \<mapsto> s)) (p # ml) ll cl cs"
    "slab_type s = LARGE \<Longrightarrow> lists_ok (m(p \<mapsto> s)) ml (p # ll) cl cs"
proof -
  have p: "p \<notin> set ml" "p \<notin> set ll" "p \<notin> set cl" using assms by (auto simp: lists_ok_def)
  show "in_use s \<Longrightarrow> lists_ok (m(p \<mapsto> s)) (p # ml) ll cl cs"
    "slab_type s = LARGE \<Longrightarrow> lists_ok (m(p \<mapsto> s)) ml (p # ll) cl cs"
    using assms(1) p by (auto simp: lists_ok_def all_slabs_def)
qed

text \<open>A slab taken from the cache: popped, and then in use or unmapped.\<close>

lemma cache_words:
  assumes "length cl \<le> 4"
  shows "unat (of_nat (2097152 * length cl) :: u64) = 2097152 * length cl"
  using assms by (simp only: unat_of_nat) simp

lemma lists_ok_pop:
  assumes "lists_ok m ml ll cl cs" and "p \<in> set cl"
  shows "in_use s \<Longrightarrow> lists_ok (m(p \<mapsto> s)) (p # ml) ll (remove1 p cl) (cs - 0x200000)"
    "lists_ok (m(p := None)) ml ll (remove1 p cl) (cs - 0x200000)"
proof -
  have d: "distinct cl" "p \<notin> set ml" "p \<notin> set ll" "length cl \<le> 4" using assms by (auto simp: lists_ok_def)
  obtain k where k: "length cl = Suc k" using assms(2) by (cases cl) auto
  have len: "length (remove1 p cl) = k" using assms(2) k by (simp add: length_remove1)
  have cs: "cs - 0x200000 = of_nat (2097152 * length (remove1 p cl))"
    using assms(1) k by (simp add: lists_ok_def len algebra_simps)
  show "in_use s \<Longrightarrow> lists_ok (m(p \<mapsto> s)) (p # ml) ll (remove1 p cl) (cs - 0x200000)"
    "lists_ok (m(p := None)) ml ll (remove1 p cl) (cs - 0x200000)"
    using assms d cs len k by (auto simp: lists_ok_def all_slabs_def set_remove1_eq)
qed

text \<open>A slab without blocks leaves the list of slabs in use: for the cache, or unmapped.\<close>

lemma lists_ok_empty:
  assumes "lists_ok m ml ll cl cs" and "p \<in> set ml"
  shows "cached s \<Longrightarrow> cs + 0x200000 \<le> g_max_cache \<Longrightarrow>
      lists_ok (m(p \<mapsto> s)) (remove1 p ml) ll (p # cl) (cs + 0x200000)"
    "lists_ok (m(p := None)) (remove1 p ml) ll cl cs"
proof -
  have d: "distinct ml" "p \<notin> set cl" "p \<notin> set ll" "length cl \<le> 4" "cs = of_nat (2097152 * length cl)"
    using assms by (auto simp: lists_ok_def)
  have "length cl < 4" if "cs + 0x200000 \<le> g_max_cache"
  proof -
    have "unat (cs + 0x200000) = 2097152 * length cl + 2097152"
      using cache_words [OF d(4)] d(4) by (simp add: d(5) unat_word_ariths)
    then show ?thesis using that by (simp add: word_le_nat_alt g_max_cache_def)
  qed
  then show "cached s \<Longrightarrow> cs + 0x200000 \<le> g_max_cache \<Longrightarrow>
      lists_ok (m(p \<mapsto> s)) (remove1 p ml) ll (p # cl) (cs + 0x200000)"
    using assms d by (auto simp: lists_ok_def all_slabs_def set_remove1_eq)
  show "lists_ok (m(p := None)) (remove1 p ml) ll cl cs"
    using assms d by (auto simp: lists_ok_def all_slabs_def set_remove1_eq)
qed

lemma lists_ok_large:
  assumes "lists_ok m ml ll cl cs" and "p \<in> set ll"
  shows "lists_ok (m(p := None)) ml (remove1 p ll) cl cs"
  using assms by (auto simp: lists_ok_def all_slabs_def set_remove1_eq)

section \<open>Live memory\<close>

text \<open>The allocations of a slab: its blocks, or all of it when it is large.\<close>

definition slab_live :: "u64 \<Rightarrow> slab \<Rightarrow> (u64 \<times> nat) set" where
  "slab_live p s =
     (if slab_type s = SMALL then (\<lambda>fb. (p + of_nat (fb * 1024), block_len (blk s) fb * 1024)) ` blocks (blk s)
      else {(virt_addr s, unat (slab_size s))})"

definition live_in :: "(u64 \<Rightarrow> slab option) \<Rightarrow> (u64 \<times> nat) set" where
  "live_in m = {x. \<exists>p s. m p = Some s \<and> x \<in> slab_live p s}"

abbreviation live :: "usdm \<Rightarrow> (u64 \<times> nat) set" where
  "live st \<equiv> live_in (slab_mem st)"

definition live_rest :: "(u64 \<Rightarrow> slab option) \<Rightarrow> u64 \<Rightarrow> (u64 \<times> nat) set" where
  "live_rest m p = {x. \<exists>q s. q \<noteq> p \<and> m q = Some s \<and> x \<in> slab_live q s}"

lemma live_upd:
  "live_in (m(p \<mapsto> s)) = slab_live p s \<union> live_rest m p" "live_in (m(p := None)) = live_rest m p"
  by (auto simp: live_in_def live_rest_def)

lemma live_at:
  "m p = Some s \<Longrightarrow> live_in m = slab_live p s \<union> live_rest m p" "m p = None \<Longrightarrow> live_in m = live_rest m p"
  using live_upd(1) [of m p s] live_upd(2) [of m p] by (simp_all add: fun_upd_idem)

lemma live_new: "m p = None \<Longrightarrow> live_in (m(p \<mapsto> s)) = slab_live p s \<union> live_in m"
  using live_upd(1) live_at(2) [of m p] by simp

lemma live_drop: "m p = Some s \<Longrightarrow> slab_live p s = {} \<Longrightarrow> live_in (m(p := None)) = live_in m"
  using live_upd(2) live_at(1) [of m p s] by simp

lemma live_update:
  "m p = Some s \<Longrightarrow> slab_live p s' = insert x (slab_live p s) \<Longrightarrow> live_in (m(p \<mapsto> s')) = insert x (live_in m)"
  using live_upd(1) [of m p s'] live_at(1) [of m p s] by simp

lemma live_same: "m p = Some s \<Longrightarrow> slab_live p s' = slab_live p s \<Longrightarrow> live_in (m(p \<mapsto> s')) = live_in m"
  using live_upd(1) [of m p s'] live_at(1) [of m p s] by simp

lemma live_remove:
  assumes "m p = Some s" and "slab_live p s' = slab_live p s - {x}"
    and "\<And>q t. m q = Some t \<Longrightarrow> q \<noteq> p \<Longrightarrow> x \<notin> slab_live q t"
  shows "live_in (m(p \<mapsto> s')) = live_in m - {x}"
proof -
  have "x \<notin> live_rest m p" using assms(3) unfolding live_rest_def by blast
  then show ?thesis using live_upd(1) [of m p s'] live_at(1) [of m p s] assms(1,2) by auto
qed

lemma live_unmap:
  assumes "m p = Some s" and "slab_live p s = {x}" and "\<And>q t. m q = Some t \<Longrightarrow> q \<noteq> p \<Longrightarrow> x \<notin> slab_live q t"
  shows "live_in (m(p := None)) = live_in m - {x}"
proof -
  have "x \<notin> live_rest m p" using assms(3) unfolding live_rest_def by blast
  then show ?thesis using live_upd(2) [of m p] live_at(1) [of m p s] assms(1,2) by auto
qed

lemma slab_live_cong [simp]:
  "slab_live p (s\<lparr>allocations := k\<rparr>) = slab_live p s"
  by (simp add: slab_live_def)

lemma block_new_live:
  assumes "block_new bytes align c fb c'" and "slab_type s = SMALL" "block_len (blk s) = block_len c" "blocks (blk s) = blocks c"
  shows "slab_live p (s\<lparr>blk := c'\<rparr>) = insert (p + of_nat (fb * 1024), units bytes * 1024) (slab_live p s)"
  using assms by (auto simp: slab_live_def block_new_def intro!: image_cong)

section \<open>The invariant\<close>

definition idle :: "usdm \<Rightarrow> bool" where
  "idle st \<longleftrightarrow> slab_mem st = Map.empty"

definition usdm_inv :: "int \<Rightarrow> usdm \<Rightarrow> bool" where
  "usdm_inv pid st \<longleftrightarrow> core_inv st \<and> table_ok (places st) (ptable st) \<and> list_inv st \<and>
     (proc_pid st = pid \<or> idle st) \<and> (container_pid st = pid \<or> container_fd st < 0)"

lemma list_inv_slab:
  assumes "list_inv st" and "slab_mem st p = Some s"
  obtains (used) "p \<in> set (mem_list st)" "in_use s"
  | (large) "p \<in> set (large_list st)" "slab_type s = LARGE"
  | (cache) "p \<in> set (cache_list st)" "cached s"
proof -
  have "p \<in> set (mem_list st @ large_list st @ cache_list st)" using assms by (auto simp: lists_ok_def)
  then show ?thesis
    using assms used large cache unfolding lists_ok_def all_slabs_def by fastforce
qed

lemma list_inv_small:
  assumes "list_inv st" and "slab_mem st p = Some s" and "slab_type s = SMALL"
  shows "counted_slab s"
  using assms by (cases rule: list_inv_slab [OF assms(1,2)]) (auto simp: in_use_def cached_def)

lemma core_placed:
  assumes "core_inv st" and "slab_mem st p = Some s"
  shows "well_placed p (place s)"
  using assms by (auto simp: core_inv_def core_def virt_ok_def places_def)

lemma core_small:
  assumes "core_inv st" and "slab_mem st p = Some s" and "slab_type s = SMALL"
  shows "slab_size s = 0x200000" "virt_addr s = p" "p \<noteq> 0" "unat p + 2097152 \<le> 140737488355328" "4096 dvd unat p"
  using core_placed [OF assms(1,2)] assms(3) by (auto simp: place_def placement_simps)

text \<open>Where the allocations of a slab are.\<close>

lemma block_addr:
  fixes p :: u64
  assumes "unat p + 2097152 \<le> 140737488355328" and "fb \<le> 2048"
  shows "unat (p + of_nat (fb * 1024)) = unat p + fb * 1024"
  using assms by (intro unat_offset) simp

lemma slab_live_range:
  assumes "core_inv st" and "list_inv st" and "slab_mem st p = Some s" and "(a, n) \<in> slab_live p s"
  shows "unat (virt_addr s) \<le> unat a" "unat a + n \<le> unat (virt_addr s) + unat (slab_size s)" "0 < n"
proof -
  have "unat (virt_addr s) \<le> unat a \<and> unat a + n \<le> unat (virt_addr s) + unat (slab_size s) \<and> 0 < n"
  proof (cases "slab_type s = SMALL")
    case True
    note sm = core_small [OF assms(1,3) True]
    have inv: "slab_inv RES (blk s)" using list_inv_small [OF assms(2,3) True] by (simp add: counted_slab_def)
    obtain fb where fb: "fb < 2048" "block_len (blk s) fb \<noteq> 0" "a = p + of_nat (fb * 1024)" "n = block_len (blk s) fb * 1024"
      using assms(4) True by (auto simp: slab_live_def blocks_def)
    have "fb + block_len (blk s) fb \<le> 2048" by (rule slab_inv_release(1) [OF inv fb(1,2)])
    moreover have "unat a = unat p + fb * 1024" unfolding fb(3) by (rule block_addr [OF sm(4)]) (use fb in simp)
    ultimately show ?thesis using sm(1,2) fb(2,4) by simp
  next
    case False
    then show ?thesis using assms(4) core_placed [OF assms(1,3)] by (auto simp: slab_live_def place_def placement_simps)
  qed
  then show "unat (virt_addr s) \<le> unat a" "unat a + n \<le> unat (virt_addr s) + unat (slab_size s)" "0 < n" by auto
qed

lemma slabs_apart:
  assumes "core_inv st" and "slab_mem st p = Some s" and "slab_mem st q = Some t" and "p \<noteq> q"
  shows "apart (virt_addr s) (unat (slab_size s)) (virt_addr t) (unat (slab_size t))"
proof -
  have "virt_apart (place s) (place t)"
    using core_invD(1) [OF assms(1)] assms(2-4) unfolding virt_ok_def places_def by (metis option.simps(9))
  then show ?thesis by (simp add: place_def)
qed

lemma live_other:
  assumes "core_inv st" and "list_inv st" and "slab_mem st p = Some s" and "x \<in> slab_live p s"
    and "slab_mem st q = Some t" and "q \<noteq> p"
  shows "x \<notin> slab_live q t"
proof
  assume x: "x \<in> slab_live q t"
  obtain a n where an: "x = (a, n)" by fastforce
  note r = slab_live_range [OF assms(1-3), of a n] slab_live_range [OF assms(1,2,5), of a n]
  show False
    using slabs_apart [OF assms(1,3,5)] assms(4,6) x r unfolding an apart_def by force
qed

lemma live_apart:
  assumes "core_inv st" and "list_inv st" and "(a, n) \<in> live st" and "(b, m) \<in> live st" and "(a, n) \<noteq> (b, m)"
  shows "apart a n b m"
proof -
  obtain p s q t where ps: "slab_mem st p = Some s" "(a, n) \<in> slab_live p s" "slab_mem st q = Some t" "(b, m) \<in> slab_live q t"
    using assms(3,4) by (auto simp: live_in_def)
  note r = slab_live_range [OF assms(1,2) ps(1,2)] slab_live_range [OF assms(1,2) ps(3,4)]
  show ?thesis
  proof (cases "p = q")
    case False
    then show ?thesis using slabs_apart [OF assms(1) ps(1,3)] r unfolding apart_def by linarith
  next
    case True
    then have st: "t = s" using ps by simp
    then have "slab_type s = SMALL" using ps(2,4) assms(5) True by (auto simp: slab_live_def split: if_splits)
    note sm = core_small [OF assms(1) ps(1) this] and cs = list_inv_small [OF assms(2) ps(1) this]
    have inv: "slab_inv RES (blk s)" using cs by (simp add: counted_slab_def)
    obtain f where f: "f < 2048" "block_len (blk s) f \<noteq> 0" "a = p + of_nat (f * 1024)" "n = block_len (blk s) f * 1024"
      using ps(2) \<open>slab_type s = SMALL\<close> by (auto simp: slab_live_def blocks_def)
    obtain g where g: "g < 2048" "block_len (blk s) g \<noteq> 0" "b = p + of_nat (g * 1024)" "m = block_len (blk s) g * 1024"
      using ps(4) \<open>slab_type s = SMALL\<close> True st by (auto simp: slab_live_def blocks_def)
    have "f \<noteq> g" using assms(5) f g by auto
    then have "f + block_len (blk s) f \<le> g \<or> g + block_len (blk s) g \<le> f"
    proof -
      have "\<not> (owns (blk s) f i \<and> owns (blk s) g i)" for i using inv \<open>f \<noteq> g\<close> unfolding slab_inv_def by blast
      from this [of "max f g"] show ?thesis using f(1,2) g(1,2) by (auto simp: owns_def max_def split: if_splits)
    qed
    moreover have "unat a = unat p + f * 1024" "unat b = unat p + g * 1024"
      unfolding f(3) g(3) by (rule block_addr [OF sm(4)]; use f g in simp)+
    ultimately show ?thesis unfolding apart_def f(4) g(4) by (auto simp: algebra_simps)
  qed
qed

text \<open>The translation of an allocation.\<close>

lemma slab_translate:
  assumes "table_ok (places st) (ptable st)" and "core_inv st" and "slab_mem st p = Some s"
    and "unat (virt_addr s) \<le> unat x" "unat x < unat (virt_addr s) + unat (slab_size s)"
  shows "qaeVirtToPhysNUMA st x = phy_addr s + (x - virt_addr s)" "load_key (ptable st) x = get_key (phy_addr s)"
proof -
  define off where "off = unat x - unat (virt_addr s)"
  have "unat x = unat (virt_addr s) + off" using assms(4) by (simp add: off_def)
  then have x: "x = virt_addr s + of_nat off" by (metis of_nat_add of_nat_unat ucast_id)
  have "places st p = Some (Place (slab_type s) (slab_size s) (phy_addr s) (virt_addr s))"
    using assms(3) by (simp add: places_def place_def)
  moreover have "off < unat (slab_size s)" using assms(4,5) by (simp add: off_def)
  ultimately have "load_addr (ptable st) x = phy_addr s + of_nat off \<and> load_key (ptable st) x = get_key (phy_addr s)"
    using assms(1) unfolding table_ok_def x by blast
  then show "qaeVirtToPhysNUMA st x = phy_addr s + (x - virt_addr s)" "load_key (ptable st) x = get_key (phy_addr s)"
    unfolding qaeVirtToPhysNUMA_def by (simp_all add: x)
qed

end
