(* ===== verification/Usdm_Mem_Alloc.thy ===== *)
theory Usdm_Mem_Alloc
  imports Usdm_Mem_Inv
begin

text \<open>
  Allocation keeps the invariant: the search through the slabs in use and the cache, a new small slab,
  a new large slab.  \<open>alloc_addr_spec\<close> puts the branches of \<open>__qae_alloc_addr\<close> together.
\<close>

section \<open>Finding a slab\<close>

definition slabs_inv :: "usdm \<Rightarrow> bool" where
  "slabs_inv st \<longleftrightarrow> core_inv st \<and> table_ok (places st) (ptable st) \<and> list_inv st"

text \<open>What an operation leaves alone: the slabs that hold allocations, the process and the container.\<close>

definition keeps :: "usdm \<Rightarrow> usdm \<Rightarrow> bool" where
  "keeps st st' \<longleftrightarrow> (\<forall>p s. slab_mem st p = Some s \<and> slab_live p s \<noteq> {} \<longrightarrow> places st' p = Some (place s)) \<and>
     proc_pid st' = proc_pid st \<and> container_pid st' = container_pid st \<and> container_fd st' = container_fd st"

abbreviation good_size :: "u64 \<Rightarrow> bool" where
  "good_size bytes \<equiv> bytes \<noteq> 0 \<and> unat bytes \<le> 67108864"

lemma slabs_invD:
  assumes "slabs_inv st"
  shows "core_inv st" "table_ok (places st) (ptable st)" "list_inv st"
  using assms by (auto simp: slabs_inv_def)

lemma lookup_cases:
  "core_inv st \<Longrightarrow> all_slabs (slab_mem st) ps in_use \<Longrightarrow> good_size bytes \<Longrightarrow>
   lookup_loop k ps bytes node align st = Some (0, 0, st) \<or>
   (\<exists>p s fb c'. lookup_loop k ps bytes node align st = Some (p, p + of_nat (fb * 1024), set_slab p (s\<lparr>blk := c'\<rparr>) st) \<and>
      p \<in> set ps \<and> slab_mem st p = Some s \<and> in_use s \<and> block_new bytes align (blk s) fb c')"
proof (induction ps arbitrary: k)
  case (Cons p ps)
  obtain s where s: "slab_mem st p = Some s" "in_use s" using Cons.prems(2) by (auto simp: all_slabs_def)
  have inv: "slab_inv RES (blk s)" using s(2) by (simp add: in_use_def counted_slab_def)
  have b: "bytes \<noteq> 0" "unat bytes \<le> 2 ^ 64 - 1024" using Cons.prems(3) by auto
  have IH: "lookup_loop k' ps bytes node align st = Some (0, 0, st) \<or>
      (\<exists>p s fb c'. lookup_loop k' ps bytes node align st = Some (p, p + of_nat (fb * 1024), set_slab p (s\<lparr>blk := c'\<rparr>) st) \<and>
        p \<in> set ps \<and> slab_mem st p = Some s \<and> in_use s \<and> block_new bytes align (blk s) fb c')" for k'
    using Cons by (auto simp: all_slabs_def)
  show ?case
  proof (cases "strict_node st \<and> nodeId s \<noteq> node")
    case True
    then have "lookup_loop k (p # ps) bytes node align st = lookup_loop k ps bytes node align st" using s(1) by simp
    then show ?thesis using IH [of k] by fastforce
  next
    case False
    show ?thesis
    proof (cases rule: alloc_block_cases [OF inv b, of align, case_names none some])
      case none
      then have "lookup_loop k (p # ps) bytes node align st =
          (if Suc k \<ge> g_max_lookup_num then Some (0, 0, st) else lookup_loop (Suc k) ps bytes node align st)"
        using False s(1) by auto
      then show ?thesis using IH [of "Suc k"] by (simp only:) (fastforce split: if_split)
    next
      case (some fb c')
      then have "lookup_loop k (p # ps) bytes node align st = Some (p, p + of_nat (fb * 1024), set_slab p (s\<lparr>blk := c'\<rparr>) st)"
        using False s(1) by (auto simp: UNIT_SIZE_def)
      then show ?thesis using some(2) s by fastforce
    qed
  qed
qed simp

lemma pop_loop_cases:
  "all_slabs (slab_mem st) ps P \<Longrightarrow>
   pop_loop node ps st = Some 0 \<or> (\<exists>q s. pop_loop node ps st = Some q \<and> q \<in> set ps \<and> slab_mem st q = Some s \<and> P s)"
  by (induction ps) (fastforce simp: all_slabs_def)+

lemma pop_cases:
  assumes "core_inv st" and "list_inv st"
  shows "pop_slab node st = Some (0, st) \<or>
    (\<exists>q s. pop_slab node st = Some (q, st\<lparr>cache_size := cache_size st - 0x200000, cache_list := remove1 q (cache_list st)\<rparr>) \<and>
      q \<in> set (cache_list st) \<and> slab_mem st q = Some s \<and> cached s)"
proof -
  have "all_slabs (slab_mem st) (cache_list st) cached" using assms(2) by (simp add: lists_ok_def)
  from pop_loop_cases [OF this, of node] consider "pop_loop node (cache_list st) st = Some 0"
    | q s where "pop_loop node (cache_list st) st = Some q" "q \<in> set (cache_list st)" "slab_mem st q = Some s" "cached s"
    by blast
  then show ?thesis
  proof cases
    case 2
    have sm: "slab_type s = SMALL" using 2(4) by (simp add: cached_def counted_slab_def)
    note c = core_small [OF assms(1) 2(3) sm]
    then have "pop_slab node st = Some (q, st\<lparr>cache_size := cache_size st - 0x200000, cache_list := remove1 q (cache_list st)\<rparr>)"
      using 2(1,3) by (simp add: pop_slab_def)
    then show ?thesis using 2 by blast
  qed (simp add: pop_slab_def)
qed

lemma init_alloc_cases:
  assumes s: "slab_mem st q = Some s" "slab_size s = 0x200000" "slab_inv RES (init_slab 0x200000 (blk s))"
    and b: "good_size bytes" and q: "q \<noteq> 0" "unat q + 2097152 \<le> 140737488355328"
  shows "init_slab_and_alloc q bytes align st = Some (0, set_slab q (s\<lparr>blk := init_slab 0x200000 (blk s)\<rparr>) st) \<and>
      first_fit (bitmap (init_slab 0x200000 (blk s))) (units bytes) align = None \<or>
    (\<exists>fb c'. init_slab_and_alloc q bytes align st =
        Some (q + of_nat (fb * 1024), (set_slab q (s\<lparr>blk := c'\<rparr>) st)\<lparr>mem_list := q # mem_list st\<rparr>) \<and>
      q + of_nat (fb * 1024) \<noteq> 0 \<and> block_new bytes align (init_slab 0x200000 (blk s)) fb c')"
proof -
  have b': "bytes \<noteq> 0" "unat bytes \<le> 2 ^ 64 - 1024" using b by auto
  have sz: "unat (slab_size s) = 0x200000" using s(2) by simp
  show ?thesis
  proof (cases rule: alloc_block_cases [OF s(3) b', of align, case_names none some])
    case none
    then show ?thesis using s(1) sz by (simp add: init_slab_and_alloc_def Let_def)
  next
    case (some fb c')
    have "fb \<le> 2048" using some(2) by (simp add: block_new_def)
    then have "unat (q + of_nat (fb * 1024)) = unat q + fb * 1024" by (rule block_addr [OF q(2)])
    moreover have "0 < unat q" using q(1) by (simp add: unat_gt_0)
    ultimately have "q + of_nat (fb * 1024) \<noteq> 0" by (metis add_is_0 less_not_refl unat_0)
    moreover have "init_slab_and_alloc q bytes align st =
        Some (q + of_nat (fb * 1024), (set_slab q (s\<lparr>blk := c'\<rparr>) st)\<lparr>mem_list := q # mem_list st\<rparr>)"
      using some(1) s(1) sz by (simp add: init_slab_and_alloc_def Let_def UNIT_SIZE_def set_slab_def)
    ultimately show ?thesis using some(2) by blast
  qed
qed

text \<open>A block added to a slab, with its count: the slab is in use.\<close>

lemma block_new_counted:
  assumes "block_new bytes align c fb c'" and "unat (allocations s) = card (blocks c)" and "slab_type s = SMALL"
    and "s' = s\<lparr>blk := c', allocations := allocations s + 1\<rparr>"
  shows "in_use s'"
proof -
  have "card (blocks c') = Suc (card (blocks c))" using assms(1) by (simp add: block_new_def)
  moreover have "card (blocks c') \<le> 2048" by (rule card_blocks_le)
  ultimately have "unat (allocations s + 1) = card (blocks c')" using assms(2) by (simp add: unat_word_ariths)
  then show ?thesis using assms by (auto simp: in_use_def counted_slab_def block_new_def)
qed

lemma same_core:
  assumes "core_inv st" and "slab_mem st p = Some s" and "place s' = place s"
  shows "places (set_slab p s' st) = places st" "core_inv (set_slab p s' st)"
proof -
  have "places st p = Some (place s)" using assms(2) by (simp add: places_def)
  then show e: "places (set_slab p s' st) = places st" using assms(3) by (auto simp: places_set_slab)
  show "core_inv (set_slab p s' st)" using assms(1) e by (simp add: core_inv_def) (simp add: set_slab_def)
qed

text \<open>A new allocation in a small slab.\<close>

text \<open>A block of the size and alignment asked for has a place in a small slab.\<close>

definition fits :: "u64 \<Rightarrow> nat \<Rightarrow> bool" where
  "fits bytes align \<longleftrightarrow> (\<exists>fb. aligned_at align fb \<and> RES \<le> fb \<and> fb + units bytes \<le> 2048)"

definition block_added :: "u64 \<Rightarrow> nat \<Rightarrow> usdm \<Rightarrow> u64 \<Rightarrow> nat \<Rightarrow> usdm \<Rightarrow> bool" where
  "block_added bytes align st p fb st' \<longleftrightarrow> slabs_inv st' \<and> keeps st st' \<and> aligned_at align fb \<and> fb < 2048 \<and> fits bytes align \<and>
     (\<exists>s. slab_mem st' p = Some s \<and> slab_type s = SMALL) \<and>
     live st' = insert (p + of_nat (fb * 1024), units bytes * 1024) (live st) \<and>
     (p + of_nat (fb * 1024), units bytes * 1024) \<notin> live st"

lemma block_new_fits: "block_new bytes align c fb c' \<Longrightarrow> fits bytes align"
  by (auto simp: block_new_def fits_def)

lemma block_not_live:
  assumes "block_new bytes align c fb c'" and "blocks (blk s) = blocks c" and "slab_type s = SMALL"
  shows "(p + of_nat (fb * 1024), n) \<notin> slab_live p s"
proof
  assume "(p + of_nat (fb * 1024), n) \<in> slab_live p s"
  then obtain g where g: "g \<in> blocks c" "p + of_nat (fb * 1024) = p + (of_nat (g * 1024) :: u64)"
    using assms(2,3) by (auto simp: slab_live_def)
  have "g \<le> 2048" "fb \<le> 2048" using g(1) assms(1) by (auto simp: blocks_def block_new_def)
  then have "unat (of_nat (g * 1024) :: u64) = g * 1024" "unat (of_nat (fb * 1024) :: u64) = fb * 1024"
    by (simp_all only: unat_of_nat) simp_all
  then have "g = fb" using g(2) by (metis add_left_cancel mult_cancel2 zero_neq_numeral)
  then show False using g(1) assms(1) by (simp add: block_new_def)
qed

lemma live_fresh:
  assumes "core_inv st'" "list_inv st'" "slab_mem st' p = Some s'" "x \<in> slab_live p s'"
    and "\<And>q t. q \<noteq> p \<Longrightarrow> slab_mem st q = Some t \<Longrightarrow> slab_mem st' q = Some t"
    and "\<And>s. slab_mem st p = Some s \<Longrightarrow> x \<notin> slab_live p s"
  shows "x \<notin> live st"
proof
  assume "x \<in> live st"
  then obtain q t where q: "slab_mem st q = Some t" "x \<in> slab_live q t" by (auto simp: live_in_def)
  then have "q \<noteq> p" using assms(6) by blast
  then show False using live_other [OF assms(1-4) assms(5) [OF _ q(1)]] q(2) by blast
qed

lemma keeps_places: "places st' = places st \<Longrightarrow> proc_pid st' = proc_pid st \<Longrightarrow>
    container_pid st' = container_pid st \<Longrightarrow> container_fd st' = container_fd st \<Longrightarrow> keeps st st'"
  by (auto simp: keeps_def places_def)

lemma slab_fields [simp]:
  "slab_mem (set_slab p s st) = (slab_mem st)(p \<mapsto> s)" "mem_list (set_slab p s st) = mem_list st"
  "large_list (set_slab p s st) = large_list st" "cache_list (set_slab p s st) = cache_list st"
  "slab_hash (set_slab p s st) = slab_hash st" "ptable (set_slab p s st) = ptable st"
  "iova (set_slab p s st) = iova st" "cache_size (set_slab p s st) = cache_size st"
  "proc_pid (set_slab p s st) = proc_pid st" "container_fd (set_slab p s st) = container_fd st"
  "container_pid (set_slab p s st) = container_pid st" "dma (set_slab p s st) = dma st"
  "strict_node (set_slab p s st) = strict_node st"
  by (simp_all add: set_slab_def)

text \<open>The core only depends on the places of slabs.\<close>

lemma core_inv_cong:
  assumes "places st' = places st" "iova st' = iova st" "slab_hash st' = slab_hash st"
    "container_fd st' = container_fd st" "dma st' = dma st"
  shows "core_inv st' = core_inv st"
  using assms by (simp add: core_inv_def)

lemma block_added_intro:
  assumes inv: "slabs_inv st" and s: "slab_mem st p = Some s" "counted_slab s"
    and c: "block_new bytes align c fb c'" "block_len (blk s) = block_len c" "blocks (blk s) = blocks c"
    and s': "s' = s\<lparr>blk := c', allocations := allocations s + 1\<rparr>"
    and st': "slab_mem st' = (slab_mem st)(p \<mapsto> s')" "iova st' = iova st" "slab_hash st' = slab_hash st"
      "container_fd st' = container_fd st" "dma st' = dma st" "ptable st' = ptable st" "proc_pid st' = proc_pid st"
      "container_pid st' = container_pid st"
    and l: "in_use s' \<Longrightarrow> list_inv st'"
  shows "block_added bytes align st p fb st'"
proof -
  note i = slabs_invD [OF inv]
  have sm: "slab_type s = SMALL" "unat (allocations s) = card (blocks c)" using s(2) c(3) by (auto simp: counted_slab_def)
  have use: "in_use s'" by (rule block_new_counted [OF c(1) sm(2,1) s'])
  have pl: "places st' = places st" using s(1) st'(1) s' by (auto simp: places_def place_def)
  have inv': "slabs_inv st'"
    using i l [OF use] pl core_inv_cong [OF pl st'(2-5)] st'(6) by (simp add: slabs_inv_def)
  let ?x = "(p + of_nat (fb * 1024), units bytes * 1024)"
  have sl: "slab_live p s' = insert ?x (slab_live p s)"
    using block_new_live [OF c(1), of "s\<lparr>allocations := allocations s + 1\<rparr>" p] sm c(2,3) s' by (simp add: slab_live_def)
  have "?x \<notin> live st"
  proof (rule live_fresh [where st' = st' and p = p and s' = s'])
    show "slab_mem st' p = Some s'" "?x \<in> slab_live p s'" using st'(1) sl by simp_all
    show "core_inv st'" "list_inv st'" using slabs_invD [OF inv'] by simp_all
    show "?x \<notin> slab_live p t" if "slab_mem st p = Some t" for t
      using block_not_live [OF c(1,3) sm(1)] that s(1) by simp
  qed (use st'(1) in simp)
  moreover have "live st' = insert ?x (live st)" unfolding st'(1) by (rule live_update [where s = s]) (rule s(1), rule sl)
  moreover have "keeps st st'" by (rule keeps_places [OF pl st'(7,8,4)])
  ultimately show ?thesis
    using inv' c(1) s' sm(1) st'(1) block_new_fits [OF c(1)] by (simp add: block_added_def block_new_def)
qed

lemma popped_freed:
  assumes inv: "slabs_inv st" and env: "unmaps env"
    and q: "q \<in> set (cache_list st)" "slab_mem st q = Some s" "cached s" and s': "place s' = place s"
    and st1: "st1 = st\<lparr>cache_size := cache_size st - 0x200000, cache_list := remove1 q (cache_list st)\<rparr>"
  shows "\<exists>st2. qae_free_slab env q (set_slab q s' st1) = Some st2 \<and> slabs_inv st2 \<and> live st2 = live st \<and> keeps st st2"
proof -
  note i = slabs_invD [OF inv]
  let ?st = "set_slab q s' st1"
  have pl: "places ?st = places st" using q(2) s' by (auto simp: places_def st1)
  then have ci: "core_inv ?st" using i(1) core_inv_cong [of ?st st] by (simp add: st1)
  have m: "slab_mem ?st q = Some s'" by simp
  obtain h j d where f: "qae_free_slab env q ?st =
      Some (?st\<lparr>slab_mem := (slab_mem ?st)(q := None), slab_hash := h, iova := j, dma := d\<rparr>)"
      "core ((places ?st)(q := None)) j h (container_fd ?st) d"
    by (rule free_slab_core [OF ci m env])
  let ?st2 = "?st\<lparr>slab_mem := (slab_mem ?st)(q := None), slab_hash := h, iova := j, dma := d\<rparr>"
  have pl2: "places ?st2 = (places st)(q := None)" by (auto simp: places_def st1)
  have "list_inv ?st2" using lists_ok_pop(2) [OF i(3) q(1)] by (simp add: st1)
  moreover have "core_inv ?st2" using f(2) pl pl2 by (simp add: core_inv_def)
  moreover have "table_ok (places ?st2) (ptable ?st2)" using table_ok_del [OF i(2)] pl2 by (simp add: st1)
  moreover have none: "slab_live q s = {}" using q(3) by (simp add: slab_live_def cached_def counted_slab_def)
  then have "live ?st2 = live st" using live_drop [of "slab_mem st" q s] q(2) by (simp add: st1)
  moreover have "keeps st ?st2" using pl2 q(2) none by (auto simp: keeps_def places_def st1)
  ultimately show ?thesis using f(1) unfolding slabs_inv_def by blast
qed

lemma find_slab_spec:
  assumes inv: "slabs_inv st" and env: "unmaps env" and b: "good_size bytes"
  shows "(\<exists>st1. qae_find_slab env bytes node align st = Some (0, 0, st1) \<and> slabs_inv st1 \<and> live st1 = live st \<and> keeps st st1) \<or>
    (\<exists>p s st1 fb. qae_find_slab env bytes node align st = Some (p, p + of_nat (fb * 1024), st1) \<and> p \<noteq> 0 \<and>
      slab_mem st1 p = Some s \<and> block_added bytes align st p fb (set_slab p (s\<lparr>allocations := allocations s + 1\<rparr>) st1))"
proof -
  note i = slabs_invD [OF inv]
  have ml: "all_slabs (slab_mem st) (mem_list st) in_use" using i(3) by (simp add: lists_ok_def)
  from lookup_cases [OF i(1) ml b, of 0 node align]
  consider (none) "qae_userMemLookupBySize bytes node align st = Some (0, 0, st)"
    | (hit) p s fb c' where "qae_userMemLookupBySize bytes node align st = Some (p, p + of_nat (fb * 1024), set_slab p (s\<lparr>blk := c'\<rparr>) st)"
      "p \<in> set (mem_list st)" "slab_mem st p = Some s" "in_use s" "block_new bytes align (blk s) fb c'"
    unfolding qae_userMemLookupBySize_def by blast
  then show ?thesis
  proof cases
    case (hit p s fb c')
    have cs: "counted_slab s" using hit(4) by (simp add: in_use_def)
    have p0: "p \<noteq> 0" using core_placed [OF i(1) hit(3)] by (simp add: place_def placement_simps)
    have "block_added bytes align st p fb (set_slab p (s\<lparr>blk := c', allocations := allocations s + 1\<rparr>) (set_slab p (s\<lparr>blk := c'\<rparr>) st))"
      by (rule block_added_intro [OF inv hit(3) cs hit(5)]) (use lists_ok_update [OF i(3) hit(2)] in auto)
    then show ?thesis using hit(1) p0 by (intro disjI2 exI [of _ p] exI [of _ "s\<lparr>blk := c'\<rparr>"]) (auto simp: qae_find_slab_def)
  next
    case none
    from pop_cases [OF i(1,3), of node]
    consider (no) "pop_slab node st = Some (0, st)"
      | (pop) q s where "pop_slab node st = Some (q, st\<lparr>cache_size := cache_size st - 0x200000, cache_list := remove1 q (cache_list st)\<rparr>)"
        "q \<in> set (cache_list st)" "slab_mem st q = Some s" "cached s" by blast
    then show ?thesis
    proof cases
      case no
      then have "qae_find_slab env bytes node align st = Some (0, 0, st)" using none by (simp add: qae_find_slab_def)
      then show ?thesis using inv by (intro disjI1 exI [of _ st]) (simp add: keeps_def places_def)
    next
      case (pop q s)
      have cs: "counted_slab s" "slab_type s = SMALL" "slab_inv RES (blk s)" using pop(4) by (auto simp: cached_def counted_slab_def)
      note sm = core_small [OF i(1) pop(3) cs(2)] and init = init_slab_used [OF cs(3)]
      let ?st1 = "st\<lparr>cache_size := cache_size st - 0x200000, cache_list := remove1 q (cache_list st)\<rparr>"
      have q: "slab_mem ?st1 q = Some s" using pop(3) by simp
      from init_alloc_cases [OF q sm(1) init(1) b sm(3,4), of align]
      show ?thesis
      proof (elim disjE conjE exE)
        assume a: "init_slab_and_alloc q bytes align ?st1 = Some (0, set_slab q (s\<lparr>blk := init_slab 0x200000 (blk s)\<rparr>) ?st1)"
        obtain st2 where "qae_free_slab env q (set_slab q (s\<lparr>blk := init_slab 0x200000 (blk s)\<rparr>) ?st1) = Some st2"
            "slabs_inv st2" "live st2 = live st" "keeps st st2"
          using popped_freed [OF inv env pop(2-4) _ refl, of "s\<lparr>blk := init_slab 0x200000 (blk s)\<rparr>"] by (auto simp: place_def)
        then show ?thesis using none pop(1) a sm(3) by (intro disjI1) (auto simp: qae_find_slab_def)
      next
        fix fb c'
        let ?st2 = "(set_slab q (s\<lparr>blk := c'\<rparr>) ?st1)\<lparr>mem_list := q # mem_list ?st1\<rparr>"
        assume a: "init_slab_and_alloc q bytes align ?st1 = Some (q + of_nat (fb * 1024), ?st2)"
          "q + of_nat (fb * 1024) \<noteq> 0" and n: "block_new bytes align (init_slab 0x200000 (blk s)) fb c'"
        have "block_added bytes align st q fb (set_slab q (s\<lparr>blk := c', allocations := allocations s + 1\<rparr>) ?st2)"
          by (rule block_added_intro [OF inv pop(3) cs(1) n])
            (use init(2) blocks_init [OF cs(3)] lists_ok_pop(1) [OF i(3) pop(2)] in auto)
        then show ?thesis using none pop(1) a sm(3)
          by (intro disjI2 exI [of _ q] exI [of _ "s\<lparr>blk := c'\<rparr>"]) (auto simp: qae_find_slab_def)
      qed
    qed
  qed
qed

section \<open>Allocation\<close>

definition alloc_ok :: "u64 \<Rightarrow> u64 \<Rightarrow> usdm \<Rightarrow> u64 \<Rightarrow> usdm \<Rightarrow> bool" where
  "alloc_ok bytes align st a st' \<longleftrightarrow> slabs_inv st' \<and> keeps st st' \<and> a \<noteq> 0 \<and>
     (\<exists>n. unat bytes \<le> n \<and> live st' = insert (a, n) (live st) \<and> (a, n) \<notin> live st) \<and>
     unat align dvd unat (qaeVirtToPhysNUMA st' a)"

definition alloc_none :: "usdm \<Rightarrow> usdm \<Rightarrow> bool" where
  "alloc_none st st' \<longleftrightarrow> slabs_inv st' \<and> keeps st st' \<and> live st' = live st"

lemma units_enough: "unat bytes \<le> units bytes * 1024"
  by (simp add: units_def UNIT_SIZE_def)

text \<open>Alignments are powers of two.\<close>

lemma pow2_word:
  fixes x :: u64
  assumes "x \<noteq> 0" and "x AND (x - 1) = 0"
  shows "\<exists>k. unat x = 2 ^ k"
proof -
  have x: "0 < unat x" using assms(1) by (simp add: unat_gt_0)
  obtain k where k: "2 ^ k \<le> unat x" "unat x < 2 ^ (k + 1)" using ex_power_ivl1 [of 2 "unat x"] x by auto
  show ?thesis
  proof (cases "unat x = 2 ^ k")
    case False
    then have l: "2 ^ k \<le> unat x - 1" "unat x - 1 < 2 ^ (k + 1)" using k by auto
    have one: "n div 2 ^ k = 1" if "2 ^ k \<le> n" "n < 2 ^ (k + 1)" for n :: nat
      using that by (simp add: div_nat_eqI)
    have u: "unat (x - 1) = unat x - 1" using x by (simp add: unat_sub word_le_nat_alt)
    have "bit (unat x) k" "bit (unat (x - 1)) k" unfolding u using one [OF k] one [OF l] by (simp_all add: bit_iff_odd)
    moreover have "k < 64" using le_less_trans [OF k(1) unsigned_less [of x]] by (simp add: power_less_imp_less_exp [of "2 :: nat" k 64])
    ultimately have "bit (x AND (x - 1)) k" by (simp add: bit_and_iff bit_unsigned_iff)
    then show ?thesis using assms(2) by simp
  qed blast
qed

lemma pow2_dvd: "2 ^ k \<le> (2 ^ m :: nat) \<Longrightarrow> 2 ^ k dvd (2 ^ m :: nat)"
  by (simp add: le_imp_power_dvd)

lemma block_phys_aligned:
  fixes al :: u64
  assumes k: "unat al = 2 ^ k" "unat al < 2097152" and fb: "aligned_at (unat (al div 1024)) fb" and ph: "2097152 dvd ph"
  shows "unat al dvd ph + fb * 1024"
proof -
  have "2 ^ k dvd (2 ^ 21 :: nat)" using k by (intro pow2_dvd) simp
  then have d1: "unat al dvd ph" using ph k(1) by (auto intro: dvd_trans)
  have "unat al dvd fb * 1024"
  proof (cases "k < 10")
    case True
    then have "2 ^ k dvd (2 ^ 10 :: nat)" by (intro le_imp_power_dvd) simp
    then show ?thesis using k(1) by simp
  next
    case False
    then obtain j where j: "k = 10 + j" using le_Suc_ex by (metis not_less)
    have "unat (al div 1024) = 2 ^ j" by (simp add: unat_div k(1) j power_add)
    then have "2 ^ j dvd fb" using fb by (auto simp: aligned_at_def)
    then show ?thesis unfolding k(1) j power_add by (simp add: mult.commute)
  qed
  then show ?thesis using d1 by simp
qed

lemma block_added_alloc_ok:
  assumes b: "block_added bytes (unat (align div 1024)) st p fb st'" and k: "unat align = 2 ^ k" "unat align < 2097152"
  shows "alloc_ok bytes align st (p + of_nat (fb * 1024)) st'"
proof -
  obtain s where inv: "slabs_inv st'" "keeps st st'" and fb: "aligned_at (unat (align div 1024)) fb" "fb < 2048"
    and s: "slab_mem st' p = Some s" "slab_type s = SMALL"
    and l: "live st' = insert (p + of_nat (fb * 1024), units bytes * 1024) (live st)"
      "(p + of_nat (fb * 1024), units bytes * 1024) \<notin> live st"
    using b by (auto simp: block_added_def)
  note i = slabs_invD [OF inv(1)]
  note sm = core_small [OF i(1) s]
  let ?a = "p + of_nat (fb * 1024)"
  have a: "unat ?a = unat p + fb * 1024" by (rule block_addr [OF sm(4)]) (use fb in simp)
  then have nz: "?a \<noteq> 0" using sm(3) by (metis add_is_0 unat_0 unat_eq_0)
  have w: "2097152 dvd unat (phy_addr s)" "unat (phy_addr s) + 2097152 \<le> 549755813888"
    using core_placed [OF i(1) s(1)] sm(1) by (auto simp: place_def placement_simps dvd_eq_mod_eq_0)
  have "qaeVirtToPhysNUMA st' ?a = phy_addr s + of_nat (fb * 1024)"
    using slab_translate(1) [OF i(2,1) s(1), of ?a] a sm(1,2) fb(2) by simp
  moreover have "unat (phy_addr s + of_nat (fb * 1024)) = unat (phy_addr s) + fb * 1024"
    using w(2) fb(2) by (intro unat_offset) simp
  ultimately have "unat align dvd unat (qaeVirtToPhysNUMA st' ?a)"
    using block_phys_aligned [OF k fb(1) w(1)] by simp
  then show ?thesis using inv nz l units_enough [of bytes] unfolding alloc_ok_def by blast
qed

text \<open>The state after a new slab has been mapped, entered into the page table and counted once.\<close>

lemma new_slab_state:
  assumes inv: "slabs_inv st" and c: "core ((places st)(p \<mapsto> Place ty n ph v)) i h (container_fd st) d" and p: "slab_mem st p = None"
    and t: "(t, k) = store_mmap_range (\<lambda>_. True) v ph n False (ptable st) k0"
    and s: "place s = Place ty n ph v"
    and st2: "st2 = set_slab p s (st\<lparr>slab_mem := m, slab_hash := h, iova := i, dma := d, ptable := t, table_calls := k\<rparr>)"
      "m = (slab_mem st)(p \<mapsto> s0)"
  shows "core_inv st2" "table_ok (places st2) (ptable st2)" "slab_mem st2 = (slab_mem st)(p \<mapsto> s)"
    "places st2 = (places st)(p \<mapsto> Place ty n ph v)" "keeps st st2"
proof -
  note iv = slabs_invD [OF inv]
  show sm: "slab_mem st2 = (slab_mem st)(p \<mapsto> s)" by (simp add: st2)
  then show pl: "places st2 = (places st)(p \<mapsto> Place ty n ph v)" using s by (auto simp: places_def)
  show "core_inv st2" using c pl by (simp add: core_inv_def st2)
  have vo: "virt_ok ((places st)(p \<mapsto> Place ty n ph v))" using c by (simp add: core_def)
  have none: "places st p = None" using p by (simp add: places_def)
  have "t = fst (store_mmap_range (\<lambda>_. True) v ph n False (ptable st) k0)" using t by (metis fst_conv)
  then show "table_ok (places st2) (ptable st2)" using table_ok_add [OF iv(2) none vo, of k0] pl by (simp add: st2)
  show "keeps st st2" using pl p by (auto simp: keeps_def st2 places_def)
qed

lemma new_slab_freed:
  assumes inv: "slabs_inv st" and env: "unmaps env" and p: "slab_mem st p = None"
    and c: "core_inv st2" "table_ok (places st2) (ptable st2)" "slab_mem st2 = (slab_mem st)(p \<mapsto> s)"
    and l: "mem_list st2 = mem_list st" "large_list st2 = large_list st" "cache_list st2 = cache_list st"
      "cache_size st2 = cache_size st" "proc_pid st2 = proc_pid st" "container_pid st2 = container_pid st"
      "container_fd st2 = container_fd st"
  shows "\<exists>st3. qae_free_slab env p st2 = Some st3 \<and> alloc_none st st3"
proof -
  have m: "slab_mem st2 p = Some s" using c(3) by simp
  obtain h i d where f: "qae_free_slab env p st2 =
      Some (st2\<lparr>slab_mem := (slab_mem st2)(p := None), slab_hash := h, iova := i, dma := d\<rparr>)"
      "core ((places st2)(p := None)) i h (container_fd st2) d"
    by (rule free_slab_core [OF c(1) m env])
  let ?st = "st2\<lparr>slab_mem := (slab_mem st2)(p := None), slab_hash := h, iova := i, dma := d\<rparr>"
  have sm: "slab_mem ?st = slab_mem st" using c(3) p by (simp add: fun_upd_idem)
  then have pl: "places ?st = places st" by (simp add: places_def)
  have pl': "(places st2)(p := None) = places st" using c(3) p by (auto simp: places_def)
  have "slabs_inv ?st"
    using f(2) pl pl' table_ok_del [OF c(2), of p] slabs_invD(3) [OF inv] sm l
    by (simp add: slabs_inv_def core_inv_def)
  moreover have "keeps st ?st" by (rule keeps_places [OF pl]) (use l in simp_all)
  ultimately show ?thesis using f(1) sm unfolding alloc_none_def by fastforce
qed

lemma new_small_added:
  assumes inv: "slabs_inv st" and p: "slab_mem st p = None"
    and c: "core_inv st2" "table_ok (places st2) (ptable st2)" "slab_mem st2 = (slab_mem st)(p \<mapsto> s)" "keeps st st2"
    and s: "place s' = place s" "slab_type s = SMALL" "allocations s = 1" "s' = s\<lparr>blk := c'\<rparr>"
    and b: "block_new bytes align fresh_slab fb c'"
    and st3: "st3 = (set_slab p s' st2)\<lparr>mem_list := p # mem_list st\<rparr>"
    and l: "large_list st2 = large_list st" "cache_list st2 = cache_list st" "cache_size st2 = cache_size st"
  shows "block_added bytes align st p fb st3"
proof -
  have m: "slab_mem st3 = (slab_mem st)(p \<mapsto> s')" using c(3) by (simp add: st3)
  have pl: "places st3 = places st2" using c(3) s(1) by (auto simp: places_def st3)
  have "blocks c' = {fb}" using b fresh_slab_blocks by (simp add: block_new_def)
  then have use: "in_use s'" using b s by (simp add: in_use_def counted_slab_def block_new_def)
  have li: "list_inv st3" using lists_ok_new(1) [OF slabs_invD(3) [OF inv] p use] l m by (simp add: st3)
  have ci: "core_inv st3" using c(1) core_inv_cong [OF pl] by (simp add: st3)
  have inv3: "slabs_inv st3" using ci li c(2) pl by (simp add: slabs_inv_def st3)
  let ?x = "(p + of_nat (fb * 1024), units bytes * 1024)"
  have sl: "slab_live p s' = {?x}"
    using s b \<open>blocks c' = {fb}\<close> by (simp add: slab_live_def block_new_def)
  have "?x \<notin> live st"
    by (rule live_fresh [OF ci li, of p s']) (use m sl p in auto)
  moreover have "live st3 = insert ?x (live st)" unfolding m using live_new [of "slab_mem st" p s'] p sl by simp
  moreover have "keeps st st3" using c(4) pl by (simp add: keeps_def st3)
  ultimately show ?thesis
    using inv3 b m s(2,4) block_new_fits [OF b] by (auto simp: block_added_def block_new_def)
qed

lemma alloc_new_small:
  assumes inv: "slabs_inv st" and env: "env_ok (slab_mem st) env" and b: "good_size bytes"
    and al: "unat align = 2 ^ k" "unat align < 2097152"
  shows "(\<exists>st'. alloc_new env bytes align 0x200000 SMALL st = Some (0, st') \<and> alloc_none st st') \<or>
    (\<exists>a st'. alloc_new env bytes align 0x200000 SMALL st = Some (a, st') \<and> alloc_ok bytes align st a st' \<and>
      fits bytes (unat (align div 1024)))"
proof -
  note iv = slabs_invD [OF inv]
  have ru: "(0x200000 :: u64) = round_up 0x200000 (of_nat PAGE_SIZE)" by (simp add: round_up_def)
  have un: "unmaps env" and tm: "table_mmap env = (\<lambda>_. True)" using env by (auto simp: env_ok_def)
  have ua: "unat (ucast align :: u32) = unat align" by (rule bytes_u32) (use al in simp)
  have ual: "0 < unat (ucast align :: u32)" "unat (ucast align :: u32) \<le> 4194304" using al ua by simp_all
  show ?thesis
  proof (cases rule: alloc_slab_core [OF iv(1) env ru, of SMALL "ucast align", case_names _ _ _ _ _ _ _ fail ok])
    case (fail i)
    have "alloc_none st (st\<lparr>iova := i\<rparr>)"
      using fail(2) iv by (auto simp: alloc_none_def slabs_inv_def core_inv_def keeps_def places_def)
    then show ?thesis using fail(1) by (intro disjI1) (auto simp: alloc_new_def)
  next
    case (ok p ph v i h d)
    let ?m = "(slab_mem st)(p \<mapsto> new_slab SMALL 0x200000 ph v)"
    obtain t k where t: "(t, k) = store_mmap_range (\<lambda>_. True) v ph 0x200000 False (ptable st) (table_calls st)" by (metis surj_pair)
    define s where "s = (new_slab SMALL 0x200000 ph v)\<lparr>allocations := 1\<rparr>"
    define st2 where "st2 = set_slab p s (st\<lparr>slab_mem := ?m, slab_hash := h, iova := i, dma := d, ptable := t, table_calls := k\<rparr>)"
    have pl: "place s = Place SMALL 0x200000 ph v" by (simp add: s_def place_def)
    note n = new_slab_state [OF inv ok(2,3) t pl st2_def refl]
    have sp: "slab_mem st2 p = Some s" using n(3) by simp
    have sm: "virt_addr s = p" "p \<noteq> 0" "unat p + 2097152 \<le> 140737488355328" "4096 dvd unat p"
      using core_small [OF n(1) sp] by (simp_all add: s_def)
    have pg: "p mod of_nat PAGE_SIZE = 0" using sm(4) by (simp add: word_eq_iff_unsigned unat_mod dvd_eq_mod_eq_0 flip: unat_eq_0)
    have eq: "alloc_new env bytes align 0x200000 SMALL st =
        do { (a, st3) \<leftarrow> init_slab_and_alloc p bytes (unat (align div of_nat UNIT_SIZE)) st2;
             if a = 0 then do { st4 \<leftarrow> qae_free_slab env p st3; Some (0, st4) } else Some (a, st3) }"
      using ok(1,4) t [symmetric] sm(1) pg tm by (simp add: alloc_new_def st2_def s_def)
    have lst: "mem_list st2 = mem_list st" "large_list st2 = large_list st" "cache_list st2 = cache_list st"
      "cache_size st2 = cache_size st" "proc_pid st2 = proc_pid st" "container_pid st2 = container_pid st"
      "container_fd st2 = container_fd st" by (simp_all add: st2_def)
    have bl: "init_slab 0x200000 (blk s) = fresh_slab" "slab_size s = 0x200000" by (simp_all add: s_def)
    have fi: "slab_inv RES (init_slab 0x200000 (blk s))" using fresh_slab_blocks(2) bl(1) by simp
    from init_alloc_cases [OF sp bl(2) fi b sm(2,3), of "unat (align div of_nat UNIT_SIZE)"]
    show ?thesis
    proof (elim disjE conjE exE)
      let ?s = "s\<lparr>blk := init_slab 0x200000 (blk s)\<rparr>"
      assume a: "init_slab_and_alloc p bytes (unat (align div of_nat UNIT_SIZE)) st2 = Some (0, set_slab p ?s st2)"
      have pl3: "places (set_slab p ?s st2) = places st2" "core_inv (set_slab p ?s st2)"
        using same_core [OF n(1) sp, of ?s] by (simp_all add: place_def)
      have "\<exists>st4. qae_free_slab env p (set_slab p ?s st2) = Some st4 \<and> alloc_none st st4"
        by (rule new_slab_freed [OF inv un ok(3) pl3(2)]) (use pl3 n(2,3) lst in simp_all)
      then show ?thesis using eq a by auto
    next
      fix fb c'
      assume a: "init_slab_and_alloc p bytes (unat (align div of_nat UNIT_SIZE)) st2 =
          Some (p + of_nat (fb * 1024), (set_slab p (s\<lparr>blk := c'\<rparr>) st2)\<lparr>mem_list := p # mem_list st2\<rparr>)"
        "p + of_nat (fb * 1024) \<noteq> 0"
        and nb: "block_new bytes (unat (align div of_nat UNIT_SIZE)) (init_slab 0x200000 (blk s)) fb c'"
      have "block_added bytes (unat (align div 1024)) st p fb ((set_slab p (s\<lparr>blk := c'\<rparr>) st2)\<lparr>mem_list := p # mem_list st2\<rparr>)"
        by (rule new_small_added [OF inv ok(3) n(1,2,3,5), of "s\<lparr>blk := c'\<rparr>"])
          (use nb bl lst in \<open>simp_all add: place_def s_def UNIT_SIZE_def\<close>)
      then show ?thesis using block_added_alloc_ok [OF _ al] block_new_fits [OF nb] eq a by (auto simp: UNIT_SIZE_def)
    qed
  qed (use ual in simp_all)
qed

definition large_bytes :: "u64 \<Rightarrow> u64 \<Rightarrow> u64" where
  "large_bytes bytes align = round_up (div_round_up (max bytes align) (of_nat UNIT_SIZE) * of_nat UNIT_SIZE) (of_nat PAGE_SIZE)"

lemma large_bytes_unat:
  fixes bytes align :: u64
  assumes "good_size bytes" and "unat align \<le> 4194304"
  shows "unat bytes \<le> unat (large_bytes bytes align)" "0 < unat (large_bytes bytes align)"
    "unat (large_bytes bytes align) \<le> 67108864" "4096 dvd unat (large_bytes bytes align)"
proof -
  let ?M = "max bytes align"
  have M: "unat bytes \<le> unat ?M" "unat ?M \<le> 67108864" "0 < unat ?M"
    using assms unat_gt_0 [of bytes] by (auto simp: max_def word_le_nat_alt split: if_splits)
  define A where "A = (unat ?M + 1023) div 1024"
  have A: "unat ?M \<le> A * 1024" "A \<le> 65536" "0 < A"
  proof -
    show "unat ?M \<le> A * 1024" unfolding A_def by simp
    have "A \<le> (67108864 + 1023) div 1024" unfolding A_def using M(2) by (intro div_le_mono) simp
    then show "A \<le> 65536" by simp
    show "0 < A" unfolding A_def using M(3) by (simp add: div_greater_zero_iff)
  qed
  have "unat (div_round_up ?M (of_nat UNIT_SIZE)) = A"
    using M(2) by (subst div_round_up_unat) (simp_all add: A_def UNIT_SIZE_def)
  then have w: "unat (div_round_up ?M (of_nat UNIT_SIZE) * of_nat UNIT_SIZE) = A * 1024"
    using A(2) by (simp add: unat_word_ariths UNIT_SIZE_def)
  have u: "unat (large_bytes bytes align) = (A * 1024 + 4095) div 4096 * 4096"
    unfolding large_bytes_def using A(2) by (subst round_up_unat) (simp_all add: w)
  have "(A * 1024 + 4095) div 4096 \<le> (65536 * 1024 + 4095) div 4096" using A(2) by (intro div_le_mono) simp
  then show "unat (large_bytes bytes align) \<le> 67108864" unfolding u by simp
  have "A * 1024 \<le> (A * 1024 + 4095) div 4096 * 4096" by simp
  then show "unat bytes \<le> unat (large_bytes bytes align)" "0 < unat (large_bytes bytes align)"
    unfolding u using A(1,3) M(1) by linarith+
  show "4096 dvd unat (large_bytes bytes align)" unfolding u by simp
qed

text \<open>There is an I/O address left for a large slab.\<close>

definition iova_left :: "u64 \<Rightarrow> u64 \<Rightarrow> usdm \<Rightarrow> bool" where
  "iova_left bytes align st \<longleftrightarrow> unat (large_bytes bytes align) \<le> 2097152 \<or>
     (\<forall>i. allocate_iova (iova st) (ucast (large_bytes bytes align)) (ucast align) \<noteq> Some (0, i))"

lemma eff_align_dvd:
  fixes al :: u64
  assumes "unat al = 2 ^ k" and "unat al \<le> 4194304"
  shows "unat al dvd eff_align (ucast al)"
proof -
  have ua: "unat (ucast al :: u32) = unat al" by (rule bytes_u32) (use assms in simp)
  show ?thesis
  proof (cases "k \<le> 21")
    case True
    then have "2 ^ k dvd (2 ^ 21 :: nat)" by (rule le_imp_power_dvd)
    then show ?thesis unfolding eff_align_def ua assms(1) by (simp add: dvd_mult)
  next
    case False
    have "k < 23" using assms power_less_imp_less_exp [of "2 :: nat" k 23] by simp
    then have "k = 22" using False by simp
    then show ?thesis unfolding eff_align_def ua assms(1) by simp
  qed
qed

lemma alloc_new_large:
  assumes inv: "slabs_inv st" and env: "env_ok (slab_mem st) env" and b: "good_size bytes"
    and al: "unat align = 2 ^ k" "unat align \<le> 4194304" and room: "iova_left bytes align st"
    and sb: "sb = div_round_up (max bytes align) (of_nat UNIT_SIZE) * of_nat UNIT_SIZE"
  shows "(\<exists>st'. alloc_new env bytes align sb LARGE st = Some (0, st') \<and> alloc_none st st') \<or>
    (\<exists>a st'. alloc_new env bytes align sb LARGE st = Some (a, st') \<and> alloc_ok bytes align st a st')"
proof -
  note iv = slabs_invD [OF inv]
  note lb = large_bytes_unat [OF b al(2)]
  let ?n = "large_bytes bytes align"
  have ru: "?n = round_up sb (of_nat PAGE_SIZE)" by (simp add: large_bytes_def sb)
  have un: "unmaps env" and tm: "table_mmap env = (\<lambda>_. True)" using env by (auto simp: env_ok_def)
  have ua: "unat (ucast align :: u32) = unat align" by (rule bytes_u32) (use al in simp)
  have ual: "0 < unat (ucast align :: u32)" "unat (ucast align :: u32) \<le> 4194304" using al ua by simp_all
  have room': "unat ?n \<le> 2097152 \<or> (\<forall>i. allocate_iova (iova st) (ucast ?n) (ucast align) \<noteq> Some (0, i))"
    using room by (simp add: iova_left_def)
  have "(LARGE :: slabType) = SMALL \<and> ?n = 0x200000 \<or> (LARGE :: slabType) = LARGE" by simp
  note asc = alloc_slab_core [OF iv(1) env ru lb(2-4) this ual room']
  show ?thesis
  proof (cases rule: asc [case_names fail ok])
    case (fail i)
    have "alloc_none st (st\<lparr>iova := i\<rparr>)"
      using fail(2) iv by (auto simp: alloc_none_def slabs_inv_def core_inv_def keeps_def places_def)
    then show ?thesis using fail(1) by (intro disjI1) (auto simp: alloc_new_def)
  next
    case (ok p ph v i h d)
    let ?m = "(slab_mem st)(p \<mapsto> new_slab LARGE ?n ph v)"
    obtain t k where t: "(t, k) = store_mmap_range (\<lambda>_. True) v ph ?n False (ptable st) (table_calls st)" by (metis surj_pair)
    define s where "s = (new_slab LARGE ?n ph v)\<lparr>allocations := 1\<rparr>"
    define st2 where "st2 = set_slab p s (st\<lparr>slab_mem := ?m, slab_hash := h, iova := i, dma := d, ptable := t, table_calls := k\<rparr>)"
    define st3 where "st3 = st2\<lparr>large_list := p # large_list st2\<rparr>"
    have pl: "place s = Place LARGE ?n ph v" by (simp add: s_def place_def)
    note n = new_slab_state [OF inv ok(2,3) t pl st2_def refl]
    have sp: "slab_mem st2 p = Some s" using n(3) by simp
    have eq: "alloc_new env bytes align sb LARGE st = Some (v, st3)"
      using ok(1,4) t [symmetric] tm by (simp add: alloc_new_def st3_def st2_def s_def)
    have m3: "slab_mem st3 = (slab_mem st)(p \<mapsto> s)" using n(3) by (simp add: st3_def)
    have pl3: "places st3 = places st2" by (simp add: places_def st3_def)
    have ci: "core_inv st3" using n(1) core_inv_cong [OF pl3] by (simp add: st3_def)
    have li: "list_inv st3" using lists_ok_new(2) [OF iv(3) ok(3), of s] m3 by (simp add: st3_def st2_def s_def)
    have inv3: "slabs_inv st3" using ci li n(2) pl3 by (simp add: slabs_inv_def st3_def)
    have sl: "slab_live p s = {(v, unat ?n)}" by (simp add: slab_live_def s_def)
    have sp3: "slab_mem st3 p = Some s" using m3 by simp
    have w: "well_placed p (Place LARGE ?n ph v)" using core_placed [OF ci sp3] pl by simp
    have "qaeVirtToPhysNUMA st3 v = ph"
      using slab_translate(1) [OF slabs_invD(2) [OF inv3] ci sp3, of v] lb(2) by (simp add: s_def)
    then have "unat align dvd unat (qaeVirtToPhysNUMA st3 v)"
      using ok(5) eff_align_dvd [OF al] by (auto intro: dvd_trans)
    moreover have "(v, unat ?n) \<notin> live st"
      by (rule live_fresh [OF ci li sp3]) (use m3 sl ok(3) in auto)
    moreover have "live st3 = insert (v, unat ?n) (live st)"
      unfolding m3 using live_new [of "slab_mem st" p s] ok(3) sl by simp
    moreover have "v \<noteq> 0" using w by (auto simp: placement_simps)
    moreover have "keeps st st3" using n(5) pl3 by (simp add: keeps_def st3_def)
    ultimately have "alloc_ok bytes align st v st3" using inv3 lb(1) unfolding alloc_ok_def by blast
    then show ?thesis using eq by blast
  qed
qed

section \<open>The interface\<close>

text \<open>The first operation of a process starts from an empty library.\<close>

lemma init_process:
  assumes "usdm_inv pid st" and "env_pid env = pid"
  shows "slabs_inv (qaeInitProcess env st)" "slab_mem (qaeInitProcess env st) = slab_mem st" "proc_pid (qaeInitProcess env st) = pid"
    "container_pid (qaeInitProcess env st) = container_pid st" "container_fd (qaeInitProcess env st) = container_fd st"
    "dma (qaeInitProcess env st) = dma st" "proc_pid st = pid \<Longrightarrow> qaeInitProcess env st = st"
    "places (qaeInitProcess env st) = places st" "container_ref (qaeInitProcess env st) = container_ref st"
proof -
  have i: "core_inv st" "table_ok (places st) (ptable st)" "list_inv st" "proc_pid st = pid \<or> idle st"
    using assms(1) by (auto simp: usdm_inv_def)
  let ?st = "qaeInitProcess env st"
  show same: "proc_pid st = pid \<Longrightarrow> ?st = st" using assms(2) by (simp add: qaeInitProcess_def check_pid_def)
  show "slab_mem ?st = slab_mem st" "proc_pid ?st = pid" "container_pid ?st = container_pid st"
    "container_fd ?st = container_fd st" "dma ?st = dma st" "container_ref ?st = container_ref st"
    using assms(2) by (auto simp: qaeInitProcess_def check_pid_def qae_ResetControl_def)
  then show pl: "places ?st = places st" by (simp add: places_def)
  show "slabs_inv ?st"
  proof (cases "proc_pid st = pid")
    case False
    then have m: "slab_mem st = Map.empty" "places st = Map.empty" using i(4) by (auto simp: idle_def places_def)
    have eq: "?st = st\<lparr>proc_pid := pid, ptable := zero_level 4, slab_hash := (\<lambda>_. []), cache_size := 0,
        cache_list := [], mem_list := [], large_list := [], iova := iova_init\<rparr>"
      using False assms(2) by (simp add: qaeInitProcess_def check_pid_def qae_ResetControl_def free_page_table_def)
    have "dma_ok Map.empty (container_fd st) (dma st)" using core_invD(4) [OF i(1)] m by simp
    then have "core_inv ?st"
      using pl m iova_init_inv unfolding eq by (simp add: core_inv_def core_def virt_ok_def iova_ok_def hash_ok_def)
    then show ?thesis using pl m unfolding eq by (simp add: slabs_inv_def table_ok_def lists_ok_def all_slabs_def)
  qed (use same i in \<open>simp add: slabs_inv_def\<close>)
qed

definition is_large :: "u64 \<Rightarrow> u64 \<Rightarrow> bool" where
  "is_large bytes align \<longleftrightarrow>
     div_round_up bytes (of_nat UNIT_SIZE) + of_nat RES > SLAB_UNITS \<or> align \<ge> SLAB_UNITS * of_nat UNIT_SIZE"

text \<open>
  What an allocation relies on: the system maps memory outside of what is mapped when it is asked, and
  an I/O address is left for a slab of more than 2 MB.
\<close>

definition alloc_env :: "mem_env \<Rightarrow> u64 \<Rightarrow> int \<Rightarrow> u64 \<Rightarrow> usdm \<Rightarrow> bool" where
  "alloc_env env bytes node align st \<longleftrightarrow> unmaps env \<and>
     (let st0 = qaeInitProcess env st
      in if is_large bytes align then env_ok (slab_mem st0) env \<and> iova_left bytes align st0
         else case qae_find_slab env bytes node (unat (align div of_nat UNIT_SIZE)) st0 of
                None \<Rightarrow> True
              | Some (p, a, st1) \<Rightarrow> p = 0 \<longrightarrow> env_ok (slab_mem st1) env)"

text \<open>The translation of all allocations stays as it is.\<close>

definition frame :: "usdm \<Rightarrow> usdm \<Rightarrow> bool" where
  "frame st st' \<longleftrightarrow>
     (\<forall>a n d. (a, n) \<in> live st \<and> d < n \<longrightarrow>
        qaeVirtToPhysNUMA st' (a + of_nat d) = qaeVirtToPhysNUMA st (a + of_nat d)) \<and>
     proc_pid st' = proc_pid st \<and> container_pid st' = container_pid st \<and> container_fd st' = container_fd st"

lemma live_bytes:
  assumes "core_inv st" and "list_inv st" and "slab_mem st p = Some s" and "(a, n) \<in> slab_live p s" and "d < n"
  shows "unat (a + of_nat d) = unat a + d" "unat (virt_addr s) \<le> unat (a + of_nat d)"
    "unat (a + of_nat d) < unat (virt_addr s) + unat (slab_size s)"
proof -
  note r = slab_live_range [OF assms(1-4)]
  have "unat (virt_addr s) + unat (slab_size s) \<le> 140737488355328"
    using core_placed [OF assms(1,3)] by (simp add: place_def placement_simps)
  then show u: "unat (a + of_nat d) = unat a + d" using r assms(5) by (intro unat_offset) simp
  show "unat (virt_addr s) \<le> unat (a + of_nat d)" "unat (a + of_nat d) < unat (virt_addr s) + unat (slab_size s)"
    unfolding u using r assms(5) by simp_all
qed

lemma translate_same:
  assumes "slabs_inv st" and "slabs_inv st'" and "slab_mem st p = Some s" and "places st' p = Some (place s)"
    and "unat (virt_addr s) \<le> unat x" "unat x < unat (virt_addr s) + unat (slab_size s)"
  shows "qaeVirtToPhysNUMA st' x = qaeVirtToPhysNUMA st x"
proof -
  obtain s' where s': "slab_mem st' p = Some s'" "place s' = place s" using assms(4) by (auto simp: places_Some)
  then have e: "virt_addr s' = virt_addr s" "slab_size s' = slab_size s" "phy_addr s' = phy_addr s" by (simp_all add: place_def)
  show ?thesis
    using slab_translate(1) [OF slabs_invD(2,1) [OF assms(1)] assms(3,5,6)]
      slab_translate(1) [OF slabs_invD(2,1) [OF assms(2)] s'(1), of x] assms(5,6) e by simp
qed

lemma keeps_frame:
  assumes "slabs_inv st" and "slabs_inv st'" and "keeps st st'"
  shows "frame st st'"
proof -
  have "qaeVirtToPhysNUMA st' (a + of_nat d) = qaeVirtToPhysNUMA st (a + of_nat d)" if x: "(a, n) \<in> live st" "d < n" for a n d
  proof -
    obtain p s where p: "slab_mem st p = Some s" "(a, n) \<in> slab_live p s" using x(1) by (auto simp: live_in_def)
    then have "places st' p = Some (place s)" using assms(3) unfolding keeps_def by blast
    then show ?thesis
      using translate_same [OF assms(1,2) p(1)] live_bytes(2,3) [OF slabs_invD(1,3) [OF assms(1)] p x(2)] by blast
  qed
  then show ?thesis using assms(3) unfolding frame_def keeps_def by blast
qed

lemma frame_trans: "frame st st1 \<Longrightarrow> frame st1 st2 \<Longrightarrow> live st \<subseteq> live st1 \<Longrightarrow> frame st st2"
  unfolding frame_def by (metis subsetD)

text \<open>The result of an allocation: nothing, or a new region of the size and alignment asked for.\<close>

definition alloc_done :: "u64 \<Rightarrow> u64 \<Rightarrow> usdm \<Rightarrow> u64 \<Rightarrow> usdm \<Rightarrow> bool" where
  "alloc_done bytes align st a st' \<longleftrightarrow> slabs_inv st' \<and> frame st st' \<and>
     (if a = 0 then live st' = live st
      else (\<exists>n. unat bytes \<le> n \<and> live st' = insert (a, n) (live st) \<and> (a, n) \<notin> live st) \<and>
        unat align dvd unat (qaeVirtToPhysNUMA st' a))"

lemma alloc_doneI:
  "slabs_inv st \<Longrightarrow> alloc_none st st' \<Longrightarrow> alloc_done bytes align st 0 st'"
  "slabs_inv st \<Longrightarrow> alloc_ok bytes align st a st' \<Longrightarrow> alloc_done bytes align st a st'"
  using keeps_frame by (auto simp: alloc_done_def alloc_none_def alloc_ok_def)

lemma alloc_done_trans:
  assumes "frame st st1" and "live st1 = live st" and "alloc_done bytes align st1 a st'"
  shows "alloc_done bytes align st a st'"
  using assms(2,3) frame_trans [OF assms(1), of st'] unfolding alloc_done_def by auto

lemma alloc_addr_spec:
  assumes inv: "usdm_inv pid st" and pid: "env_pid env = pid" and b: "good_size bytes"
    and al: "unat align = 2 ^ k" "unat align \<le> 4194304" and env: "alloc_env env bytes node align st"
  shows "\<exists>a st'. qae_alloc_addr env bytes node align st = Some (a, st') \<and>
    alloc_done bytes align (qaeInitProcess env st) a st' \<and>
    (a \<noteq> 0 \<longrightarrow> is_large bytes align \<or> fits bytes (unat (align div 1024)))"
proof -
  let ?st = "qaeInitProcess env st"
  note ip = init_process [OF inv pid]
  have un: "unmaps env" using env by (simp add: alloc_env_def)
  have "unat (- 1 - of_nat RES - of_nat UNIT_SIZE :: u64) \<ge> 67108864"
    by (simp add: reserved_units_eq UNIT_SIZE_def)
  then have big: "\<not> - 1 - of_nat RES - of_nat UNIT_SIZE < bytes" using b by (simp add: word_less_nat_alt)
  show ?thesis
  proof (cases "is_large bytes align")
    case True
    let ?sb = "div_round_up (max bytes align) (of_nat UNIT_SIZE) * of_nat UNIT_SIZE"
    have eq: "qae_alloc_addr env bytes node align st = alloc_new env bytes align ?sb LARGE ?st"
      using big True unfolding qae_alloc_addr_def is_large_def Let_def by (simp only: if_True if_False)
    have "env_ok (slab_mem ?st) env" "iova_left bytes align ?st" using env True by (auto simp: alloc_env_def Let_def)
    from alloc_new_large [OF ip(1) this(1) b al this(2) refl] show ?thesis
      using alloc_doneI [OF ip(1)] True unfolding eq by blast
  next
    case False
    let ?al = "unat (align div of_nat UNIT_SIZE)"
    have lt: "unat align < 2097152"
      using False by (auto simp: is_large_def word_le_nat_alt UNIT_SIZE_def not_le)
    have eq: "qae_alloc_addr env bytes node align st = do {
        (p, a, st1) \<leftarrow> qae_find_slab env bytes node ?al ?st;
        if p \<noteq> 0 then do { s \<leftarrow> slab_mem st1 p; Some (a, set_slab p (s\<lparr>allocations := allocations s + 1\<rparr>) st1) }
        else alloc_new env bytes align (SLAB_UNITS * of_nat UNIT_SIZE) SMALL st1 }"
      using big False unfolding qae_alloc_addr_def is_large_def Let_def by (simp only: if_True if_False)
    have sz: "SLAB_UNITS * of_nat UNIT_SIZE = 0x200000" by (simp add: UNIT_SIZE_def)
    from find_slab_spec [OF ip(1) un b, of node ?al] show ?thesis
    proof (elim disjE exE conjE)
      fix st1 assume f: "qae_find_slab env bytes node ?al ?st = Some (0, 0, st1)" "slabs_inv st1" "live st1 = live ?st" "keeps ?st st1"
      have ok: "env_ok (slab_mem st1) env" using env False f(1) by (simp add: alloc_env_def Let_def)
      have fr: "frame ?st st1" by (rule keeps_frame [OF ip(1) f(2,4)])
      have e1: "qae_alloc_addr env bytes node align st = alloc_new env bytes align 0x200000 SMALL st1"
        unfolding eq f(1) by (simp add: UNIT_SIZE_def)
      from alloc_new_small [OF f(2) ok b al(1) lt] show ?thesis
        using alloc_doneI [OF f(2)] alloc_done_trans [OF fr f(3)] unfolding e1 by blast
    next
      fix p s st1 fb
      let ?st2 = "set_slab p (s\<lparr>allocations := allocations s + 1\<rparr>) st1"
      assume f: "qae_find_slab env bytes node ?al ?st = Some (p, p + of_nat (fb * 1024), st1)" "p \<noteq> 0"
        "slab_mem st1 p = Some s" "block_added bytes ?al ?st p fb ?st2"
      have "block_added bytes (unat (align div 1024)) ?st p fb ?st2" using f(4) by (simp add: UNIT_SIZE_def)
      then have "alloc_ok bytes align ?st (p + of_nat (fb * 1024)) ?st2" by (rule block_added_alloc_ok [OF _ al(1) lt])
      moreover have "qae_alloc_addr env bytes node align st = Some (p + of_nat (fb * 1024), ?st2)"
        unfolding eq f(1) using f(2,3) by simp
      moreover have "fits bytes (unat (align div 1024))" using f(4) by (simp add: block_added_def UNIT_SIZE_def)
      ultimately show ?thesis using alloc_doneI(2) [OF ip(1)] by blast
    qed
  qed
qed

lemma init_frame:
  assumes "usdm_inv pid st" and "env_pid env = pid" and "frame (qaeInitProcess env st) st'" and "slabs_inv st'"
  shows "usdm_inv pid st'"
    "\<forall>a n d. (a, n) \<in> live st \<and> d < n \<longrightarrow> qaeVirtToPhysNUMA st' (a + of_nat d) = qaeVirtToPhysNUMA st (a + of_nat d)"
proof -
  note ip = init_process [OF assms(1,2)]
  show "usdm_inv pid st'"
    using assms(1,3,4) ip unfolding usdm_inv_def slabs_inv_def frame_def by metis
  have "live st = {}" if "proc_pid st \<noteq> pid"
    using assms(1) that by (auto simp: usdm_inv_def idle_def live_in_def)
  then show "\<forall>a n d. (a, n) \<in> live st \<and> d < n \<longrightarrow> qaeVirtToPhysNUMA st' (a + of_nat d) = qaeVirtToPhysNUMA st (a + of_nat d)"
    using assms(3) ip(7) unfolding frame_def by (cases "proc_pid st = pid") auto
qed

end
