(* ===== verification/Usdm_Mem_Free.thy ===== *)
theory Usdm_Mem_Free
  imports Usdm_Mem_Alloc
begin

text \<open>
  Release, the end of the library, and devices keep the invariant: \<open>free_addr_spec\<close> for \<open>__qae_free_addr\<close>,
  \<open>destroy_ok\<close> for \<open>qaeMemDestroy\<close>, \<open>register_ok\<close> and \<open>unregister_ok\<close> for the VFIO container.
\<close>

section \<open>Release\<close>

text \<open>The hash table finds the slab of an address.\<close>

lemma offset_less:
  fixes x v n :: u64
  assumes "unat v + unat n < 2 ^ 64"
  shows "x - v < n \<longleftrightarrow> unat v \<le> unat x \<and> unat x < unat v + unat n"
proof (cases "v \<le> x")
  case True
  then show ?thesis by (auto simp: word_less_nat_alt word_le_nat_alt unat_sub)
next
  case False
  then have lt: "unat x < unat v" by (simp add: word_le_nat_alt)
  have "unat (x - v) = unat x + 2 ^ 64 - unat v" using lt unsigned_less [of v] by (simp add: unat_sub_if' word_le_nat_alt)
  then show ?thesis using lt assms by (simp add: word_less_nat_alt)
qed

lemma find_loop_spec:
  "core_inv st \<Longrightarrow> \<forall>p \<in> set ps. slab_mem st p \<noteq> None \<Longrightarrow>
   find_loop v ps st = Some 0 \<and> (\<forall>p \<in> set ps. \<forall>s. slab_mem st p = Some s \<longrightarrow> \<not> v - virt_addr s < slab_size s) \<or>
   (\<exists>p s. find_loop v ps st = Some p \<and> p \<in> set ps \<and> slab_mem st p = Some s \<and> v - virt_addr s < slab_size s)"
proof (induction ps)
  case (Cons q ps)
  obtain t where t: "slab_mem st q = Some t" using Cons.prems(2) by auto
  show ?case
  proof (cases "v - virt_addr t < slab_size t")
    case True
    then have "find_loop v (q # ps) st = Some q" using t by simp
    then show ?thesis using t True by (intro disjI2 exI [of _ q] exI [of _ t]) simp
  next
    case False
    then have e: "find_loop v (q # ps) st = find_loop v ps st" using t by simp
    show ?thesis unfolding e using Cons False t by auto
  qed
qed simp

lemma slab_offset:
  assumes "core_inv st" and "slab_mem st p = Some s"
  shows "x - virt_addr s < slab_size s \<longleftrightarrow> unat (virt_addr s) \<le> unat x \<and> unat x < unat (virt_addr s) + unat (slab_size s)"
  using core_placed [OF assms] by (intro offset_less) (simp add: place_def placement_simps)

lemma find_hash:
  assumes inv: "slabs_inv st"
  obtains (none) "find_slab_in_hash v st = Some 0" "\<And>p s. slab_mem st p = Some s \<Longrightarrow> \<not> v - virt_addr s < slab_size s"
  | (slab) p s where "find_slab_in_hash v st = Some p" "slab_mem st p = Some s" "v - virt_addr s < slab_size s" "p \<noteq> 0"
proof -
  note i = slabs_invD [OF inv]
  let ?k = "load_key (ptable st) v"
  have h: "set (slab_hash st ?k) = {p. \<exists>s. slab_mem st p = Some s \<and> get_key (phy_addr s) = ?k}"
    using core_invD(3) [OF i(1)] by (auto simp: hash_ok_def places_Some place_def key_of.simps)
  then have "\<forall>p \<in> set (slab_hash st ?k). slab_mem st p \<noteq> None" by auto
  from find_loop_spec [OF i(1) this, of v] show ?thesis
  proof (elim disjE conjE exE)
    fix p s assume "find_loop v (slab_hash st ?k) st = Some p" "slab_mem st p = Some s" "v - virt_addr s < slab_size s"
    moreover have "p \<noteq> 0" using core_placed [OF i(1) \<open>slab_mem st p = Some s\<close>] by (simp add: place_def placement_simps)
    ultimately show ?thesis using slab by (simp add: find_slab_in_hash_def)
  next
    assume n: "find_loop v (slab_hash st ?k) st = Some 0"
      "\<forall>p \<in> set (slab_hash st ?k). \<forall>s. slab_mem st p = Some s \<longrightarrow> \<not> v - virt_addr s < slab_size s"
    have "\<not> v - virt_addr s < slab_size s" if s: "slab_mem st p = Some s" for p s
    proof
      assume lt: "v - virt_addr s < slab_size s"
      then have "?k = get_key (phy_addr s)" using slab_translate(2) [OF i(2,1) s] slab_offset [OF i(1) s] by blast
      then have "p \<in> set (slab_hash st ?k)" using h s by auto
      then show False using n(2) s lt by blast
    qed
    then show ?thesis using none n(1) by (simp add: find_slab_in_hash_def)
  qed
qed

definition shrinks :: "usdm \<Rightarrow> usdm \<Rightarrow> bool" where
  "shrinks st st' \<longleftrightarrow> (\<forall>p x. places st' p = Some x \<longrightarrow> places st p = Some x) \<and>
     proc_pid st' = proc_pid st \<and> container_pid st' = container_pid st \<and> container_fd st' = container_fd st"

text \<open>Unmapping a slab that is on no list any more.\<close>

lemma unmap_slab:
  assumes inv: "slabs_inv st" and env: "unmaps env" and s: "slab_mem st p = Some s" and s': "place s' = place s"
    and l: "lists_ok ((slab_mem st)(p := None)) ml ll (cache_list st) (cache_size st)"
    and st1: "st1 = (set_slab p s' st)\<lparr>mem_list := ml, large_list := ll\<rparr>"
  shows "\<exists>st2. qae_free_slab env p st1 = Some st2 \<and> slabs_inv st2 \<and> shrinks st st2 \<and> slab_mem st2 = (slab_mem st)(p := None)"
proof -
  note i = slabs_invD [OF inv]
  have pl: "places st1 = places st" using s s' by (auto simp: places_def st1)
  have ci: "core_inv st1" using i(1) core_inv_cong [OF pl] by (simp add: st1)
  have m: "slab_mem st1 p = Some s'" by (simp add: st1)
  obtain h j d where f: "qae_free_slab env p st1 =
      Some (st1\<lparr>slab_mem := (slab_mem st1)(p := None), slab_hash := h, iova := j, dma := d\<rparr>)"
      "core ((places st1)(p := None)) j h (container_fd st1) d"
    by (rule free_slab_core [OF ci m env])
  let ?st2 = "st1\<lparr>slab_mem := (slab_mem st1)(p := None), slab_hash := h, iova := j, dma := d\<rparr>"
  have m2: "slab_mem ?st2 = (slab_mem st)(p := None)" by (simp add: st1)
  then have pl2: "places ?st2 = (places st)(p := None)" by (auto simp: places_def)
  have "slabs_inv ?st2"
    using f(2) pl pl2 l m2 table_ok_del [OF i(2)] by (simp add: slabs_inv_def core_inv_def st1)
  moreover have "shrinks st ?st2" using pl2 by (auto simp: shrinks_def st1)
  ultimately show ?thesis using f(1) m2 by blast
qed

text \<open>
  What a release does: it removes at most allocations, and exactly the one that starts at the address
  if there is one.
\<close>

definition free_done :: "u64 \<Rightarrow> usdm \<Rightarrow> u64 \<Rightarrow> usdm \<Rightarrow> bool" where
  "free_done va st va' st' \<longleftrightarrow> slabs_inv st' \<and> shrinks st st' \<and> live st' \<subseteq> live st \<and>
     (\<forall>n. (va, n) \<in> live st \<longrightarrow> va' = 0 \<and> live st' = live st - {(va, n)})"

lemma shrinks_places:
  "places st' = places st \<Longrightarrow> proc_pid st' = proc_pid st \<Longrightarrow> container_pid st' = container_pid st \<Longrightarrow>
   container_fd st' = container_fd st \<Longrightarrow> shrinks st st'"
  by (simp add: shrinks_def)

lemma live_in_slab:
  assumes "slabs_inv st" and "(va, n) \<in> live st" and "slab_mem st p = Some s" and "va - virt_addr s < slab_size s"
  shows "(va, n) \<in> slab_live p s"
proof -
  note i = slabs_invD [OF assms(1)]
  obtain q t where q: "slab_mem st q = Some t" "(va, n) \<in> slab_live q t" using assms(2) by (auto simp: live_in_def)
  note r = slab_live_range [OF i(1,3) q] and o = slab_offset [OF i(1) assms(3), of va]
  have "q = p"
  proof (rule ccontr)
    assume "q \<noteq> p"
    from slabs_apart [OF i(1) q(1) assms(3) this] r o assms(4) show False unfolding apart_def by linarith
  qed
  then show ?thesis using q assms(3) by simp
qed

text \<open>Small slabs: an address that starts a block.\<close>

lemma block_start:
  fixes p va :: u64
  assumes "4096 dvd unat p" and "va mod 1024 = 0" and "unat p \<le> unat va"
  shows "va = p + of_nat (unat (va - p) div 1024 * 1024)"
proof -
  have "1024 dvd unat va" using arg_cong [OF assms(2), of unat] by (simp add: unat_mod dvd_eq_mod_eq_0)
  moreover have "1024 dvd unat p" using assms(1) dvd_trans [of 1024 4096 "unat p"] by simp
  ultimately have "1024 dvd unat (va - p)" using assms(3) by (simp add: unat_sub word_le_nat_alt)
  then have "unat (va - p) div 1024 * 1024 = unat (va - p)" by simp
  then show ?thesis by simp
qed

lemma block_index:
  fixes p :: u64
  assumes "4096 dvd unat p" and "unat p + 2097152 \<le> 140737488355328" and "fb < 2048"
  shows "unat (p + of_nat (fb * 1024) - p) div 1024 = fb" "(p + of_nat (fb * 1024)) mod 1024 = 0"
proof -
  have "unat (of_nat (fb * 1024) :: u64) = fb * 1024" using assms(3) by (simp only: unat_of_nat) simp
  then show "unat (p + of_nat (fb * 1024) - p) div 1024 = fb" by simp
  have "p mod of_nat UNIT_SIZE = 0"
    using assms(1) dvd_trans [of 1024 4096 "unat p"]
    by (simp add: UNIT_SIZE_def word_eq_iff_unsigned unat_mod dvd_eq_mod_eq_0 flip: unat_eq_0)
  then show "(p + of_nat (fb * 1024)) mod 1024 = 0" using unit_offset [of p fb] by (simp add: UNIT_SIZE_def)
qed

lemma slab_live_free:
  assumes s: "slab_type s = SMALL" "fb \<in> blocks (blk s)" and c: "blocks c' = blocks (blk s) - {fb}" "block_len c' = (block_len (blk s))(fb := 0)"
    and p: "unat p + 2097152 \<le> 140737488355328"
  shows "slab_live p (s\<lparr>blk := c', allocations := k\<rparr>) =
    slab_live p s - {(p + of_nat (fb * 1024), block_len (blk s) fb * 1024)}"
proof -
  have "g = fb" if "p + of_nat (g * 1024) = p + (of_nat (fb * 1024) :: u64)" "g \<in> blocks (blk s)" for g
  proof -
    have "unat (of_nat (h * 1024) :: u64) = h * 1024" if "h \<in> blocks (blk s)" for h
      using that by (simp only: unat_of_nat) (simp add: blocks_def)
    then have "g * 1024 = fb * 1024" using that s(2) by (metis add_left_cancel)
    then show ?thesis by simp
  qed
  then show ?thesis using s c by (auto simp: slab_live_def)
qed

text \<open>Two allocations at the same address are the same.\<close>

lemma live_unique:
  assumes "slabs_inv st" and "(va, n) \<in> live st" and "(va, m) \<in> live st"
  shows "n = m"
proof (rule ccontr)
  assume ne: "n \<noteq> m"
  note i = slabs_invD [OF assms(1)]
  have "0 < k" if k: "(va, k) \<in> live st" for k
  proof -
    obtain q t where "slab_mem st q = Some t" "(va, k) \<in> slab_live q t" using k by (auto simp: live_in_def)
    then show ?thesis by (rule slab_live_range(3) [OF i(1,3)])
  qed
  then have "0 < n" "0 < m" using assms(2,3) by blast+
  then show False using live_apart [OF i(1,3) assms(2,3)] ne by (auto simp: apart_def)
qed

lemma free_doneI:
  assumes "slabs_inv st" and "(va, n) \<in> live st"
    and "slabs_inv st'" "shrinks st st'" "live st' = live st - {(va, n)}"
  shows "free_done va st 0 st'"
  using assms(3-5) live_unique [OF assms(1,2)] unfolding free_done_def by blast

text \<open>A small slab without its last block is put into the cache or released.\<close>

lemma emptied_slab:
  assumes inv: "slabs_inv st" and env: "unmaps env" and s: "slab_mem st p = Some s" "p \<in> set (mem_list st)"
    and s1: "cached s1" "place s1 = place s" "slab_size s1 = 0x200000" and x: "slab_live p s = {x}"
  shows "\<exists>st'. do {
        (ret, st2) \<leftarrow> push_slab p ((set_slab p s1 st)\<lparr>mem_list := remove1 p (mem_list st)\<rparr>);
        if ret \<noteq> 0 then do { st3 \<leftarrow> qae_free_slab env p st2; Some (0, st3) } else Some (0, st2)
      } = Some (0 :: u64, st') \<and> slabs_inv st' \<and> shrinks st st' \<and> live st' = live st - {x}"
proof -
  note i = slabs_invD [OF inv]
  let ?st = "(set_slab p s1 st)\<lparr>mem_list := remove1 p (mem_list st)\<rparr>"
  have out: "x \<notin> slab_live q t" if "slab_mem st q = Some t" "q \<noteq> p" for q t
    using live_other [OF i(1,3) s(1) _ that] x by simp
  show ?thesis
  proof (cases "cache_size st + 0x200000 \<le> g_max_cache")
    case True
    let ?st2 = "?st\<lparr>cache_size := cache_size st + 0x200000, cache_list := p # cache_list st\<rparr>"
    have pl: "places ?st2 = places st" using s(1) s1(2) by (auto simp: places_def)
    have "list_inv ?st2" using lists_ok_empty(1) [OF i(3) s(2) s1(1) True] by simp
    moreover have "core_inv ?st2" using i(1) core_inv_cong [OF pl] by simp
    ultimately have "slabs_inv ?st2" using i(2) pl by (simp add: slabs_inv_def)
    moreover have "shrinks st ?st2" using pl by (intro shrinks_places) simp_all
    moreover have "slab_live p s1 = {}" using s1(1) by (simp add: slab_live_def cached_def counted_slab_def)
    then have "live ?st2 = live st - {x}"
      using live_remove [of "slab_mem st" p s s1 x] s(1) x out by auto
    moreover have "push_slab p ?st = Some (0, ?st2)" using True s1(3) by (simp add: push_slab_def)
    ultimately show ?thesis by simp
  next
    case False
    obtain st2 where st2: "qae_free_slab env p ?st = Some st2" "slabs_inv st2" "shrinks st st2" "slab_mem st2 = (slab_mem st)(p := None)"
      using unmap_slab [OF inv env s(1) s1(2) lists_ok_empty(2) [OF i(3) s(2)] refl] by (auto simp: set_slab_def)
    have "live st2 = live st - {x}" unfolding st2(4) by (rule live_unmap [where s = s]) (use s(1) x out in auto)
    moreover have "push_slab p ?st = Some (- ENOMEM, ?st)" using False s1(3) by (simp add: push_slab_def)
    ultimately show ?thesis using st2(1-3) by simp
  qed
qed

lemma free_small:
  assumes inv: "slabs_inv st" and env: "unmaps env" and s: "slab_mem st p = Some s" "slab_type s = SMALL"
    and c: "slab_inv RES c'" "fb \<in> blocks (blk s)" "blocks c' = blocks (blk s) - {fb}" "block_len c' = (block_len (blk s))(fb := 0)"
    and s1: "s1 = s\<lparr>blk := c', allocations := allocations s - 1\<rparr>" and va: "va = p + of_nat (fb * 1024)"
  shows "\<exists>st'. (if allocations s1 \<noteq> 0 then Some (0 :: u64, set_slab p s1 st)
      else do {
        (ret, st2) \<leftarrow> push_slab p ((set_slab p s1 st)\<lparr>mem_list := remove1 p (mem_list st)\<rparr>);
        if ret \<noteq> 0 then do { st3 \<leftarrow> qae_free_slab env p st2; Some (0, st3) } else Some (0, st2)
      }) = Some (0, st') \<and> free_done va st 0 st'"
proof -
  note i = slabs_invD [OF inv]
  note sm = core_small [OF i(1) s]
  have cs: "counted_slab s" by (rule list_inv_small [OF i(3) s])
  have pm: "p \<in> set (mem_list st)"
    using c(2) s(2) by (cases rule: list_inv_slab [OF i(3) s(1)]) (auto simp: cached_def)
  have card: "unat (allocations s) = card (blocks (blk s))" "0 < card (blocks (blk s))"
    using cs c(2) by (auto simp: counted_slab_def card_gt_0_iff)
  have "unat (allocations s - 1) = card (blocks c')"
    using card c(2,3) by (simp add: unat_sub word_le_nat_alt)
  then have cs1: "counted_slab s1" using s(2) c(1) s1 by (simp add: counted_slab_def)
  have al: "allocations s1 = 0 \<longleftrightarrow> blocks c' = {}" using cs1 s1 by (simp add: counted_slab_def unat_eq_0 [symmetric])
  have pl: "place s1 = place s" by (simp add: s1 place_def)
  let ?x = "(va, block_len (blk s) fb * 1024)"
  have sl: "slab_live p s1 = slab_live p s - {?x}" unfolding s1 va by (rule slab_live_free [OF s(2) c(2-4) sm(4)])
  have xin: "?x \<in> slab_live p s" using s(2) c(2) va by (auto simp: slab_live_def)
  then have live: "?x \<in> live st" using s(1) by (auto simp: live_in_def)
  show ?thesis
  proof (cases "blocks c' = {}")
    case False
    then have "in_use s1" using cs1 s1 by (simp add: in_use_def)
    then have "list_inv (set_slab p s1 st)" using lists_ok_update [OF i(3) pm] by simp
    moreover have "core_inv (set_slab p s1 st)" "places (set_slab p s1 st) = places st" using same_core [OF i(1) s(1) pl] by simp_all
    moreover have "live_in ((slab_mem st)(p \<mapsto> s1)) = live st - {?x}"
      by (rule live_remove [where s = s]) (use s(1) sl live_other [OF i(1,3) s(1) xin] in auto)
    ultimately have "free_done va st 0 (set_slab p s1 st)"
      using i(2) by (intro free_doneI [OF inv live] shrinks_places) (simp_all add: slabs_inv_def)
    then show ?thesis using al False by simp
  next
    case True
    have e: "cached s1" "slab_size s1 = 0x200000" "slab_live p s1 = {}"
      using cs1 s1 True sm(1) s(2) by (simp_all add: cached_def slab_live_def)
    have "slab_live p s = {?x}" using sl xin e(3) by auto
    note es = emptied_slab [OF inv env s(1) pm e(1) pl e(2) this]
    have "allocations s1 = 0" using al True by simp
    then show ?thesis using es free_doneI [OF inv live] by auto
  qed
qed

lemma free_large:
  assumes inv: "slabs_inv st" and env: "unmaps env" and s: "slab_mem st p = Some s" "slab_type s \<noteq> SMALL" "va - virt_addr s < slab_size s"
  shows "\<exists>st'. qae_free_slab env p (st\<lparr>large_list := remove1 p (large_list st)\<rparr>) = Some st' \<and> free_done va st 0 st'"
proof -
  note i = slabs_invD [OF inv]
  have "p \<in> set (large_list st)"
    using s(2) by (cases rule: list_inv_slab [OF i(3) s(1)]; auto simp: in_use_def cached_def counted_slab_def)+
  note l = lists_ok_large [OF i(3) this]
  have "set_slab p s st = st" using s(1) by (simp add: set_slab_def fun_upd_idem)
  then obtain st2 where st2: "qae_free_slab env p (st\<lparr>large_list := remove1 p (large_list st)\<rparr>) = Some st2"
      "slabs_inv st2" "shrinks st st2" "slab_mem st2 = (slab_mem st)(p := None)"
    using unmap_slab [OF inv env s(1) refl l refl] by auto
  have one: "slab_live p s = {(virt_addr s, unat (slab_size s))}" using s(2) by (simp add: slab_live_def)
  have "live st2 = live st - {(virt_addr s, unat (slab_size s))}" unfolding st2(4)
    by (rule live_unmap [where s = s]) (use s(1) one live_other [OF i(1,3) s(1)] in auto)
  moreover have "(va, n) = (virt_addr s, unat (slab_size s))" if "(va, n) \<in> live st" for n
    using live_in_slab [OF inv that s(1,3)] one by simp
  ultimately have "free_done va st 0 st2" using st2 unfolding free_done_def by blast
  then show ?thesis using st2(1) by blast
qed

text \<open>A pointer to something that is not allocated.\<close>

lemma free_nothing: "slabs_inv st \<Longrightarrow> (\<And>n. (va, n) \<notin> live st) \<Longrightarrow> free_done va st va' st"
  by (simp add: free_done_def shrinks_def)

lemma no_slab_no_live:
  assumes "slabs_inv st" and "\<And>p s. slab_mem st p = Some s \<Longrightarrow> \<not> va - virt_addr s < slab_size s"
  shows "(va, n) \<notin> live st"
proof
  note i = slabs_invD [OF assms(1)]
  assume "(va, n) \<in> live st"
  then obtain p s where p: "slab_mem st p = Some s" "(va, n) \<in> slab_live p s" by (auto simp: live_in_def)
  then show False using assms(2) [OF p(1)] slab_offset [OF i(1) p(1)] slab_live_range [OF i(1,3) p] by simp
qed

lemma live_block:
  assumes "slabs_inv st" and s: "slab_mem st p = Some s" "slab_type s = SMALL" "va - virt_addr s < slab_size s" and "(va, n) \<in> live st"
  shows "unat (va - p) div 1024 \<in> blocks (blk s)" "va mod 1024 = 0"
proof -
  note sm = core_small [OF slabs_invD(1) [OF assms(1)] s(1,2)]
  have "(va, n) \<in> slab_live p s" by (rule live_in_slab [OF assms(1,5) s(1,3)])
  then obtain fb where fb: "fb \<in> blocks (blk s)" "va = p + of_nat (fb * 1024)" using s(2) by (auto simp: slab_live_def)
  then have "fb < 2048" by (simp add: blocks_def)
  from block_index [OF sm(5,4) this] fb show "unat (va - p) div 1024 \<in> blocks (blk s)" "va mod 1024 = 0" by simp_all
qed

lemma free_addr_spec:
  assumes inv: "usdm_inv pid st" and pid: "env_pid env = pid" and env: "unmaps env" and va: "va \<noteq> 0"
  shows "\<exists>va' st'. qae_free_addr env va secure st = Some (va', st') \<and> free_done va (qaeInitProcess env st) va' st'"
proof -
  let ?st = "qaeInitProcess env st"
  note ip = init_process [OF inv pid]
  note i = slabs_invD [OF ip(1)]
  show ?thesis
  proof (cases rule: find_hash [OF ip(1), of va, case_names none slab])
    case none
    then show ?thesis
      using free_nothing [OF ip(1) no_slab_no_live [OF ip(1) none(2)]] by (auto simp: qae_free_addr_def)
  next
    case (slab p s)
    show ?thesis
    proof (cases "slab_type s = SMALL")
      case True
      note sm = core_small [OF i(1) slab(2) True]
      have inv': "slab_inv RES (blk s)" using list_inv_small [OF i(3) slab(2) True] by (simp add: counted_slab_def)
      have lt: "unat (va - p) < 2097152" using slab(3) sm(1,2) by (simp add: word_less_nat_alt)
      show ?thesis
      proof (cases rule: free_block_cases [OF inv' va lt, of secure, case_names refused freed])
        case refused
        have "(va, n) \<notin> live ?st" for n using live_block [OF ip(1) slab(2) True slab(3)] refused(2) by auto
        then show ?thesis
          using free_nothing [OF ip(1)] slab(1,2,4) True refused(1) by (auto simp: qae_free_addr_def)
      next
        case (freed fb c')
        have "unat p \<le> unat va" using slab_offset [OF i(1) slab(2), of va] slab(3) sm(2) by simp
        then have v: "va = p + of_nat (fb * 1024)" using block_start [OF sm(5) freed(7)] freed(1) by simp
        let ?s1 = "s\<lparr>blk := c', allocations := allocations s - 1\<rparr>"
        have e: "qae_free_addr env va secure st = (if allocations ?s1 \<noteq> 0 then Some (0, set_slab p ?s1 ?st)
            else do {
              (ret, st2) \<leftarrow> push_slab p ((set_slab p ?s1 ?st)\<lparr>mem_list := remove1 p (mem_list ?st)\<rparr>);
              if ret \<noteq> 0 then do { st3 \<leftarrow> qae_free_slab env p st2; Some (0, st3) } else Some (0, st2)
            })"
          using slab(1,2,4) True freed(2) by (simp add: qae_free_addr_def Let_def)
        from free_small [OF ip(1) env slab(2) True freed(3-6) refl v] show ?thesis
          unfolding e by (elim exE conjE) (rule exI, rule exI, erule conjI)
      qed
    next
      case False
      have "slab_type s \<noteq> HUGE_PAGE"
        using False by (cases rule: list_inv_slab [OF i(3) slab(2)]) (auto simp: in_use_def cached_def counted_slab_def)
      then show ?thesis
        using free_large [OF ip(1) env slab(2) False slab(3)] slab(1,2,4) False by (auto simp: qae_free_addr_def)
    qed
  qed
qed

section \<open>End of the library\<close>

lemma reset_loop_ok:
  "core_inv st \<Longrightarrow> list_inv st \<Longrightarrow> unmaps env \<Longrightarrow> length (cache_list st) < n \<Longrightarrow>
   \<exists>m h i d. reset_loop n env st = Some (st\<lparr>slab_mem := m, slab_hash := h, iova := i, dma := d, cache_list := [], cache_size := 0\<rparr>) \<and>
     core_inv (st\<lparr>slab_mem := m, slab_hash := h, iova := i, dma := d, cache_list := [], cache_size := 0\<rparr>) \<and>
     list_inv (st\<lparr>slab_mem := m, slab_hash := h, iova := i, dma := d, cache_list := [], cache_size := 0\<rparr>)"
proof (induction n arbitrary: st)
  case (Suc n)
  show ?case
  proof (cases "cache_list st")
    case Nil
    then have "cache_size st = 0" using Suc.prems(2) by (simp add: lists_ok_def)
    then have e: "st\<lparr>slab_mem := slab_mem st, slab_hash := slab_hash st, iova := iova st, dma := dma st, cache_list := [], cache_size := 0\<rparr> = st"
      using Nil by simp
    have "reset_loop (Suc n) env st = Some st" using Nil by (simp add: pop_slab_def)
    then show ?thesis
      using Suc.prems(1,2) e
      by (intro exI [of _ "slab_mem st"] exI [of _ "slab_hash st"] exI [of _ "iova st"] exI [of _ "dma st"]) (simp only: simp_thms)
  next
    case (Cons q ps)
    obtain s where s: "slab_mem st q = Some s" "cached s"
      using Suc.prems(2) Cons by (auto simp: lists_ok_def all_slabs_def)
    have sm: "slab_type s = SMALL" using s(2) by (simp add: cached_def counted_slab_def)
    note c = core_small [OF Suc.prems(1) s(1) sm]
    let ?st1 = "st\<lparr>cache_size := cache_size st - 0x200000, cache_list := ps\<rparr>"
    have pop: "pop_slab NUMA_ANY_NODE st = Some (q, ?st1)" using Cons s(1) c(1,3) by (simp add: pop_slab_def)
    have ci: "core_inv ?st1" using Suc.prems(1) by (simp add: core_inv_def places_def)
    have m1: "slab_mem ?st1 q = Some s" using s(1) by simp
    obtain h i d where f: "qae_free_slab env q ?st1 =
        Some (?st1\<lparr>slab_mem := (slab_mem ?st1)(q := None), slab_hash := h, iova := i, dma := d\<rparr>)"
        "core ((places ?st1)(q := None)) i h (container_fd ?st1) d"
      by (rule free_slab_core [OF ci m1 Suc.prems(3)])
    let ?st2 = "?st1\<lparr>slab_mem := (slab_mem ?st1)(q := None), slab_hash := h, iova := i, dma := d\<rparr>"
    have "places ?st2 = (places ?st1)(q := None)" by (auto simp: places_def)
    then have ci2: "core_inv ?st2" using f(2) by (simp add: core_inv_def)
    have li2: "list_inv ?st2" using lists_ok_pop(2) [OF Suc.prems(2), of q] Cons by simp
    have "length (cache_list ?st2) < n" using Suc.prems(4) Cons by simp
    from Suc.IH [OF ci2 li2 Suc.prems(3) this] obtain m' h' i' d' where r:
        "reset_loop n env ?st2 = Some (?st2\<lparr>slab_mem := m', slab_hash := h', iova := i', dma := d', cache_list := [], cache_size := 0\<rparr>)"
        "core_inv (?st2\<lparr>slab_mem := m', slab_hash := h', iova := i', dma := d', cache_list := [], cache_size := 0\<rparr>)"
        "list_inv (?st2\<lparr>slab_mem := m', slab_hash := h', iova := i', dma := d', cache_list := [], cache_size := 0\<rparr>)"
      by blast
    have "reset_loop (Suc n) env st = reset_loop n env ?st2" using pop f(1) c(3) by simp
    then show ?thesis using r
      by (intro exI [of _ m'] exI [of _ h'] exI [of _ i'] exI [of _ d']) simp
  qed
qed simp

lemma destroy_list_ok:
  "core_inv st \<Longrightarrow> unmaps env \<Longrightarrow> distinct ps \<Longrightarrow> set ps \<subseteq> dom (slab_mem st) \<Longrightarrow>
   \<exists>h i d. qae_destroyList env ps st = Some (st\<lparr>slab_mem := slab_mem st |` (- set ps), slab_hash := h, iova := i, dma := d\<rparr>) \<and>
     core_inv (st\<lparr>slab_mem := slab_mem st |` (- set ps), slab_hash := h, iova := i, dma := d\<rparr>)"
proof (induction ps arbitrary: st)
  case Nil
  have "slab_mem st |` UNIV = slab_mem st" by (auto simp: restrict_map_def)
  then show ?case
    using Nil.prems(1) by (intro exI [of _ "slab_hash st"] exI [of _ "iova st"] exI [of _ "dma st"]) simp
next
  case (Cons p ps)
  obtain s where s: "slab_mem st p = Some s" using Cons.prems(4) by auto
  obtain h i d where f: "qae_free_slab env p st =
      Some (st\<lparr>slab_mem := (slab_mem st)(p := None), slab_hash := h, iova := i, dma := d\<rparr>)"
      "core ((places st)(p := None)) i h (container_fd st) d"
    by (rule free_slab_core [OF Cons.prems(1) s Cons.prems(2)])
  let ?st2 = "st\<lparr>slab_mem := (slab_mem st)(p := None), slab_hash := h, iova := i, dma := d\<rparr>"
  have "places ?st2 = (places st)(p := None)" by (auto simp: places_def)
  then have ci2: "core_inv ?st2" using f(2) by (simp add: core_inv_def)
  have "distinct ps" "set ps \<subseteq> dom (slab_mem ?st2)" using Cons.prems(3,4) by auto
  from Cons.IH [OF ci2 Cons.prems(2) this] obtain h' i' d' where r:
      "qae_destroyList env ps ?st2 = Some (?st2\<lparr>slab_mem := slab_mem ?st2 |` (- set ps), slab_hash := h', iova := i', dma := d'\<rparr>)"
      "core_inv (?st2\<lparr>slab_mem := slab_mem ?st2 |` (- set ps), slab_hash := h', iova := i', dma := d'\<rparr>)"
    by blast
  have "slab_mem ?st2 |` (- set ps) = slab_mem st |` (- set (p # ps))" by (auto simp: restrict_map_def)
  then show ?case using f(1) r by (intro exI [of _ h'] exI [of _ i'] exI [of _ d']) simp
qed

lemma destroy_ok:
  assumes inv: "usdm_inv pid st" and env: "unmaps env" and lock: "mem_lock env"
  shows "\<exists>st'. qaeMemDestroy env st = Some st' \<and> usdm_inv pid st' \<and> slab_mem st' = Map.empty"
proof -
  let ?st0 = "st\<lparr>ptable := fst (free_page_table (ptable st))\<rparr>"
  have i: "core_inv st" "list_inv st" using inv by (simp_all add: usdm_inv_def)
  have ci0: "core_inv ?st0" using i(1) by (simp add: core_inv_def places_def)
  have li0: "list_inv ?st0" using i(2) by simp
  from reset_loop_ok [OF ci0 li0 env] obtain m h j d where r: "qae_reset_cache env ?st0 =
      Some (?st0\<lparr>slab_mem := m, slab_hash := h, iova := j, dma := d, cache_list := [], cache_size := 0\<rparr>)"
      "core_inv (?st0\<lparr>slab_mem := m, slab_hash := h, iova := j, dma := d, cache_list := [], cache_size := 0\<rparr>)"
      "list_inv (?st0\<lparr>slab_mem := m, slab_hash := h, iova := j, dma := d, cache_list := [], cache_size := 0\<rparr>)"
    unfolding qae_reset_cache_def by blast
  define st1 where "st1 = ?st0\<lparr>slab_mem := m, slab_hash := h, iova := j, dma := d, cache_list := [], cache_size := 0\<rparr>"
  note r1 = r [folded st1_def]
  have l1: "distinct (mem_list st1)" "distinct (large_list st1)" "set (mem_list st1) \<inter> set (large_list st1) = {}"
      "dom (slab_mem st1) = set (mem_list st1) \<union> set (large_list st1)"
    using r1(3) by (auto simp: lists_ok_def st1_def)
  obtain h2 j2 d2 where r2: "qae_destroyList env (mem_list st1) st1 =
      Some (st1\<lparr>slab_mem := slab_mem st1 |` (- set (mem_list st1)), slab_hash := h2, iova := j2, dma := d2\<rparr>)"
      "core_inv (st1\<lparr>slab_mem := slab_mem st1 |` (- set (mem_list st1)), slab_hash := h2, iova := j2, dma := d2\<rparr>)"
    using destroy_list_ok [OF r1(2) env l1(1)] l1(4) by blast
  define st2 where "st2 = st1\<lparr>slab_mem := slab_mem st1 |` (- set (mem_list st1)), slab_hash := h2, iova := j2, dma := d2\<rparr>"
  note r2 = r2 [folded st2_def]
  have ll: "large_list st2 = large_list st1" by (simp add: st2_def)
  have "set (large_list st2) \<subseteq> dom (slab_mem st2)" using l1 by (auto simp: st2_def dom_restrict)
  then obtain h3 j3 d3 where r3: "qae_destroyList env (large_list st2) st2 =
      Some (st2\<lparr>slab_mem := slab_mem st2 |` (- set (large_list st2)), slab_hash := h3, iova := j3, dma := d3\<rparr>)"
      "core_inv (st2\<lparr>slab_mem := slab_mem st2 |` (- set (large_list st2)), slab_hash := h3, iova := j3, dma := d3\<rparr>)"
    using destroy_list_ok [OF r2(2) env] l1(2) ll by metis
  define st3 where "st3 = st2\<lparr>slab_mem := slab_mem st2 |` (- set (large_list st2)), slab_hash := h3, iova := j3, dma := d3\<rparr>"
  let ?st' = "st3\<lparr>cache_list := [], mem_list := [], large_list := []\<rparr>"
  have "dom (slab_mem st3) = {}" using l1(4) by (auto simp: st3_def st2_def dom_restrict)
  then have em: "slab_mem st3 = Map.empty" by simp
  have "qaeMemDestroy env st = Some ?st'"
    using lock r1(1) r2(1) r3(1) [folded st3_def] unfolding qaeMemDestroy_def by simp
  moreover have "core_inv ?st'" using r3(2) [folded st3_def] by (simp add: core_inv_def places_def)
  moreover have "table_ok (places ?st') (ptable ?st')"
    using em by (simp add: table_ok_def places_def st3_def st2_def st1_def free_page_table_def)
  moreover have "list_inv ?st'" using em by (simp add: lists_ok_def all_slabs_def st3_def st2_def st1_def)
  moreover have "proc_pid ?st' = pid \<or> idle ?st'" using em by (simp add: idle_def)
  moreover have "container_pid ?st' = pid \<or> container_fd ?st' < 0" using inv by (simp add: usdm_inv_def st3_def st2_def st1_def)
  ultimately show ?thesis using em by (auto simp: usdm_inv_def)
qed

section \<open>Devices\<close>

lemma exclude_loop_aligned:
  "slab_aligned nxt \<Longrightarrow> exclude_loop nxt start used = Some (n', u) \<Longrightarrow> slab_aligned n'"
proof (induction nxt start used rule: exclude_loop.induct)
  case (1 nxt start used)
  show ?case
  proof (cases "nxt < min start MAX_IOVA")
    case True
    obtain v where v: "set_bit_u32 used (IOVA_IDX nxt) = Some v" "exclude_loop (nxt + IOVA_SLAB_SIZE) start v = Some (n', u)"
      using "1.prems"(2) True by (auto simp: exclude_loop.simps [of nxt start used] split: option.splits)
    have "slab_aligned (nxt + IOVA_SLAB_SIZE)" using "1.prems"(1) exclude_step(1) [OF True] by simp
    then show ?thesis using "1.IH" [OF True v(1) _ v(2)] by simp
  next
    case False
    then show ?thesis using "1.prems" by (auto simp: exclude_loop.simps [of nxt start used] split: if_splits)
  qed
qed

lemma filter_range_total:
  "used_ok used \<Longrightarrow> slab_aligned nxt \<Longrightarrow>
   \<exists>n' u. filter_range nxt ranges used = Some (n', u) \<and> used_ok u \<and> slab_aligned n' \<and>
     (\<forall>j. slab_used used j \<longrightarrow> slab_used u j)"
proof (induction nxt ranges used rule: filter_range.induct)
  case (2 nxt start stop ranges used)
  obtain n1 v where v: "exclude_loop nxt start used = Some (n1, v)" "used_ok v" "\<forall>j. slab_used used j \<longrightarrow> slab_used v j"
    using exclude_loop_ok [OF "2.prems", of start] by blast
  show ?case
  proof (cases "stop \<ge> MAX_IOVA")
    case True
    then show ?thesis using v exclude_loop_aligned [OF "2.prems"(2) v(1)] by simp
  next
    case False
    then have "unat stop < 549753716736" by (simp add: word_le_nat_alt iova_consts)
    from "2.IH" [OF v(1) _ False v(2) round_down_slab(1) [OF this]] show ?thesis using v False by auto
  qed
qed simp

lemma filter_caps_total:
  "used_ok used \<Longrightarrow> slab_aligned nxt \<Longrightarrow>
   \<exists>u. filter_caps nxt caps used = Some u \<and> used_ok u \<and> (\<forall>j. slab_used used j \<longrightarrow> slab_used u j)"
proof (induction caps arbitrary: nxt used)
  case (Cons ranges caps)
  obtain n1 v where v: "filter_range nxt ranges used = Some (n1, v)" "used_ok v" "slab_aligned n1"
      "\<forall>j. slab_used used j \<longrightarrow> slab_used v j"
    using filter_range_total [OF Cons.prems, of ranges] by (elim exE conjE)
  then show ?case using Cons.IH [OF v(2,3)] by auto
qed simp

lemma iova_ok_more:
  assumes "iova_ok m i" and "used_ok u" and "\<forall>j. slab_used (iova_used i) j \<longrightarrow> slab_used u j"
  shows "iova_ok m (i\<lparr>iova_used := u\<rparr>)"
proof (rule iova_okI)
  show "iova_inv (i\<lparr>iova_used := u\<rparr>)" using iova_okD(1) [OF assms(1)] assms(2) by (simp add: iova_inv_def)
  show "slab_used (iova_used (i\<lparr>iova_used := u\<rparr>)) j" if "m p = Some x" "covers x j" for p x j
    using iova_okD(2) [OF assms(1) that] assms(3) by simp
qed (rule iova_okD(3) [OF assms(1)])

lemma filter_inv:
  assumes "usdm_inv pid st"
  shows "\<exists>u. filter_dma_ranges (Some caps) st = Some (0, st\<lparr>iova := (iova st)\<lparr>iova_used := u\<rparr>\<rparr>) \<and>
    usdm_inv pid (st\<lparr>iova := (iova st)\<lparr>iova_used := u\<rparr>\<rparr>)"
proof -
  have i: "core_inv st" using assms by (simp add: usdm_inv_def)
  note io = core_invD(2) [OF i]
  have "used_ok (iova_used (iova st))" using iova_okD(1) [OF io] by (simp add: iova_inv_def)
  then obtain u where u: "filter_caps 0 caps (iova_used (iova st)) = Some u" "used_ok u"
      "\<forall>j. slab_used (iova_used (iova st)) j \<longrightarrow> slab_used u j"
    using filter_caps_total [of "iova_used (iova st)" 0 caps] by auto
  then have "usdm_inv pid (st\<lparr>iova := (iova st)\<lparr>iova_used := u\<rparr>\<rparr>)"
    using assms iova_ok_more [OF io u(2,3)] by (simp add: usdm_inv_def core_inv_def core_def places_def idle_def)
  then show ?thesis using u(1) by (auto simp: filter_dma_ranges_def)
qed

abbreviation maps :: "mem_env \<Rightarrow> bool" where
  "maps env \<equiv> \<forall>ph. map_dma env ph = Map_Ok"

definition slab_mapping :: "usdm \<Rightarrow> u64 \<Rightarrow> u64 \<times> u64 \<times> u64" where
  "slab_mapping st p = (case slab_mem st p of None \<Rightarrow> (0, 0, 0) | Some s \<Rightarrow> (phy_addr s, virt_addr s, slab_size s))"

lemma map_slabs_ok:
  "maps env \<Longrightarrow> set ps \<subseteq> dom (slab_mem st) \<Longrightarrow>
   dma_map_slabs env ps st = Some (0, st\<lparr>dma := rev (map (slab_mapping st) ps) @ dma st\<rparr>)"
proof (induction ps arbitrary: st)
  case (Cons p ps)
  obtain s where s: "slab_mem st p = Some s" using Cons.prems(2) by auto
  let ?st = "st\<lparr>dma := (phy_addr s, virt_addr s, slab_size s) # dma st\<rparr>"
  have "map (slab_mapping ?st) ps = map (slab_mapping st) ps" by (simp add: slab_mapping_def)
  then show ?case using Cons.IH [OF Cons.prems(1), of ?st] Cons.prems s
    by (simp add: dma_map_slab_def slab_mapping_def)
qed simp

lemma unmap_slabs_ok:
  "unmaps env \<Longrightarrow> set ps \<subseteq> dom (slab_mem st) \<Longrightarrow>
   dma_unmap_slabs env ps st = Some (0, st\<lparr>dma := filter (\<lambda>e. fst e \<notin> fst ` slab_mapping st ` set ps) (dma st)\<rparr>)"
proof (induction ps arbitrary: st)
  case (Cons p ps)
  obtain s where s: "slab_mem st p = Some s" using Cons.prems(2) by auto
  let ?st = "st\<lparr>dma := filter (\<lambda>e. fst e \<noteq> phy_addr s) (dma st)\<rparr>"
  have "slab_mapping ?st = slab_mapping st" by (intro ext) (simp add: slab_mapping_def)
  moreover have "fst (slab_mapping st p) = phy_addr s" using s by (simp add: slab_mapping_def)
  ultimately show ?case using Cons.IH [OF Cons.prems(1), of ?st] Cons.prems s
    by (simp add: dma_unmap_slab_def conj_commute)
qed simp

lemma mapping_ran: "mapping_of ` ran (places st) = slab_mapping st ` dom (slab_mem st)"
  by (force simp: ran_def places_def slab_mapping_def place_def mapping_of.simps image_iff split: option.splits)

lemma dma_inv:
  assumes "core_inv st"
  shows "set (dma st) = (if container_fd st < 0 then {} else slab_mapping st ` dom (slab_mem st))"
  using core_invD(4) [OF assms] by (simp add: dma_ok_def mapping_ran)

lemma dma_core:
  assumes "core_inv st" and "set d = (if fd < 0 then {} else slab_mapping st ` dom (slab_mem st))"
  shows "core_inv (st\<lparr>container_fd := fd, dma := d\<rparr>)"
proof -
  have "places (st\<lparr>container_fd := fd, dma := d\<rparr>) = places st" by (simp add: places_def)
  then show ?thesis using core_invD [OF assms(1)] assms(2) by (simp add: core_inv_def core_def dma_ok_def mapping_ran)
qed

lemma map_all_ok:
  assumes inv: "slabs_inv st" and env: "maps env" and fd: "container_fd st < 0" "0 \<le> fd"
  shows "\<exists>d. map_all env fd st = Some (0, st\<lparr>container_fd := fd, dma := d\<rparr>) \<and> core_inv (st\<lparr>container_fd := fd, dma := d\<rparr>)"
proof -
  note i = slabs_invD [OF inv]
  have dm: "dom (slab_mem st) = set (mem_list st) \<union> set (large_list st) \<union> set (cache_list st)" using i(3) by (auto simp: lists_ok_def)
  then have sub: "set (mem_list st) \<subseteq> dom (slab_mem st)" "set (large_list st) \<subseteq> dom (slab_mem st)"
      "set (cache_list st) \<subseteq> dom (slab_mem st)" by blast+
  let ?d = "rev (map (slab_mapping st) (cache_list st)) @ rev (map (slab_mapping st) (large_list st)) @
    rev (map (slab_mapping st) (mem_list st)) @ dma st"
  have sm: "slab_mapping (st\<lparr>container_fd := fd\<rparr>) = slab_mapping st" "slab_mapping (st\<lparr>container_fd := fd, dma := d\<rparr>) = slab_mapping st" for d
    by (intro ext; simp add: slab_mapping_def)+
  have "map_all env fd st = Some (0, st\<lparr>container_fd := fd, dma := ?d\<rparr>)"
    using env sub by (simp add: map_all_def map_slabs_ok sm)
  moreover have "set ?d = slab_mapping st ` dom (slab_mem st)" using dma_inv [OF i(1)] fd(1) dm by auto
  then have "core_inv (st\<lparr>container_fd := fd, dma := ?d\<rparr>)" using fd(2) by (intro dma_core [OF i(1)]) simp
  ultimately show ?thesis by blast
qed

lemma register_ok:
  assumes inv: "usdm_inv pid st" and pid: "env_pid env = pid" and env: "maps env" and fd: "0 \<le> fd"
  shows "\<exists>r st'. qaeRegisterDevice env info fd st = Some (r, st') \<and> usdm_inv pid st' \<and> slab_mem st' = slab_mem st"
proof (cases info)
  case None
  then show ?thesis using inv by (auto simp: qaeRegisterDevice_def filter_dma_ranges_def)
next
  case (Some caps)
  obtain u where u: "filter_dma_ranges info st = Some (0, st\<lparr>iova := (iova st)\<lparr>iova_used := u\<rparr>\<rparr>)"
      "usdm_inv pid (st\<lparr>iova := (iova st)\<lparr>iova_used := u\<rparr>\<rparr>)"
    using filter_inv [OF inv, of caps] Some by blast
  define st0 where "st0 = st\<lparr>iova := (iova st)\<lparr>iova_used := u\<rparr>\<rparr>"
  define st1 where "st1 = qaeInitProcess env st0"
  note ip = init_process [OF u(2) [folded st0_def] pid, folded st1_def]
  define st2 where "st2 = (if env_pid env \<noteq> container_pid st1
    then st1\<lparr>container_pid := env_pid env, container_fd := - 1, container_ref := 0\<rparr> else st1)"
  have cp: "container_pid st0 = pid \<or> container_fd st0 < 0" using u(2) by (simp add: usdm_inv_def st0_def)
  have m2: "slab_mem st2 = slab_mem st" "proc_pid st2 = pid" "container_pid st2 = pid"
    using ip(2,3) pid by (auto simp: st2_def st0_def)
  have inv2: "slabs_inv st2"
  proof (cases "env_pid env = container_pid st1")
    case False
    then have "container_fd st1 < 0" using cp ip(4,5) pid by auto
    then have "dma st1 = []" using dma_inv [OF slabs_invD(1) [OF ip(1)]] by simp
    then show ?thesis
      using ip(1) False by (auto simp: st2_def slabs_inv_def core_inv_def core_def dma_ok_def places_def)
  qed (use ip(1) in \<open>simp add: st2_def\<close>)
  have fin: "usdm_inv pid st3" if "core_inv st3" "slab_mem st3 = slab_mem st2" "ptable st3 = ptable st2" "mem_list st3 = mem_list st2"
      "large_list st3 = large_list st2" "cache_list st3 = cache_list st2" "cache_size st3 = cache_size st2"
      "proc_pid st3 = pid" "container_pid st3 = pid" for st3
    using that slabs_invD(2,3) [OF inv2] by (simp add: usdm_inv_def places_def)
  have eq: "qaeRegisterDevice env info fd st = do {
      (r, st3) \<leftarrow> (if container_fd st2 < 0 then map_all env fd st2 else Some (0, st2));
      Some (if r \<noteq> 0 then (1, st3)
            else if fd = container_fd st3 then (0, st3\<lparr>container_ref := container_ref st3 + 1\<rparr>) else (1, st3)) }"
    using u(1) by (simp add: qaeRegisterDevice_def st2_def st1_def st0_def Let_def)
  obtain st3 where st3: "(if container_fd st2 < 0 then map_all env fd st2 else Some (0, st2)) = Some (0, st3)" "core_inv st3"
      "slab_mem st3 = slab_mem st2" "ptable st3 = ptable st2" "mem_list st3 = mem_list st2" "large_list st3 = large_list st2"
      "cache_list st3 = cache_list st2" "cache_size st3 = cache_size st2" "proc_pid st3 = pid" "container_pid st3 = pid"
  proof (cases "container_fd st2 < 0")
    case True
    obtain d where "map_all env fd st2 = Some (0, st2\<lparr>container_fd := fd, dma := d\<rparr>)" "core_inv (st2\<lparr>container_fd := fd, dma := d\<rparr>)"
      using map_all_ok [OF inv2 env True fd] by blast
    then show ?thesis using that [of "st2\<lparr>container_fd := fd, dma := d\<rparr>"] True m2 by simp
  next
    case False
    then show ?thesis using that [of st2] inv2 m2 by (simp add: slabs_inv_def)
  qed
  have ref: "core_inv (st3\<lparr>container_ref := k\<rparr>)" for k using st3(2) by (simp add: core_inv_def places_def)
  show ?thesis
    using eq st3 fin [OF st3(2-10)] fin [of "st3\<lparr>container_ref := container_ref st3 + 1\<rparr>", OF ref] m2 by auto
qed

lemma unregister_ok:
  assumes inv: "usdm_inv pid st" and pid: "env_pid env = pid" and env: "unmaps env"
  shows "\<exists>r st'. qaeUnregisterDevice env fd st = Some (r, st') \<and> usdm_inv pid st' \<and> slab_mem st' = slab_mem st"
proof -
  have i: "core_inv st" "list_inv st" using inv by (simp_all add: usdm_inv_def)
  let ?st = "st\<lparr>container_ref := container_ref st - 1\<rparr>"
  have keep: "usdm_inv pid ?st" using inv by (simp add: usdm_inv_def core_inv_def places_def idle_def)
  have dm: "dom (slab_mem st) = set (mem_list st) \<union> set (large_list st) \<union> set (cache_list st)" using i(2) by (auto simp: lists_ok_def)
  then have sub: "set (mem_list st) \<subseteq> dom (slab_mem st)" "set (large_list st) \<subseteq> dom (slab_mem st)"
      "set (cache_list st) \<subseteq> dom (slab_mem st)" by blast+
  have sm: "slab_mapping ?st = slab_mapping st" "slab_mapping (?st\<lparr>dma := d\<rparr>) = slab_mapping st" for d
    by (intro ext; simp add: slab_mapping_def)+
  define d where "d = filter (\<lambda>e. fst e \<notin> fst ` slab_mapping st ` set (cache_list st))
    (filter (\<lambda>e. fst e \<notin> fst ` slab_mapping st ` set (large_list st))
      (filter (\<lambda>e. fst e \<notin> fst ` slab_mapping st ` set (mem_list st)) (dma st)))"
  have empty: "set d = {}"
  proof -
    have "e \<notin> set d" for e
    proof
      assume "e \<in> set d"
      then have e: "e \<in> set (dma st)" "fst e \<notin> fst ` slab_mapping st ` dom (slab_mem st)" unfolding d_def dm by (auto simp: image_Un)
      then have "e \<in> slab_mapping st ` dom (slab_mem st)" using dma_inv [OF i(1)] by (auto split: if_splits)
      then show False using e(2) by blast
    qed
    then show ?thesis by (intro equals0I) (rule notE)
  qed
  have "core_inv (st\<lparr>container_fd := - 1, dma := d\<rparr>)" by (rule dma_core [OF i(1)]) (simp add: empty)
  then have last: "usdm_inv pid (?st\<lparr>dma := d, container_fd := - 1\<rparr>)"
    using inv by (simp add: usdm_inv_def core_inv_def places_def idle_def)
  have un: "dma_unmap_slabs env (mem_list st) ?st \<bind> (\<lambda>(r1, st1). dma_unmap_slabs env (large_list st1) st1 \<bind>
      (\<lambda>(r2, st2). dma_unmap_slabs env (cache_list st2) st2 \<bind> (\<lambda>(r3, st3).
        Some (if r1 \<noteq> 0 \<or> r2 \<noteq> 0 \<or> r3 \<noteq> 0 then (1::int) else 0, st3\<lparr>container_fd := - 1\<rparr>)))) =
      Some (0, ?st\<lparr>dma := d, container_fd := - 1\<rparr>)"
    using env sub by (simp add: unmap_slabs_ok sm d_def)
  show ?thesis
  proof (cases "container_ref st \<le> 0 \<or> container_fd st \<noteq> fd \<or> env_pid env \<noteq> container_pid st")
    case True
    then show ?thesis using inv by (auto simp: qaeUnregisterDevice_def)
  next
    case False
    then have "qaeUnregisterDevice env fd st =
        (if container_ref st - 1 \<noteq> 0 then Some (0, ?st) else Some (0, ?st\<lparr>dma := d, container_fd := - 1\<rparr>))"
      using un by (cases "container_ref st = 1") (simp_all add: qaeUnregisterDevice_def Let_def)
    then show ?thesis using keep last by (auto split: if_splits)
  qed
qed

end
