(* ===== verification/Dma_Memory.thy ===== *)
theory Dma_Memory
  imports Qat_Prelude
begin

text \<open>
  What the services rely on when they hand buffers to the device: memory that was allocated for it is
  contiguous in the device's address space, has a non-zero address there, and an access of the device
  to such an address reaches the byte the program means.  The memory library provides this contract
  (theory \<open>Usdm_Mem_Ops\<close>), the descriptors of buffer lists use it (theory \<open>Lac_Buffer_Desc\<close>).
\<close>

locale dma_memory =
  fixes mem :: "(u64 \<times> nat) set" and v2p :: "u64 \<Rightarrow> u64" and access :: "u64 \<Rightarrow> u64 set"
  assumes linear: "(a, n) \<in> mem \<Longrightarrow> d < n \<Longrightarrow> v2p (a + of_nat d) = v2p a + of_nat d"
    and exact: "(a, n) \<in> mem \<Longrightarrow> d < n \<Longrightarrow> access (v2p (a + of_nat d)) = {a + of_nat d}"
    and range: "(a, n) \<in> mem \<Longrightarrow> d < n \<Longrightarrow> 0 < unat (v2p (a + of_nat d)) \<and> unat (v2p (a + of_nat d)) + 8 \<le> 2 ^ 64"
begin

text \<open>A buffer inside of an allocation.\<close>

lemma inside_access:
  assumes "(a, n) \<in> mem" and "off + len \<le> n" and "i < len"
  shows "access (v2p (a + of_nat off) + of_nat i) = {a + of_nat off + of_nat i}"
proof -
  have "v2p (a + of_nat off) + of_nat i = v2p (a + of_nat (off + i))"
    using linear [OF assms(1), of off] linear [OF assms(1), of "off + i"] assms(2,3) by (simp add: add.assoc)
  then show ?thesis using exact [OF assms(1), of "off + i"] assms(2,3) by (simp add: add.assoc)
qed

end

text \<open>The bytes of a buffer of \<open>len\<close> bytes at \<open>p\<close> lie inside of an allocation.\<close>

definition allocated :: "(u64 \<times> nat) set \<Rightarrow> u64 \<Rightarrow> nat \<Rightarrow> bool" where
  "allocated mem p len \<longleftrightarrow> (\<exists>a n off. (a, n) \<in> mem \<and> p = a + of_nat off \<and> off < n \<and> off + len \<le> n)"

end
