(* ===== verification/Usdm_Mem_Ops.thy ===== *)
theory Usdm_Mem_Ops
  imports Usdm_Mem_Free Dma_Memory
begin

text \<open>
  The calls of a process as one transition relation, the states they reach, and the properties of the
  memory library: it is safe, allocations are apart, aligned and contiguous for the device, freeing
  removes exactly what was allocated, and the device reaches exactly the memory that is mapped for it.
  The library provides the contract \<open>dma_memory\<close> of the services.
\<close>

section \<open>The device's view\<close>

text \<open>The virtual addresses that an access of the device to the I/O address \<open>x\<close> reaches.\<close>

definition device_access :: "usdm \<Rightarrow> u64 \<Rightarrow> u64 list" where
  "device_access st x = map (\<lambda>(ph, v, n). v + (x - ph)) (filter (\<lambda>(ph, v, n). x - ph < n) (dma st))"

lemma phys_offset:
  assumes "core_inv st" and "slab_mem st p = Some s"
  shows "x - phy_addr s < slab_size s \<longleftrightarrow> unat (phy_addr s) \<le> unat x \<and> unat x < unat (phy_addr s) + unat (slab_size s)"
  using core_placed [OF assms] by (intro offset_less) (simp add: place_def placement_simps)

lemma covers_byte:
  assumes "well_placed p (Place ty n ph v)" and "unat ph \<le> x" "x < unat ph + unat n"
  shows "covers (Place ty n ph v) (x div 2097152)"
proof -
  note w = assms(1) [unfolded placement_simps]
  have "unat (ucast n :: u32) = unat n" by (rule bytes_u32) (use w in simp)
  moreover obtain k where k: "unat ph = 2097152 * k" using w by (metis dvd_eq_mod_eq_0 dvdE)
  have "x div 2097152 < k + (unat n + 2097151) div 2097152" using assms(2,3) unfolding k by linarith
  moreover have "k \<le> x div 2097152" using assms(2) unfolding k by linarith
  ultimately show ?thesis using k by (simp add: covers.simps in_slabs_def slabs_def)
qed

lemma phys_slab_unique:
  assumes "core_inv st" and "slab_mem st p = Some s" and "slab_mem st q = Some t"
    and "x - phy_addr s < slab_size s" "x - phy_addr t < slab_size t"
  shows "p = q"
proof -
  have "covers (place s) (unat x div 2097152)" "covers (place t) (unat x div 2097152)"
    using assms(4,5) unfolding phys_offset [OF assms(1,2)] phys_offset [OF assms(1,3)] place_def
    by (intro covers_byte [OF core_placed [OF assms(1,2), unfolded place_def]]
        covers_byte [OF core_placed [OF assms(1,3), unfolded place_def]]; simp)+
  then show ?thesis using iova_okD(3) [OF core_invD(2) [OF assms(1)]] assms(2,3) by (metis places_Some)
qed

lemma live_translate:
  assumes "usdm_inv pid st" and "(a, n) \<in> live st" and "d < n"
  obtains p s where "slab_mem st p = Some s" "(a, n) \<in> slab_live p s"
    "qaeVirtToPhysNUMA st (a + of_nat d) = phy_addr s + (a + of_nat d - virt_addr s)"
    "a + of_nat d - virt_addr s < slab_size s"
proof -
  have i: "core_inv st" "table_ok (places st) (ptable st)" "list_inv st" using assms(1) by (auto simp: usdm_inv_def)
  obtain p s where p: "slab_mem st p = Some s" "(a, n) \<in> slab_live p s" using assms(2) by (auto simp: live_in_def)
  note b = live_bytes [OF i(1,3) p assms(3)]
  show thesis
    by (rule that [OF p slab_translate(1) [OF i(2,1) p(1) b(2,3)]]) (use slab_offset [OF i(1) p(1)] b in simp)
qed

lemma device_access_inv:
  assumes inv: "usdm_inv pid st" and a: "(a, n) \<in> live st" "d < n" and fd: "0 \<le> container_fd st"
  shows "set (device_access st (qaeVirtToPhysNUMA st (a + of_nat d))) = {a + of_nat d}"
proof -
  have i: "core_inv st" using inv by (simp add: usdm_inv_def)
  obtain p s where p: "slab_mem st p = Some s"
      "qaeVirtToPhysNUMA st (a + of_nat d) = phy_addr s + (a + of_nat d - virt_addr s)"
      "a + of_nat d - virt_addr s < slab_size s"
    using live_translate [OF inv a] by metis
  let ?x = "qaeVirtToPhysNUMA st (a + of_nat d)"
  have dm: "set (dma st) = slab_mapping st ` dom (slab_mem st)" using dma_inv [OF i] fd by simp
  have mp: "slab_mapping st p = (phy_addr s, virt_addr s, slab_size s)" using p(1) by (simp add: slab_mapping_def)
  have in_s: "?x - phy_addr s < slab_size s" using p(2,3) by simp
  have "e = slab_mapping st p" if e: "e \<in> set (dma st)" "?x - fst e < snd (snd e)" for e
  proof -
    obtain q t where q: "slab_mem st q = Some t" "e = (phy_addr t, virt_addr t, slab_size t)"
      using e(1) dm by (auto simp: slab_mapping_def)
    then have "p = q" using phys_slab_unique [OF i p(1) q(1) in_s] e(2) by simp
    then show ?thesis using q p(1) mp by simp
  qed
  moreover have "slab_mapping st p \<in> set (dma st)" unfolding dm using p(1) by (intro imageI) auto
  moreover have "?x - fst (slab_mapping st p) < snd (snd (slab_mapping st p))" using in_s mp by simp
  ultimately have "{e \<in> set (dma st). ?x - fst e < snd (snd e)} = {slab_mapping st p}" by blast
  then have "set (filter (\<lambda>(ph, v, m). ?x - ph < m) (dma st)) = {slab_mapping st p}" by (simp add: case_prod_beta)
  then show ?thesis using mp p(2) by (simp add: device_access_def)
qed

text \<open>The other way round: \<open>qaePhysToVirtNUMA\<close> looks at the small slabs in use only.\<close>

lemma phys_loop_spec:
  assumes "core_inv st" and "slab_mem st p = Some s" and "x - phy_addr s < slab_size s"
  shows "set ps \<subseteq> dom (slab_mem st) \<Longrightarrow>
    phys_loop x ps st = Some (if p \<in> set ps then virt_addr s + (x - phy_addr s) else 0)"
proof (induction ps)
  case (Cons q ps)
  obtain t where t: "slab_mem st q = Some t" using Cons.prems by auto
  show ?case
  proof (cases "q = p")
    case True
    then show ?thesis using assms(2,3) by simp
  next
    case False
    then have "\<not> x - phy_addr t < slab_size t" using phys_slab_unique [OF assms(1,2) t assms(3)] by blast
    then show ?thesis using Cons t False by simp
  qed
qed simp

lemma phys_to_virt_inv:
  assumes inv: "usdm_inv pid st" and a: "(a, n) \<in> live st" "d < n" and lock: "mem_lock env" "mem_unlock env"
  shows "qaePhysToVirtNUMA env (qaeVirtToPhysNUMA st (a + of_nat d)) st =
    Some (if \<exists>p \<in> set (mem_list st). \<exists>s. slab_mem st p = Some s \<and> (a, n) \<in> slab_live p s then a + of_nat d else 0)"
proof -
  have i: "core_inv st" "list_inv st" using inv by (simp_all add: usdm_inv_def)
  obtain p s where p: "slab_mem st p = Some s" "(a, n) \<in> slab_live p s"
      "qaeVirtToPhysNUMA st (a + of_nat d) = phy_addr s + (a + of_nat d - virt_addr s)"
      "a + of_nat d - virt_addr s < slab_size s"
    by (rule live_translate [OF inv a])
  let ?x = "qaeVirtToPhysNUMA st (a + of_nat d)"
  have in_s: "?x - phy_addr s < slab_size s" using p(3,4) by simp
  have "set (mem_list st) \<subseteq> dom (slab_mem st)" using i(2) by (auto simp: lists_ok_def)
  from phys_loop_spec [OF i(1) p(1) in_s this]
  have "phys_loop ?x (mem_list st) st = Some (if p \<in> set (mem_list st) then a + of_nat d else 0)" using p(3) by simp
  moreover have "(\<exists>q \<in> set (mem_list st). \<exists>t. slab_mem st q = Some t \<and> (a, n) \<in> slab_live q t) \<longleftrightarrow> p \<in> set (mem_list st)"
    using live_other [OF i p(1,2)] p(1,2) by blast
  ultimately show ?thesis using lock by (simp add: qaePhysToVirtNUMA_def)
qed

section \<open>Operations\<close>

text \<open>
  The calls of a process as one relation.  \<open>op_env\<close> collects what each call relies on: system memory at
  free addresses, an IOMMU that maps and unmaps what it is asked for, and a valid container.
\<close>

datatype usdm_op =
    Mem_Init
  | Mem_Destroy
  | Mem_Alloc u64 int u64
  | Mem_Free "u64 option" bool
  | Register_Device "(u64 \<times> u64) list list option" int
  | Unregister_Device int

fun usdm_exec :: "mem_env \<Rightarrow> usdm_op \<Rightarrow> usdm \<Rightarrow> usdm option" where
  "usdm_exec env Mem_Init st = Some (snd (qaeMemInit env st))"
| "usdm_exec env Mem_Destroy st = qaeMemDestroy env st"
| "usdm_exec env (Mem_Alloc bytes node align) st = map_option snd (qaeMemAllocNUMA env bytes node align st)"
| "usdm_exec env (Mem_Free ptr secure) st = map_option snd (qae_memFreeNUMA env ptr secure st)"
| "usdm_exec env (Register_Device info fd) st = map_option snd (qaeRegisterDevice env info fd st)"
| "usdm_exec env (Unregister_Device fd) st = map_option snd (qaeUnregisterDevice env fd st)"

fun op_env :: "mem_env \<Rightarrow> usdm_op \<Rightarrow> usdm \<Rightarrow> bool" where
  "op_env env Mem_Init st \<longleftrightarrow> True"
| "op_env env (Mem_Alloc bytes node align) st \<longleftrightarrow> alloc_env env bytes node align st"
| "op_env env (Register_Device info fd) st \<longleftrightarrow> maps env \<and> 0 \<le> fd"
| "op_env env oper st \<longleftrightarrow> unmaps env"

inductive usdm_reach :: "int \<Rightarrow> usdm \<Rightarrow> bool" for pid where
  start: "usdm_reach pid usdm_init"
| call: "usdm_reach pid st \<Longrightarrow> env_pid env = pid \<Longrightarrow> op_env env oper st \<Longrightarrow> usdm_exec env oper st = Some st' \<Longrightarrow>
    usdm_reach pid st'"

section \<open>The operations keep the invariant\<close>

lemma usdm_init_inv: "usdm_inv pid usdm_init"
  by (simp add: usdm_inv_def usdm_init_def idle_def core_inv_def core_def places_def virt_ok_def iova_ok_def hash_ok_def
      dma_ok_def table_ok_def lists_ok_def all_slabs_def iova_init_inv)

lemma init_frame_live:
  assumes "usdm_inv pid st" and "env_pid env = pid"
  shows "live (qaeInitProcess env st) = live st"
  using init_process(2) [OF assms] by simp

lemma mem_init_ok:
  assumes "usdm_inv pid st" and "env_pid env = pid"
  shows "usdm_inv pid (snd (qaeMemInit env st))"
proof (cases "mem_lock env")
  case True
  have "frame (qaeInitProcess env st) (qaeInitProcess env st)" by (simp add: frame_def)
  from init_frame(1) [OF assms this init_process(1) [OF assms]] show ?thesis using True by (simp add: qaeMemInit_def)
next
  case False
  then show ?thesis using assms(1) by (simp add: qaeMemInit_def)
qed

text \<open>What \<open>qaeMemAllocNUMA\<close> promises.\<close>

definition same_translation :: "(u64 \<times> nat) set \<Rightarrow> usdm \<Rightarrow> usdm \<Rightarrow> bool" where
  "same_translation l st st' \<longleftrightarrow>
     (\<forall>a n d. (a, n) \<in> l \<and> d < n \<longrightarrow> qaeVirtToPhysNUMA st' (a + of_nat d) = qaeVirtToPhysNUMA st (a + of_nat d))"

definition alloc_result :: "u64 \<Rightarrow> u64 \<Rightarrow> usdm \<Rightarrow> u64 \<Rightarrow> usdm \<Rightarrow> bool" where
  "alloc_result bytes align st a st' \<longleftrightarrow>
     (\<exists>n. unat bytes \<le> n \<and> live st' = insert (a, n) (live st) \<and> (a, n) \<notin> live st \<and>
        (\<forall>b m. (b, m) \<in> live st \<longrightarrow> apart a n b m) \<and>
        unat align dvd unat (qaeVirtToPhysNUMA st' a) \<and>
        (\<forall>d < n. qaeVirtToPhysNUMA st' (a + of_nat d) = qaeVirtToPhysNUMA st' a + of_nat d))"

lemma live_linear:
  assumes inv: "usdm_inv pid st" and a: "(a, n) \<in> live st" and d: "d < n"
  shows "qaeVirtToPhysNUMA st (a + of_nat d) = qaeVirtToPhysNUMA st a + of_nat d"
proof -
  have i: "core_inv st" "table_ok (places st) (ptable st)" "list_inv st" using inv by (auto simp: usdm_inv_def)
  obtain p s where p: "slab_mem st p = Some s" "(a, n) \<in> slab_live p s" using a by (auto simp: live_in_def)
  have "qaeVirtToPhysNUMA st (a + of_nat e) = phy_addr s + (a + of_nat e - virt_addr s)" if "e < n" for e
    by (rule slab_translate(1) [OF i(2,1) p(1) live_bytes(2,3) [OF i(1,3) p that]])
  from this [OF d] this [of 0] d show ?thesis by simp
qed

lemma mem_alloc_inv:
  assumes inv: "usdm_inv pid st" and pid: "env_pid env = pid" and env: "alloc_env env bytes node align st"
  shows "\<exists>a st'. qaeMemAllocNUMA env bytes node align st = Some (a, st') \<and> usdm_inv pid st' \<and>
    same_translation (live st) st st' \<and> (a \<noteq> 0 \<longrightarrow> alloc_result bytes align st a st') \<and>
    (a = 0 \<and> mem_unlock env \<longrightarrow> live st' = live st) \<and>
    (a \<noteq> 0 \<longrightarrow> is_large bytes align \<or> fits bytes (unat (align div 1024)))"
proof (cases "bytes = 0 \<or> bytes > QAE_MAX_ALLOC_SIZE \<or> align = 0 \<or> align > QAE_MAX_PHYS_ALIGN \<or> align AND (align - 1) \<noteq> 0 \<or> \<not> mem_lock env")
  case True
  then show ?thesis using inv by (auto simp: qaeMemAllocNUMA_def same_translation_def)
next
  case False
  then have b: "good_size bytes" and al: "unat align \<le> 4194304" "align \<noteq> 0" "align AND (align - 1) = 0"
    by (auto simp: QAE_MAX_ALLOC_SIZE_def QAE_MAX_PHYS_ALIGN_def not_less word_le_nat_alt)
  obtain k where k: "unat align = 2 ^ k" using pow2_word [OF al(2,3)] by blast
  obtain a st' where r: "qae_alloc_addr env bytes node align st = Some (a, st')"
      "alloc_done bytes align (qaeInitProcess env st) a st'"
      "a \<noteq> 0 \<longrightarrow> is_large bytes align \<or> fits bytes (unat (align div 1024))"
    using alloc_addr_spec [OF inv pid b k al(1) env] by blast
  have eq: "qaeMemAllocNUMA env bytes node align st = Some (if mem_unlock env then a else 0, st')"
    using False r(1) by (simp add: qaeMemAllocNUMA_def)
  have d: "slabs_inv st'" "frame (qaeInitProcess env st) st'" using r(2) by (simp_all add: alloc_done_def)
  have inv': "usdm_inv pid st'" and tr: "same_translation (live st) st st'"
    using init_frame [OF inv pid d(2,1)] unfolding same_translation_def by blast+
  note l = init_frame_live [OF inv pid]
  have "alloc_result bytes align st a st'" if a: "a \<noteq> 0"
  proof -
    obtain n where n: "unat bytes \<le> n" "live st' = insert (a, n) (live st)" "(a, n) \<notin> live st"
        "unat align dvd unat (qaeVirtToPhysNUMA st' a)"
      using r(2) a l unfolding alloc_done_def by (simp only: if_False) blast
    have "apart a n c m" if c: "(c, m) \<in> live st" for c m
      using live_apart [of st' a n c m] inv' c n(2,3) by (auto simp: usdm_inv_def)
    moreover have "qaeVirtToPhysNUMA st' (a + of_nat d) = qaeVirtToPhysNUMA st' a + of_nat d" if "d < n" for d
      using live_linear [OF inv' _ that] n(2) by simp
    ultimately show ?thesis using n unfolding alloc_result_def by blast
  qed
  moreover have "live st' = live st" if "a = 0" using r(2) that l by (simp add: alloc_done_def)
  ultimately show ?thesis using eq inv' tr r(3) by simp
qed

text \<open>What the free functions promise.\<close>

lemma shrinks_translate:
  assumes "slabs_inv st" and "slabs_inv st'" and "shrinks st st'"
  shows "same_translation (live st') st st'"
proof -
  have "qaeVirtToPhysNUMA st' (a + of_nat d) = qaeVirtToPhysNUMA st (a + of_nat d)" if x: "(a, n) \<in> live st'" "d < n" for a n d
  proof -
    obtain p s where p: "slab_mem st' p = Some s" "(a, n) \<in> slab_live p s" using x(1) by (auto simp: live_in_def)
    then have "places st' p = Some (place s)" by (simp add: places_def)
    then have "places st p = Some (place s)" using assms(3) unfolding shrinks_def by blast
    then show ?thesis
      using translate_same [OF assms(2,1) p(1)] live_bytes(2,3) [OF slabs_invD(1,3) [OF assms(2)] p x(2)] by simp
  qed
  then show ?thesis unfolding same_translation_def by blast
qed

lemma mem_free_inv:
  assumes inv: "usdm_inv pid st" and pid: "env_pid env = pid" and env: "unmaps env"
  shows "\<exists>ptr' st'. qae_memFreeNUMA env ptr secure st = Some (ptr', st') \<and> usdm_inv pid st' \<and>
    live st' \<subseteq> live st \<and> same_translation (live st') st st' \<and>
    (\<forall>va n. ptr = Some va \<and> va \<noteq> 0 \<and> mem_lock env \<and> (va, n) \<in> live st \<longrightarrow> ptr' = Some 0 \<and> live st' = live st - {(va, n)})"
proof (cases "\<exists>va. ptr = Some va \<and> va \<noteq> 0 \<and> mem_lock env")
  case False
  then have "qae_memFreeNUMA env ptr secure st = Some (ptr, st)" by (auto simp: qae_memFreeNUMA_def split: option.splits)
  then show ?thesis using inv False by (auto simp: same_translation_def)
next
  case True
  then obtain va where va: "ptr = Some va" "va \<noteq> 0" "mem_lock env" by blast
  let ?st = "qaeInitProcess env st"
  note ip = init_process [OF inv pid] and l = init_frame_live [OF inv pid]
  obtain va' st' where r: "qae_free_addr env va secure st = Some (va', st')" "free_done va ?st va' st'"
    using free_addr_spec [OF inv pid env va(2)] by blast
  have f: "slabs_inv st'" "shrinks ?st st'" "live st' \<subseteq> live st" using r(2) l by (auto simp: free_done_def)
  have tr: "same_translation (live st') ?st st'" by (rule shrinks_translate [OF ip(1) f(1,2)])
  have "usdm_inv pid st'"
    using inv f(1,2) ip(3-5) unfolding usdm_inv_def slabs_inv_def shrinks_def by metis
  moreover have "same_translation (live st') st st'"
  proof (cases "proc_pid st = pid")
    case False
    then have "live st = {}" using inv by (auto simp: usdm_inv_def idle_def live_in_def)
    then show ?thesis using f(3) by (auto simp: same_translation_def)
  qed (use tr ip(7) in simp)
  moreover have "\<forall>n. (va, n) \<in> live st \<longrightarrow> va' = 0 \<and> live st' = live st - {(va, n)}" using r(2) l by (simp add: free_done_def)
  ultimately show ?thesis using va r(1) f(3) by (auto simp: qae_memFreeNUMA_def)
qed

lemma usdm_exec_inv:
  assumes inv: "usdm_inv pid st" and pid: "env_pid env = pid" and env: "op_env env oper st"
  shows "\<exists>st'. usdm_exec env oper st = Some st' \<and> usdm_inv pid st'"
proof (cases oper)
  case Mem_Init
  then show ?thesis using mem_init_ok [OF inv pid] by simp
next
  case Mem_Destroy
  then show ?thesis using destroy_ok [OF inv] env inv by (cases "mem_lock env") (auto simp: qaeMemDestroy_def)
next
  case (Mem_Alloc bytes node align)
  then show ?thesis using mem_alloc_inv [OF inv pid, of bytes node align] env by auto
next
  case (Mem_Free ptr secure)
  then show ?thesis using mem_free_inv [OF inv pid, of ptr secure] env by auto
next
  case (Register_Device info fd)
  then show ?thesis using register_ok [OF inv pid, of fd info] env by auto
next
  case (Unregister_Device fd)
  then show ?thesis using unregister_ok [OF inv pid, of fd] env by auto
qed

lemma usdm_reach_inv: "usdm_reach pid st \<Longrightarrow> usdm_inv pid st"
proof (induction rule: usdm_reach.induct)
  case (call st env oper st')
  then show ?case using usdm_exec_inv [OF call.IH call.hyps(2,3)] by simp
qed (rule usdm_init_inv)

section \<open>The contract with the services\<close>

definition device_memory :: "int \<Rightarrow> usdm \<Rightarrow> (u64 \<times> nat) set" where
  "device_memory pid st = (if usdm_inv pid st \<and> 0 \<le> container_fd st then live st else {})"

lemma live_address:
  assumes inv: "usdm_inv pid st" and a: "(a, n) \<in> live st" "d < n"
  shows "0 < unat (qaeVirtToPhysNUMA st (a + of_nat d)) \<and> unat (qaeVirtToPhysNUMA st (a + of_nat d)) + 8 \<le> 2 ^ 64"
proof -
  have i: "core_inv st" using inv by (simp add: usdm_inv_def)
  obtain p s where p: "slab_mem st p = Some s" "(a, n) \<in> slab_live p s"
      "qaeVirtToPhysNUMA st (a + of_nat d) = phy_addr s + (a + of_nat d - virt_addr s)"
      "a + of_nat d - virt_addr s < slab_size s"
    by (rule live_translate [OF inv a])
  let ?x = "qaeVirtToPhysNUMA st (a + of_nat d)"
  have "?x - phy_addr s < slab_size s" using p(3,4) by simp
  then have "unat (phy_addr s) \<le> unat ?x" "unat ?x < unat (phy_addr s) + unat (slab_size s)"
    unfolding phys_offset [OF i p(1)] by simp_all
  then show ?thesis using core_placed [OF i p(1)] by (simp add: place_def placement_simps)
qed

interpretation um: dma_memory "device_memory pid st" "qaeVirtToPhysNUMA st" "\<lambda>x. set (device_access st x)" for pid st
proof
  fix a n d assume a: "(a, n) \<in> device_memory pid st" "d < n"
  then have l: "usdm_inv pid st" "(a, n) \<in> live st" "0 \<le> container_fd st" by (auto simp: device_memory_def split: if_splits)
  show "qaeVirtToPhysNUMA st (a + of_nat d) = qaeVirtToPhysNUMA st a + of_nat d" by (rule live_linear [OF l(1,2) a(2)])
  show "set (device_access st (qaeVirtToPhysNUMA st (a + of_nat d))) = {a + of_nat d}"
    by (rule device_access_inv [OF l(1,2) a(2) l(3)])
  show "0 < unat (qaeVirtToPhysNUMA st (a + of_nat d)) \<and> unat (qaeVirtToPhysNUMA st (a + of_nat d)) + 8 \<le> 2 ^ 64"
    by (rule live_address [OF l(1,2) a(2)])
qed

section \<open>A concrete process\<close>

text \<open>A process that registers a device and then allocates 4 MB.\<close>

definition example_env :: mem_env where
  "example_env = \<lparr>env_pid = 1, mmap_first = (\<lambda>n. 0x10000000), mmap_second = (\<lambda>n. 0x20000000),
     table_mmap = (\<lambda>_. True), map_dma = (\<lambda>_. Map_Ok), unmap_dma = (\<lambda>_. True), mem_lock = True, mem_unlock = True\<rparr>"

lemma example_env_ok: "env_ok (\<lambda>_. None) example_env" "unmaps example_env" "maps example_env"
  by (simp_all add: env_ok_def example_env_def region_free_def)

definition example_start :: usdm where
  "example_start = usdm_init\<lparr>proc_pid := 1, ptable := fst (free_page_table (zero_level 4)), container_pid := 1,
     container_fd := 3, container_ref := 1\<rparr>"

lemma example_register: "qaeRegisterDevice example_env (Some []) 3 usdm_init = Some (0, example_start)"
  by (simp add: qaeRegisterDevice_def filter_dma_ranges_def qaeInitProcess_def check_pid_def qae_ResetControl_def
      map_all_def example_env_def example_start_def usdm_init_def iova_init_def)

lemma example_start_reach: "usdm_reach 1 example_start"
  by (rule usdm_reach.call [OF usdm_reach.start, where env = example_env and oper = "Register_Device (Some []) 3"])
    (simp_all add: example_register example_env_ok, simp add: example_env_def)

lemma example_init: "qaeInitProcess example_env example_start = example_start"
  by (simp add: qaeInitProcess_def check_pid_def example_env_def example_start_def)

lemma example_alloc:
  obtains st where "qaeMemAllocNUMA example_env 0x400000 NUMA_ANY_NODE 0x1000 example_start = Some (0x20000000, st)"
    "container_fd st = 3" "mem_list st = []"
proof -
  obtain r i where r: "allocate_iova iova_init 0x400000 0x1000 = Some (r, i)" "r \<noteq> 0" by (rule iova_init_alloc)
  obtain t k where t: "store_mmap_range (\<lambda>_. True) 0x20000000 r 0x400000 False (ptable example_start) 0 = (t, k)" by fastforce
  have "iova example_start = iova_init" "slab_mem example_start = (\<lambda>_. None)" "container_fd example_start = 3"
      "table_calls example_start = 0" "mem_list example_start = []"
    by (simp_all add: example_start_def usdm_init_def)
  note e = this
  have "\<exists>st. alloc_new example_env 0x400000 0x1000 0x400000 LARGE example_start = Some (0x20000000, st) \<and>
      container_fd st = 3 \<and> mem_list st = []"
    using r t e by (simp add: alloc_new_def qae_alloc_slab_def ioctl_alloc_slab_def add_slab_to_hash_def dma_map_slab_def
        round_up_def example_env_def set_slab_def Let_def)
  then obtain st where st: "alloc_new example_env 0x400000 0x1000 0x400000 LARGE example_start = Some (0x20000000, st)"
      "container_fd st = 3" "mem_list st = []" by blast
  have "qaeMemAllocNUMA example_env 0x400000 NUMA_ANY_NODE 0x1000 example_start = Some (0x20000000, st)"
    using st(1) by (simp add: qaeMemAllocNUMA_def qae_alloc_addr_def example_init QAE_MAX_ALLOC_SIZE_def QAE_MAX_PHYS_ALIGN_def
        UNIT_SIZE_def reserved_units_eq div_round_up_def max_def Let_def) (simp add: example_env_def)
  then show thesis using that st(2,3) by blast
qed

lemma example_alloc_env: "alloc_env example_env 0x400000 NUMA_ANY_NODE 0x1000 example_start"
proof -
  obtain r i where r: "allocate_iova iova_init 0x400000 0x1000 = Some (r, i)" "r \<noteq> 0" by (rule iova_init_alloc)
  have "is_large 0x400000 0x1000" by (simp add: is_large_def div_round_up_def UNIT_SIZE_def reserved_units_eq)
  moreover have "iova_left 0x400000 0x1000 example_start"
    using r by (simp add: iova_left_def large_bytes_def div_round_up_def round_up_def UNIT_SIZE_def max_def example_start_def usdm_init_def)
  moreover have "slab_mem example_start = (\<lambda>_. None)" by (simp add: example_start_def usdm_init_def)
  ultimately show ?thesis using example_env_ok by (simp add: alloc_env_def example_init)
qed

lemma example_state:
  obtains st n where "usdm_reach 1 st" "(0x20000000, n) \<in> live st" "4194304 \<le> n" "container_fd st = 3" "mem_list st = []"
proof -
  obtain st where st: "qaeMemAllocNUMA example_env 0x400000 NUMA_ANY_NODE 0x1000 example_start = Some (0x20000000, st)"
    "container_fd st = 3" "mem_list st = []" by (rule example_alloc)
  have pid: "env_pid example_env = 1" by (simp add: example_env_def)
  have "usdm_reach 1 st"
    by (rule usdm_reach.call [OF example_start_reach pid, where oper = "Mem_Alloc 0x400000 NUMA_ANY_NODE 0x1000"])
      (simp_all add: example_alloc_env st(1))
  moreover have "alloc_result 0x400000 0x1000 example_start 0x20000000 st"
    using mem_alloc_inv [OF usdm_reach_inv [OF example_start_reach] pid example_alloc_env] st(1) by simp
  ultimately show thesis using that st(2,3) by (auto simp: alloc_result_def)
qed

lemma example_no_small:
  assumes "usdm_reach pid st" and "mem_list st = []" and "slab_mem st p = Some s" and "(a, n) \<in> slab_live p s"
  shows "slab_type s \<noteq> SMALL"
proof -
  have "list_inv st" using usdm_reach_inv [OF assms(1)] by (simp add: usdm_inv_def)
  then show ?thesis
    using assms(2,4) by (cases rule: list_inv_slab [OF _ assms(3)]) (auto simp: cached_def counted_slab_def slab_live_def)
qed

section \<open>Blocks that do not fit\<close>

lemma not_is_large:
  fixes bytes align :: u64
  assumes "unat bytes \<le> 2043 * 1024" and "unat align < 2097152"
  shows "\<not> is_large bytes align"
proof -
  have "unat (div_round_up bytes (of_nat UNIT_SIZE)) = (unat bytes + 1023) div 1024"
    using assms(1) by (subst div_round_up_unat) (simp_all add: UNIT_SIZE_def)
  moreover have "(unat bytes + 1023) div 1024 \<le> 2043" using assms(1) by linarith
  ultimately have "unat (div_round_up bytes (of_nat UNIT_SIZE) + of_nat RES) \<le> 2048"
    by (simp add: unat_word_ariths reserved_units_eq)
  then show ?thesis using assms(2) by (simp add: is_large_def word_less_nat_alt word_le_nat_alt UNIT_SIZE_def)
qed

lemma not_fits:
  fixes bytes align :: u64
  assumes "unat align = 2 ^ k" and "1024 \<le> unat align" and "2097152 < unat align + unat bytes"
  shows "\<not> fits bytes (unat (align div 1024))"
proof
  assume "fits bytes (unat (align div 1024))"
  then obtain fb where fb: "aligned_at (unat (align div 1024)) fb" "RES \<le> fb" "fb + units bytes \<le> 2048" by (auto simp: fits_def)
  have "2 ^ 10 \<le> (2 ^ k :: nat)" using assms(1,2) by simp
  then have "10 \<le> k" by (rule power_le_imp_le_exp [rotated]) simp
  then have "2 ^ 10 dvd (2 ^ k :: nat)" by (rule le_imp_power_dvd)
  then have al: "unat (align div 1024) * 1024 = unat align" using assms(1) by (simp add: unat_div)
  then have "unat (align div 1024) \<noteq> 0" using assms(2) by (metis mult_zero_left not_numeral_le_zero)
  then have "unat (align div 1024) dvd fb" using fb(1) by (auto simp: aligned_at_def)
  moreover have "0 < fb" using fb(2) by (simp add: reserved_units_eq)
  ultimately have "unat (align div 1024) \<le> fb" by (rule dvd_imp_le)
  then show False using fb(3) al assms(3) units_enough [of bytes] by linarith
qed

section \<open>Properties\<close>

text \<open>C2. In every state that a process reaches through calls of the memory library, every call returns:
  no control structure that is not mapped is accessed, no loop runs on, no array is left.  And no two
  allocations overlap.\<close>

theorem usdm_safe:
  assumes "usdm_reach pid st" and "env_pid env = pid" and "op_env env oper st"
  shows "(\<exists>st'. usdm_exec env oper st = Some st') \<and>
    (\<forall>a n b m. (a, n) \<in> live st \<and> (b, m) \<in> live st \<and> (a, n) \<noteq> (b, m) \<longrightarrow> apart a n b m)"
proof -
  note inv = usdm_reach_inv [OF assms(1)]
  have "core_inv st" "list_inv st" using inv by (simp_all add: usdm_inv_def)
  then show ?thesis using usdm_exec_inv [OF inv assms(2,3)] live_apart by blast
qed

theorem usdm_safe_witness:
  "\<exists>st'. usdm_exec example_env (Mem_Alloc 0x400000 NUMA_ANY_NODE 0x1000) example_start = Some st'"
  using usdm_safe [OF example_start_reach, of example_env "Mem_Alloc 0x400000 NUMA_ANY_NODE 0x1000"] example_alloc_env
  by (simp add: example_env_def)



text \<open>C7. Freeing an allocation sets the pointer to NULL and removes this allocation and no other; any other
  pointer frees at most something that was allocated.  The translation of what stays allocated is kept.\<close>

theorem mem_free_spec:
  assumes "usdm_reach pid st" and "env_pid env = pid" and "unmaps env"
  shows "\<exists>ptr' st'. qae_memFreeNUMA env ptr secure st = Some (ptr', st') \<and>
    live st' \<subseteq> live st \<and> same_translation (live st') st st' \<and>
    (\<forall>va n. ptr = Some va \<and> va \<noteq> 0 \<and> mem_lock env \<and> (va, n) \<in> live st \<longrightarrow>
       ptr' = Some 0 \<and> live st' = live st - {(va, n)})"
  using mem_free_inv [OF usdm_reach_inv [OF assms(1)] assms(2,3), of ptr secure]
  by (elim exE conjE) (intro exI conjI)

theorem mem_free_spec_witness:
  "\<exists>st n st'. (0x20000000, n) \<in> live st \<and> qae_memFreeNUMA example_env (Some 0x20000000) True st = Some (Some 0, st') \<and>
     live st' = live st - {(0x20000000, n)}"
proof -
  obtain st n where s: "usdm_reach 1 st" "(0x20000000, n) \<in> live st" "4194304 \<le> n" "container_fd st = 3" "mem_list st = []"
    by (rule example_state)
  have "env_pid example_env = 1" "mem_lock example_env" by (simp_all add: example_env_def)
  note e = this
  obtain ptr' st' where r: "qae_memFreeNUMA example_env (Some 0x20000000) True st = Some (ptr', st')"
      "\<forall>va n. Some 0x20000000 = Some va \<and> va \<noteq> 0 \<and> mem_lock example_env \<and> (va, n) \<in> live st \<longrightarrow>
         ptr' = Some 0 \<and> live st' = live st - {(va, n)}"
    using mem_free_spec [OF s(1) e(1) example_env_ok(2), of "Some 0x20000000" True] by (elim exE conjE)
  have "ptr' = Some 0 \<and> live st' = live st - {(0x20000000, n)}" using r(2) e(2) s(2) by simp
  then show ?thesis using r(1) s(2) by blast
qed



text \<open>C36. The way back from I/O addresses to virtual ones works for small slabs only: for memory in a large
  slab \<open>qaePhysToVirtNUMA\<close> returns NULL.\<close>

theorem phys_to_virt_small:
  assumes "usdm_reach pid st" and "slab_mem st p = Some s" "(a, n) \<in> slab_live p s" and "d < n"
    and "mem_lock env" "mem_unlock env"
  shows "qaePhysToVirtNUMA env (qaeVirtToPhysNUMA st (a + of_nat d)) st =
    Some (if slab_type s = SMALL then a + of_nat d else 0)"
proof -
  note inv = usdm_reach_inv [OF assms(1)]
  have i: "core_inv st" "list_inv st" using inv by (simp_all add: usdm_inv_def)
  have "(a, n) \<in> live st" using assms(2,3) by (auto simp: live_in_def)
  note r = phys_to_virt_inv [OF inv this assms(4-6)]
  have "(\<exists>q \<in> set (mem_list st). \<exists>t. slab_mem st q = Some t \<and> (a, n) \<in> slab_live q t) \<longleftrightarrow> p \<in> set (mem_list st)"
    using live_other [OF i assms(2,3)] assms(2,3) by blast
  moreover have "p \<in> set (mem_list st) \<longleftrightarrow> slab_type s = SMALL"
    using assms(3) i(2) by (cases rule: list_inv_slab [OF i(2) assms(2)])
      (auto simp: in_use_def cached_def counted_slab_def slab_live_def lists_ok_def)
  ultimately show ?thesis using r by simp
qed

theorem phys_to_virt_small_witness:
  "\<exists>st n. (0x20000000, n) \<in> live st \<and> qaePhysToVirtNUMA example_env (qaeVirtToPhysNUMA st 0x20000400) st = Some 0"
proof -
  obtain st n where s: "usdm_reach 1 st" "(0x20000000, n) \<in> live st" "4194304 \<le> n" "container_fd st = 3" "mem_list st = []"
    by (rule example_state)
  obtain p t where p: "slab_mem st p = Some t" "(0x20000000, n) \<in> slab_live p t" using s(2) by (auto simp: live_in_def)
  have "slab_type t \<noteq> SMALL" using example_no_small [OF s(1,5) p] .
  moreover have "mem_lock example_env" "mem_unlock example_env" by (simp_all add: example_env_def)
  ultimately show ?thesis using phys_to_virt_small [OF s(1) p, of 1024 example_env] s(2,3) by auto
qed

text \<open>C37. A request for an aligned block that ends behind the first block boundary of a small slab always
  fails, although it is smaller than a slab and the large slabs could hold it.\<close>

theorem aligned_request_fails:
  assumes "usdm_reach pid st" and "env_pid env = pid" and "alloc_env env bytes node align st"
    and "unat bytes \<le> 2043 * 1024" and "unat align = 2 ^ k" and "1024 \<le> unat align" "unat align < 2097152"
    and "2097152 < unat align + unat bytes"
  shows "\<exists>st'. qaeMemAllocNUMA env bytes node align st = Some (0, st')"
proof -
  obtain a st' where r: "qaeMemAllocNUMA env bytes node align st = Some (a, st')"
      "a \<noteq> 0 \<longrightarrow> is_large bytes align \<or> fits bytes (unat (align div 1024))"
    using mem_alloc_inv [OF usdm_reach_inv [OF assms(1)] assms(2,3)] by blast
  moreover have "\<not> is_large bytes align" by (rule not_is_large [OF assms(4,7)])
  moreover have "\<not> fits bytes (unat (align div 1024))" by (rule not_fits [OF assms(5,6,8)])
  ultimately show ?thesis by auto
qed

theorem aligned_request_fails_witness:
  "\<exists>st'. qaeMemAllocNUMA example_env 0x180000 NUMA_ANY_NODE 0x100000 usdm_init = Some (0, st')"
proof (rule aligned_request_fails [OF usdm_reach.start, where k = 20])
  have "\<not> is_large 0x180000 0x100000" by (rule not_is_large) simp_all
  then show "alloc_env example_env 0x180000 NUMA_ANY_NODE 0x100000 usdm_init"
    using example_env_ok by (simp add: alloc_env_def qae_find_slab_def qae_userMemLookupBySize_def pop_slab_def usdm_init_def
        qaeInitProcess_def check_pid_def qae_ResetControl_def)
qed (simp_all add: example_env_def)

text \<open>C23. \<open>qaeMemDestroy\<close> releases everything: no slab is left, nothing is mapped for the device.\<close>

theorem mem_destroy_spec:
  assumes "usdm_reach pid st" and "unmaps env" and "mem_lock env"
  shows "\<exists>st'. qaeMemDestroy env st = Some st' \<and> slab_mem st' = Map.empty \<and> live st' = {} \<and> dma st' = []"
proof -
  obtain st' where r: "qaeMemDestroy env st = Some st'" "usdm_inv pid st'" "slab_mem st' = Map.empty"
    using destroy_ok [OF usdm_reach_inv [OF assms(1)] assms(2,3)] by blast
  have i: "core_inv st'" using r(2) by (simp add: usdm_inv_def)
  have "set (dma st') = {}" unfolding dma_inv [OF i] r(3) by simp
  then show ?thesis using r(1,3) by (simp add: live_in_def)
qed

theorem mem_destroy_spec_witness:
  "\<exists>st n st'. (0x20000000, n) \<in> live st \<and> qaeMemDestroy example_env st = Some st' \<and> live st' = {} \<and> dma st' = []"
proof -
  obtain st n where s: "usdm_reach 1 st" "(0x20000000, n) \<in> live st" "4194304 \<le> n" "container_fd st = 3" "mem_list st = []"
    by (rule example_state)
  have "mem_lock example_env" by (simp add: example_env_def)
  from mem_destroy_spec [OF s(1) example_env_ok(2) this] show ?thesis using s(2) by blast
qed



end
