(* ===== verification/Adf_Ring.thy ===== *)
theory Adf_Ring
  imports Qat_Prelude
begin

text \<open>
  The request and response rings of the user-space transport
  (\<open>qat_direct/common/adf_user_ring.c\<close>, \<open>adf_user_ETring_mgr_dp.c\<close>, \<open>vfio/adf_vfio_ring.c\<close>).
  Ring memory is an array of 32 bit words addressed by byte offsets; an access outside it gives
  \<open>None\<close>.  Callbacks are recorded: a poll returns the messages it handed to the callback, in
  order.  The counter of requests in flight is shared by the two rings of a pair, so it is passed
  separately.  Whether a mutex could be taken is the parameter \<open>lock\<close>; device registers are fields.
\<close>

section \<open>Data\<close>

record device =
  is_gen4 :: bool
  arb_mask :: u32

record bank =
  user_bank_lock :: bool
  ring_mask :: u16
  tx_rings_mask :: u16
  csr_arb_en :: u32

record ring =
  accel_dev :: "device option"
  ring_mem :: "u32 list"
  ring_virt_addr :: u64
  ring_phys_base_addr :: u64
  ring_num :: nat
  ring_size :: u32
  message_size :: u32
  send_seq :: u64
  ring_head :: u32
  ring_tail :: u32
  ring_modulo :: u32
  max_requests_inflight :: u32
  coal_write_count :: u32
  min_resps_per_head_write :: u32
  csrTailOffset :: u32
  ringResponseQuota :: u32
  resp_irq :: bool
  csr_head :: u32
  csr_tail :: u32
  csr_base :: u64
  csr_config :: u64

definition EMPTY_RING_SIG_WORD :: u32 where "EMPTY_RING_SIG_WORD = 0x7F7F7F7F"

abbreviation ICP_RINGSIZE_KILO_1 :: u32 where "ICP_RINGSIZE_KILO_1 \<equiv> 4"
abbreviation ICP_RINGSIZE_KILO_16 :: u32 where "ICP_RINGSIZE_KILO_16 \<equiv> 8"
abbreviation ICP_RINGSIZE_MEG_4 :: u32 where "ICP_RINGSIZE_MEG_4 \<equiv> 16"
abbreviation MODULO_SHIFT_FOR_1K :: u32 where "MODULO_SHIFT_FOR_1K \<equiv> 10"
abbreviation MODULO_SHIFT_FOR_16K :: u32 where "MODULO_SHIFT_FOR_16K \<equiv> 14"
abbreviation MODULO_SHIFT_FOR_4M :: u32 where "MODULO_SHIFT_FOR_4M \<equiv> 22"
abbreviation MIN_RESPONSES_PER_HEAD_WRITE :: u32 where "MIN_RESPONSES_PER_HEAD_WRITE \<equiv> 32"
abbreviation ICP_NO_RESPONSE_QUOTA :: u32 where "ICP_NO_RESPONSE_QUOTA \<equiv> 10000"

definition ICP_ET_SIZE_TO_BYTES :: "u32 \<Rightarrow> u32" where
  "ICP_ET_SIZE_TO_BYTES n = push_bit (unat n) 64"

definition modulo :: "u32 \<Rightarrow> u32 \<Rightarrow> u32" where
  "modulo data shift = data - push_bit (unat shift) (drop_bit (unat shift) data)"

section \<open>Size of a ring\<close>

text \<open>The loop that counts the bits of the size in kilobytes.\<close>

function count_bits :: "u32 \<Rightarrow> u32 \<Rightarrow> u32" where
  "count_bits kbytes k_size =
     (if kbytes > 0 then count_bits (drop_bit 1 kbytes) (k_size + 1) else k_size)"
  by pat_completeness auto

termination count_bits
proof (relation "measure (\<lambda>(kbytes, k). unat kbytes)")
  fix kbytes k_size :: u32
  assume "0 < kbytes"
  then have "0 < unat kbytes" by (simp add: word_less_nat_alt)
  moreover have "unat (drop_bit 1 kbytes) = unat kbytes div 2"
    by (simp add: drop_bit_eq_div unat_div)
  ultimately show "((drop_bit 1 kbytes, k_size + 1), kbytes, k_size) \<in> measure (\<lambda>(kbytes, k). unat kbytes)"
    by simp
qed simp

declare count_bits.simps [simp del]

text \<open>The configuration value and the shift of \<open>modulo_value\<close>.\<close>

definition validateRingSize :: "u32 \<Rightarrow> u32 \<Rightarrow> u32 \<times> u32" where
  "validateRingSize num_msgs_on_ring msg_size_in_bytes =
     (let size_in_bytes = num_msgs_on_ring * msg_size_in_bytes;
          max_ring_bytes = ICP_ET_SIZE_TO_BYTES ICP_RINGSIZE_MEG_4
      in if num_msgs_on_ring = 0 \<or> msg_size_in_bytes = 0 \<or> modulo msg_size_in_bytes 4 \<noteq> 0
         then (ICP_RINGSIZE_KILO_16, MODULO_SHIFT_FOR_16K)
         else if max_ring_bytes \<ge> size_in_bytes
         then let k_size = count_bits (drop_bit (unat MODULO_SHIFT_FOR_1K) (size_in_bytes - 1)) 0
              in (ICP_RINGSIZE_KILO_1 + k_size, MODULO_SHIFT_FOR_1K + k_size)
         else (ICP_RINGSIZE_MEG_4, MODULO_SHIFT_FOR_4M))"

section \<open>Reservation of a ring in its bank\<close>

definition adf_reserve_ring :: "bool \<Rightarrow> bank \<Rightarrow> nat \<Rightarrow> int \<times> bank" where
  "adf_reserve_ring lock bank ring_number =
     (if \<not> user_bank_lock bank then (- 1, bank)
      else if \<not> lock then (- 1, bank)
      else if ring_mask bank AND push_bit ring_number 1 = 0
      then (0, bank\<lparr>ring_mask := ring_mask bank OR push_bit ring_number 1\<rparr>)
      else (- EBUSY, bank))"

definition adf_unreserve_ring :: "bool \<Rightarrow> bank \<Rightarrow> nat \<Rightarrow> bank" where
  "adf_unreserve_ring lock bank ring_number =
     (if \<not> lock then bank
      else bank\<lparr>ring_mask := ring_mask bank AND NOT (push_bit ring_number 1)\<rparr>)"

definition popcount :: "u32 \<Rightarrow> nat" where
  "popcount w = length (filter (bit w) [0..<32])"

definition update_ring :: "u32 \<Rightarrow> u32 \<Rightarrow> u32" where
  "update_ring bank_ring_mask arb =
     (let shift = popcount arb;
          arben_tx = bank_ring_mask AND arb;
          arben_rx = drop_bit shift bank_ring_mask AND arb
      in arben_tx AND arben_rx)"

definition adf_io_enable_ring :: "ring \<Rightarrow> bank \<Rightarrow> CpaStatus \<times> bank" where
  "adf_io_enable_ring r b =
     (case accel_dev r of
        None \<Rightarrow> (CPA_STATUS_FAIL, b)
      | Some dev \<Rightarrow> (CPA_STATUS_SUCCESS,
          b\<lparr>csr_arb_en := update_ring (ucast (ring_mask b) OR push_bit (ring_num r) 1) (arb_mask dev)\<rparr>))"

definition adf_io_disable_ring :: "ring \<Rightarrow> bank \<Rightarrow> CpaStatus \<times> bank" where
  "adf_io_disable_ring r b =
     (case accel_dev r of
        None \<Rightarrow> (CPA_STATUS_FAIL, b)
      | Some dev \<Rightarrow> (CPA_STATUS_SUCCESS,
          b\<lparr>csr_arb_en := update_ring (ucast (ring_mask b) AND NOT (push_bit (ring_num r) 1)) (arb_mask dev)\<rparr>))"

section \<open>Set-up and release of a ring\<close>

definition BUILD_RING_CONFIG :: "u32 \<Rightarrow> u64" where
  "BUILD_RING_CONFIG n = push_bit 10 0 OR push_bit 5 0 OR ucast n"

definition BUILD_RESP_RING_CONFIG :: "u32 \<Rightarrow> u64 \<Rightarrow> u64 \<Rightarrow> u64" where
  "BUILD_RESP_RING_CONFIG n watermark_nf watermark_ne =
     push_bit 10 watermark_nf OR push_bit 5 watermark_ne OR ucast n"

definition BUILD_RING_BASE_ADDR :: "u64 \<Rightarrow> u32 \<Rightarrow> u64" where
  "BUILD_RING_BASE_ADDR addr n = drop_bit 6 addr AND push_bit (unat n) (- 1)"

definition BUILD_RING_BASE_ADDR_GEN4 :: "u64 \<Rightarrow> u32 \<Rightarrow> u64" where
  "BUILD_RING_BASE_ADDR_GEN4 addr n = push_bit 6 (drop_bit 6 addr AND push_bit (unat n) (- 1))"

definition adf_init_ring_internal ::
  "bool \<Rightarrow> ring \<Rightarrow> bank \<Rightarrow> nat \<Rightarrow> u32 \<Rightarrow> u32 \<Rightarrow> int \<times> ring \<times> bank" where
  "adf_init_ring_internal lock r b num num_msgs msg_size =
     (let (ring_size_cfg, mod_shift) = validateRingSize num_msgs msg_size;
          ring_size_bytes = ICP_ET_SIZE_TO_BYTES ring_size_cfg;
          (st, b') = adf_reserve_ring lock b num
      in if st \<noteq> 0 then (- EBUSY, r, b')
         else case accel_dev r of
           None \<Rightarrow> (CPA_STATUS_INVALID_PARAM, r, b')
         | Some dev \<Rightarrow>
             let half = drop_bit 1 (ring_size_bytes div msg_size);
                 config = (if ucast (tx_rings_mask b') AND push_bit num (1 :: u32) \<noteq> 0
                           then BUILD_RING_CONFIG ring_size_cfg
                           else BUILD_RESP_RING_CONFIG ring_size_cfg 8 0);
                 base = (if is_gen4 dev then BUILD_RING_BASE_ADDR_GEN4 else BUILD_RING_BASE_ADDR)
                          (ring_phys_base_addr r) ring_size_cfg;
                 r' = r\<lparr>ring_head := 0, ring_tail := 0, send_seq := 0, ring_num := num,
                        message_size := msg_size, ring_modulo := mod_shift,
                        ring_size := ring_size_bytes,
                        ring_mem := replicate (unat ring_size_bytes div 4) EMPTY_RING_SIG_WORD,
                        min_resps_per_head_write :=
                          (if half > MIN_RESPONSES_PER_HEAD_WRITE
                           then MIN_RESPONSES_PER_HEAD_WRITE else half),
                        max_requests_inflight := num_msgs - 1,
                        csr_base := base, csr_config := config\<rparr>
             in (0, r', snd (adf_io_enable_ring r' b')))"

text \<open>
  \<open>adf_init_ring\<close> with the results of the two calls of the memory driver, the virtual address
  (0 for NULL) and its translation; the last component tells whether the buffer was freed again.
\<close>

definition adf_init_ring ::
  "bool \<Rightarrow> u64 \<Rightarrow> u64 \<Rightarrow> ring \<Rightarrow> bank \<Rightarrow> nat \<Rightarrow> u32 \<Rightarrow> u32 \<Rightarrow> int \<times> ring \<times> bank \<times> bool" where
  "adf_init_ring lock virt phys r b num num_msgs msg_size =
     (let r1 = r\<lparr>ring_virt_addr := virt, ring_phys_base_addr := phys\<rparr>
      in if virt = 0 \<or> phys = 0
         then if phys \<noteq> 0
              then (- ENOMEM, r1\<lparr>ring_virt_addr := 0\<rparr>, b, virt \<noteq> 0)
              else (- ENOMEM, r1, b, False)
         else let (st, r2, b2) = adf_init_ring_internal lock r1 b num num_msgs msg_size
              in if st \<noteq> 0 then (st, r2\<lparr>ring_virt_addr := 0\<rparr>, b2, True)
                 else (0, r2, b2, False))"

definition adf_reinit_ring ::
  "bool \<Rightarrow> ring \<Rightarrow> bank \<Rightarrow> nat \<Rightarrow> u32 \<Rightarrow> u32 \<Rightarrow> int \<times> ring \<times> bank" where
  "adf_reinit_ring = adf_init_ring_internal"

definition adf_clean_ring :: "bool \<Rightarrow> ring \<Rightarrow> bank \<Rightarrow> ring \<times> bank" where
  "adf_clean_ring lock r b =
     (case accel_dev r of
        None \<Rightarrow> (r, b)
      | Some dev \<Rightarrow>
          (r\<lparr>csr_config := 0, csr_base := 0\<rparr>,
           adf_unreserve_ring lock (snd (adf_io_disable_ring r b)) (ring_num r)))"

definition adf_ring_freebuf :: "ring \<Rightarrow> int \<times> ring \<times> bool" where
  "adf_ring_freebuf r =
     (if ring_virt_addr r \<noteq> 0
      then (0, r\<lparr>ring_mem := replicate (length (ring_mem r)) 0, ring_virt_addr := 0\<rparr>, True)
      else (0, r, False))"

definition adf_cleanup_ring :: "bool \<Rightarrow> ring \<Rightarrow> bank \<Rightarrow> ring \<times> bank \<times> bool" where
  "adf_cleanup_ring lock r b =
     (let (r', b') = adf_clean_ring lock r b
      in if ring_virt_addr r' \<noteq> 0
         then (r'\<lparr>ring_mem := replicate (length (ring_mem r')) 0, ring_virt_addr := 0\<rparr>, b', True)
         else (r', b', False))"

definition adf_reset_ring :: "bool \<Rightarrow> ring \<Rightarrow> bank \<Rightarrow> ring \<times> bank" where
  "adf_reset_ring lock r b =
     (let (r', b') = adf_clean_ring lock r b
      in (if ring_virt_addr r' \<noteq> 0
          then r'\<lparr>ring_mem := replicate (length (ring_mem r')) EMPTY_RING_SIG_WORD\<rparr> else r', b'))"

section \<open>Messages\<close>

definition msg_words :: "ring \<Rightarrow> nat" where
  "msg_words r = unat (message_size r) div 4"

definition copy_words :: "u32 list \<Rightarrow> nat \<Rightarrow> nat \<Rightarrow> u32 list \<Rightarrow> u32 list option" where
  "copy_words mem at n src =
     (if at + n \<le> length mem \<and> n \<le> length src
      then Some (take at mem @ take n src @ drop (at + n) mem) else None)"

text \<open>The result is the status, the sequence number, the ring and the requests in flight.\<close>

definition adf_user_put_msg ::
  "bool \<Rightarrow> ring option \<Rightarrow> u32 list option \<Rightarrow> u32 \<Rightarrow> (CpaStatus \<times> u64 option \<times> ring option \<times> u32) option" where
  "adf_user_put_msg lock ring inBuf in_flight =
     (case (ring, inBuf) of
        (Some r, Some buf) \<Rightarrow>
          if accel_dev r = None then Some (CPA_STATUS_INVALID_PARAM, None, ring, in_flight)
          else if \<not> lock then Some (CPA_STATUS_FAIL, None, ring, in_flight)
          else
            let flight = in_flight + 1
            in if flight > max_requests_inflight r
               then Some (CPA_STATUS_RETRY, None, ring, flight - 1)
               else if message_size r = 64 \<or> message_size r = 128
               then (case copy_words (ring_mem r) (unat (ring_tail r) div 4) (msg_words r) buf of
                       None \<Rightarrow> None
                     | Some mem \<Rightarrow>
                         let t = modulo (ring_tail r + message_size r) (ring_modulo r)
                         in Some (0, Some (send_seq r),
                              Some (r\<lparr>ring_mem := mem, ring_tail := t, csr_tail := t,
                                      csrTailOffset := t, send_seq := send_seq r + 1\<rparr>),
                              flight))
               else Some (CPA_STATUS_FAIL, None, ring, flight)
      | _ \<Rightarrow> Some (CPA_STATUS_INVALID_PARAM, None, ring, in_flight))"

definition head_word :: "ring \<Rightarrow> u32 option" where
  "head_word r =
     (let i = unat (ring_head r) div 4
      in if i < length (ring_mem r) then Some (ring_mem r ! i) else None)"

definition head_msg :: "ring \<Rightarrow> u32 list" where
  "head_msg r = take (msg_words r) (drop (unat (ring_head r) div 4) (ring_mem r))"

text \<open>Mark the message at the head as processed and advance the head.\<close>

definition consume :: "ring \<Rightarrow> ring" where
  "consume r = r\<lparr>ring_mem := (ring_mem r)[unat (ring_head r) div 4 := EMPTY_RING_SIG_WORD],
                 ring_head := modulo (ring_head r + message_size r) (ring_modulo r)\<rparr>"

fun poll_loop :: "nat \<Rightarrow> ring \<Rightarrow> (u32 list list \<times> ring) option" where
  "poll_loop quota r =
     (case head_word r of
        None \<Rightarrow> None
      | Some w \<Rightarrow>
          if w \<noteq> EMPTY_RING_SIG_WORD \<and> 0 < quota
          then map_option (\<lambda>(msgs, r'). (head_msg r # msgs, r')) (poll_loop (quota - 1) (consume r))
          else Some ([], r))"

declare poll_loop.simps [simp del]

text \<open>The coalesced write of the head register after \<open>n\<close> messages.\<close>

definition coalesce :: "bool \<Rightarrow> u32 \<Rightarrow> ring \<Rightarrow> ring" where
  "coalesce force n r =
     (if n > coal_write_count r \<or> force
      then r\<lparr>coal_write_count := min_resps_per_head_write r, csr_head := ring_head r\<rparr>
      else r\<lparr>coal_write_count := coal_write_count r - n\<rparr>)"

definition adf_user_notify_msgs_poll ::
  "ring \<Rightarrow> u32 \<Rightarrow> (CpaStatus \<times> u32 list list \<times> ring \<times> u32) option" where
  "adf_user_notify_msgs_poll r in_flight =
     (let quota = (if ringResponseQuota r \<noteq> 0 then ringResponseQuota r else ICP_NO_RESPONSE_QUOTA)
      in case poll_loop (unat quota) r of
           None \<Rightarrow> None
         | Some (msgs, r') \<Rightarrow>
             let n = of_nat (length msgs)
             in if n > 0
                then Some (CPA_STATUS_SUCCESS, msgs, coalesce (resp_irq r') n r', in_flight - n)
                else Some (CPA_STATUS_RETRY, msgs, r', in_flight))"

text \<open>The data-plane variant takes the quota as an argument.\<close>

definition icp_adf_pollQueue ::
  "ring \<Rightarrow> u32 \<Rightarrow> u32 \<Rightarrow> (CpaStatus \<times> u32 list list \<times> ring \<times> u32) option" where
  "icp_adf_pollQueue r response_quota in_flight =
     (let quota = (if response_quota = 0 then ICP_NO_RESPONSE_QUOTA else response_quota)
      in case poll_loop (unat quota) r of
           None \<Rightarrow> None
         | Some (msgs, r') \<Rightarrow>
             let n = of_nat (length msgs)
             in if n > 0
                then Some (CPA_STATUS_SUCCESS, msgs, coalesce False n r', in_flight - n)
                else Some (CPA_STATUS_RETRY, msgs, r', in_flight))"

text \<open>
  \<open>adf_user_notify_msgs\<close> drains the ring without a quota.  Every round empties one word of the
  ring, so the loop ends.
\<close>

definition nonempty_words :: "ring \<Rightarrow> nat" where
  "nonempty_words r = length (filter (\<lambda>w. w \<noteq> EMPTY_RING_SIG_WORD) (ring_mem r))"

function notify_loop :: "ring \<Rightarrow> (u32 list list \<times> ring) option" where
  "notify_loop r =
     (case head_word r of
        None \<Rightarrow> None
      | Some w \<Rightarrow>
          if w \<noteq> EMPTY_RING_SIG_WORD
          then map_option (\<lambda>(msgs, r'). (head_msg r # msgs, r')) (notify_loop (consume r))
          else Some ([], r))"
  by pat_completeness auto

lemma filter_update_less:
  "i < length xs \<Longrightarrow> P (xs ! i) \<Longrightarrow> \<not> P v \<Longrightarrow>
   length (filter P xs) = Suc (length (filter P (xs[i := v])))"
proof (induction xs arbitrary: i)
  case (Cons x xs)
  then show ?case by (cases i) auto
qed simp

lemma consume_nonempty:
  assumes "head_word r = Some w" and "w \<noteq> EMPTY_RING_SIG_WORD"
  shows "nonempty_words r = Suc (nonempty_words (consume r))"
  using assms filter_update_less [of "unat (ring_head r) div 4" "ring_mem r"]
  by (auto simp: nonempty_words_def consume_def head_word_def Let_def split: if_splits)

termination notify_loop
  by (relation "measure nonempty_words") (auto simp: consume_nonempty)

declare notify_loop.simps [simp del]

definition adf_user_notify_msgs ::
  "ring option \<Rightarrow> u32 \<Rightarrow> (int \<times> u32 list list \<times> ring option \<times> u32) option" where
  "adf_user_notify_msgs ring in_flight =
     (case ring of
        None \<Rightarrow> Some (CPA_STATUS_INVALID_PARAM, [], None, in_flight)
      | Some r \<Rightarrow>
          (case notify_loop r of
             None \<Rightarrow> None
           | Some (msgs, r') \<Rightarrow>
               let n = of_nat (length msgs)
               in if n > 0 then Some (0, msgs, Some (coalesce False n r'), in_flight - n)
                  else Some (0, msgs, Some r', in_flight)))"

text \<open>The status register of the ring is read by the caller of the model.\<close>

definition adf_user_check_ring_error :: "ring option \<Rightarrow> u32 \<Rightarrow> int option" where
  "adf_user_check_ring_error ring ring_stat =
     (case ring of
        None \<Rightarrow> Some CPA_STATUS_INVALID_PARAM
      | Some r \<Rightarrow>
          (case accel_dev r of
             None \<Rightarrow> None
           | Some dev \<Rightarrow>
               if \<not> is_gen4 dev then Some 0
               else if bit ring_stat 10 then Some (- EINTR)
               else if bit ring_stat 9 then Some (- EL2HLT)
               else Some 0))"

fun check_loop :: "nat \<Rightarrow> u32 \<Rightarrow> ring \<Rightarrow> bool option" where
  "check_loop 0 cur_head r = Some True"
| "check_loop (Suc n) cur_head r =
     (case head_word (r\<lparr>ring_head := cur_head\<rparr>) of
        None \<Rightarrow> None
      | Some w \<Rightarrow>
          if w \<noteq> EMPTY_RING_SIG_WORD then Some False
          else check_loop n (modulo (cur_head + message_size r) (ring_modulo r)) r)"

definition adf_user_check_resp_ring :: "ring \<Rightarrow> u32 \<Rightarrow> bool option" where
  "adf_user_check_resp_ring r in_flight = check_loop (unat in_flight) (ring_head r) r"

definition adf_user_get_inflight_requests :: "bool \<Rightarrow> ring \<Rightarrow> u32 \<Rightarrow> CpaStatus \<times> (u32 \<times> u32) option" where
  "adf_user_get_inflight_requests lock r in_flight =
     (if \<not> lock then (CPA_STATUS_FAIL, None)
      else (0, Some (max_requests_inflight r, in_flight)))"

text \<open>The data-plane operations that build requests in place.\<close>

definition icp_adf_getQueueMemory :: "ring \<Rightarrow> u32 \<Rightarrow> u32 \<Rightarrow> u32 option \<times> u32" where
  "icp_adf_getQueueMemory r numberRequests in_flight =
     (let flight = in_flight + numberRequests
      in if flight > max_requests_inflight r then (None, in_flight)
         else (Some (ring_tail r), flight))"

definition icp_adf_getSingleQueueAddr :: "ring \<Rightarrow> u32 \<Rightarrow> u32 option \<times> ring \<times> u32" where
  "icp_adf_getSingleQueueAddr r in_flight =
     (let flight = in_flight + 1
      in if flight > max_requests_inflight r then (None, r, in_flight)
         else (Some (ring_tail r),
               r\<lparr>ring_tail := modulo (ring_tail r + message_size r) (ring_modulo r)\<rparr>, flight))"

definition icp_adf_getQueueNext :: "ring \<Rightarrow> u32 \<times> ring" where
  "icp_adf_getQueueNext r =
     (let t = modulo (ring_tail r + message_size r) (ring_modulo r)
      in (t, r\<lparr>ring_tail := t\<rparr>))"

definition icp_adf_getDpInflightRequests :: "ring \<Rightarrow> u32 \<Rightarrow> u32 \<times> u32" where
  "icp_adf_getDpInflightRequests r in_flight = (max_requests_inflight r, in_flight)"

definition icp_adf_updateQueueTail :: "ring \<Rightarrow> ring" where
  "icp_adf_updateQueueTail r = r\<lparr>csr_tail := ring_tail r, csrTailOffset := ring_tail r\<rparr>"

definition icp_adf_isRingEmpty :: "ring \<Rightarrow> u32 \<Rightarrow> bool" where
  "icp_adf_isRingEmpty r e_stat \<longleftrightarrow> NOT e_stat AND push_bit (ring_num r) 1 = 0"

section \<open>Arithmetic of ring offsets\<close>

lemma modulo_unat:
  assumes "unat sh < 32"
  shows "unat (modulo x sh) = unat x mod 2 ^ unat sh"
proof -
  have "modulo x sh = take_bit (unat sh) x"
    unfolding modulo_def using bits_ident [of "unat sh" x] by (simp add: diff_eq_eq add.commute)
  then show ?thesis by (simp only: unsigned_take_bit_eq) (simp add: take_bit_eq_mod)
qed

lemma ring_bytes:
  assumes "unat n \<le> 16"
  shows "unat (ICP_ET_SIZE_TO_BYTES n) = 2 ^ (unat n + 6)"
proof -
  have "ICP_ET_SIZE_TO_BYTES n = of_nat (2 ^ (unat n + 6))"
    by (simp add: ICP_ET_SIZE_TO_BYTES_def push_bit_eq_mult power_add)
  moreover have "(2 :: nat) ^ (unat n + 6) \<le> 2 ^ 22" using assms by (intro power_increasing) auto
  ultimately show ?thesis by (simp only: unat_of_nat) simp
qed

text \<open>Blocks of \<open>w\<close> words.\<close>

lemma block_of:
  fixes j w k :: nat
  assumes "k < w"
  shows "(j * w + k) div w = j" and "(j * w + k) mod w = k"
  using assms by auto

lemma block_bound: "j < (n :: nat) \<Longrightarrow> k < w \<Longrightarrow> j * w + k < n * w"
  by (metis Suc_leI add.commute less_le_trans mult_Suc mult_le_mono1 nat_add_left_cancel_less)

lemma nth_block: "length xs = n * w \<Longrightarrow> j * w + k < n * w \<Longrightarrow> drop (j * w) xs ! k = xs ! (j * w + k)"
  by (rule nth_drop) linarith

lemma block_upd:
  assumes "length mem = n * w" and "t < n" and "j < n" and "length src = w"
  shows "take w (drop (j * w) (take (t * w) mem @ src @ drop (t * w + w) mem)) =
    (if j = t then src else take w (drop (j * w) mem))"
proof -
  have le: "t * w + w \<le> n * w" "j * w + w \<le> n * w"
    using assms(2,3) by (metis Suc_leI add.commute mult_Suc mult_le_mono1)+
  define m where "m = take (t * w) mem @ src @ drop (t * w + w) mem"
  have len: "length m = n * w" unfolding m_def using assms(1,4) le by simp
  have nth: "m ! x = (if t * w \<le> x \<and> x < t * w + w then src ! (x - t * w) else mem ! x)"
    if "x < n * w" for x
    unfolding m_def using that assms(1,2,4) le by (auto simp: nth_append min_def)
  have "take w (drop (j * w) m) = (if j = t then src else take w (drop (j * w) mem))"
  proof (rule nth_equalityI)
    show "length (take w (drop (j * w) m)) = length (if j = t then src else take w (drop (j * w) mem))"
      using assms(1,4) le len by simp
    fix k assume "k < length (take w (drop (j * w) m))"
    then have k: "k < w" "j * w + k < n * w" using len le by auto
    have "t * w \<le> j * w + k \<and> j * w + k < t * w + w \<longleftrightarrow> j = t"
    proof
      assume r: "t * w \<le> j * w + k \<and> j * w + k < t * w + w"
      then have "j * w + k = t * w + (j * w + k - t * w)" "j * w + k - t * w < w" by auto
      then show "j = t" using block_of(1) [of "j * w + k - t * w" w t] block_of(1) [OF k(1), of j] by simp
    qed (use k in auto)
    then show "take w (drop (j * w) m) ! k = (if j = t then src else take w (drop (j * w) mem)) ! k"
      using k(1) nth [OF k(2)] nth_block [OF len k(2)] nth_block [OF assms(1) k(2)] by auto
  qed
  then show ?thesis by (simp only: m_def)
qed

lemma block_head:
  assumes "length mem = n * w" and "t < n" and "j < n" and "0 < w"
  shows "take w (drop (j * w) (mem[t * w := v])) =
    (if j = t then v # drop 1 (take w (drop (t * w) mem)) else take w (drop (j * w) mem))"
proof (rule nth_equalityI)
  have le: "t * w + w \<le> n * w" "j * w + w \<le> n * w"
    using assms(2,3) by (metis Suc_leI add.commute mult_Suc mult_le_mono1)+
  show "length (take w (drop (j * w) (mem[t * w := v]))) =
    length (if j = t then v # drop 1 (take w (drop (t * w) mem)) else take w (drop (j * w) mem))"
    using assms(1,4) le by simp
  fix k assume "k < length (take w (drop (j * w) (mem[t * w := v])))"
  then have k: "k < w" "j * w + k < n * w" using assms(1) le by auto
  have "j * w + k = t * w \<longleftrightarrow> j = t \<and> k = 0"
    using block_of [OF k(1), of j] block_of [OF assms(4), of t] by auto
  then show "take w (drop (j * w) (mem[t * w := v])) ! k =
      (if j = t then v # drop 1 (take w (drop (t * w) mem)) else take w (drop (j * w) mem)) ! k"
    using k nth_block [OF _ k(2), of "mem[t * w := v]"] nth_block [OF assms(1) k(2)] assms(1)
    by (cases k) (auto simp: nth_list_update)
qed

section \<open>Rings as arrays of slots\<close>

definition slots :: "ring \<Rightarrow> nat" where
  "slots r = 2 ^ unat (ring_modulo r) div unat (message_size r)"

definition ring_wf :: "ring \<Rightarrow> bool" where
  "ring_wf r \<longleftrightarrow> (message_size r = 64 \<or> message_size r = 128) \<and>
     10 \<le> unat (ring_modulo r) \<and> unat (ring_modulo r) \<le> 22 \<and>
     length (ring_mem r) = 2 ^ unat (ring_modulo r) div 4 \<and>
     unat (ring_head r) mod unat (message_size r) = 0 \<and> unat (ring_head r) < 2 ^ unat (ring_modulo r) \<and>
     unat (ring_tail r) mod unat (message_size r) = 0 \<and> unat (ring_tail r) < 2 ^ unat (ring_modulo r)"

definition head_slot :: "ring \<Rightarrow> nat" where "head_slot r = unat (ring_head r) div unat (message_size r)"
definition tail_slot :: "ring \<Rightarrow> nat" where "tail_slot r = unat (ring_tail r) div unat (message_size r)"

definition slot_msg :: "ring \<Rightarrow> nat \<Rightarrow> u32 list" where
  "slot_msg r j = take (msg_words r) (drop (j * msg_words r) (ring_mem r))"

lemma wf_msg_words:
  assumes "ring_wf r"
  shows "0 < msg_words r" and "unat (message_size r) = 4 * msg_words r"
    and "slots r * (4 * msg_words r) = 2 ^ unat (ring_modulo r)" and "0 < slots r"
    and "length (ring_mem r) = slots r * msg_words r"
proof -
  have m: "message_size r = 64 \<or> message_size r = 128" and s: "10 \<le> unat (ring_modulo r)"
    and len: "length (ring_mem r) = 2 ^ unat (ring_modulo r) div 4"
    using assms by (auto simp: ring_wf_def)
  show w: "0 < msg_words r" "unat (message_size r) = 4 * msg_words r"
    using m by (auto simp: msg_words_def)
  obtain n where n: "unat (ring_modulo r) = 10 + n" using s le_Suc_ex by blast
  have "unat (message_size r) dvd 2 ^ unat (ring_modulo r)"
    using m by (auto simp: n power_add)
  then show prod: "slots r * (4 * msg_words r) = 2 ^ unat (ring_modulo r)"
    unfolding slots_def w(2) [symmetric] by simp
  then show "0 < slots r" by (intro Nat.gr0I) auto
  have "2 ^ unat (ring_modulo r) div 4 = slots r * msg_words r"
    unfolding prod [symmetric] by simp
  with len show "length (ring_mem r) = slots r * msg_words r" by simp
qed

lemma wf_offset:
  assumes "ring_wf r" and "unat off mod unat (message_size r) = 0" and "unat off < 2 ^ unat (ring_modulo r)"
  shows "unat off div 4 = (unat off div unat (message_size r)) * msg_words r"
    and "unat off div unat (message_size r) < slots r"
proof -
  note w = wf_msg_words [OF assms(1)]
  obtain k where k: "unat off = unat (message_size r) * k" using assms(2) by auto
  have "0 < unat (message_size r)" using w(1,2) by simp
  then have d: "unat off div unat (message_size r) = k" using k by simp
  then show "unat off div 4 = (unat off div unat (message_size r)) * msg_words r"
    using k w(2) by (simp add: mult.commute)
  have "k * (4 * msg_words r) < slots r * (4 * msg_words r)"
    using assms(3) k w(2,3) by (simp add: mult.commute)
  then show "unat off div unat (message_size r) < slots r" unfolding d by (simp only: mult_less_cancel2)
qed

lemma wf_advance:
  assumes "ring_wf r" and "unat off mod unat (message_size r) = 0" and "unat off < 2 ^ unat (ring_modulo r)"
  defines "off' \<equiv> modulo (off + message_size r) (ring_modulo r)"
  shows "unat off' div unat (message_size r) = Suc (unat off div unat (message_size r)) mod slots r"
    and "unat off' mod unat (message_size r) = 0" and "unat off' < 2 ^ unat (ring_modulo r)"
proof -
  note w = wf_msg_words [OF assms(1)]
  have s: "unat (ring_modulo r) \<le> 22" using assms(1) by (simp add: ring_wf_def)
  then have p: "(2 :: nat) ^ unat (ring_modulo r) \<le> 2 ^ 22" by (intro power_increasing) auto
  define m k where "m = unat (message_size r)" and "k = unat off div unat (message_size r)"
  have m: "0 < m" "slots r * m = 2 ^ unat (ring_modulo r)" "m \<le> 128"
    using w assms(1) by (auto simp: m_def ring_wf_def)
  have k: "unat off = k * m" using assms(2) by (auto simp: k_def m_def)
  have "unat (off + message_size r) = Suc k * m"
    using assms(3) p m(3) k by (simp add: unat_word_ariths m_def [symmetric])
  then have "unat off' = (Suc k * m) mod (slots r * m)"
    using modulo_unat [of "ring_modulo r"] s by (simp add: off'_def m(2))
  also have "\<dots> = (Suc k mod slots r) * m" by (rule mult_mod_left [symmetric])
  finally have o': "unat off' = (Suc k mod slots r) * m" .
  show "unat off' div unat (message_size r) = Suc (unat off div unat (message_size r)) mod slots r"
    unfolding k_def [symmetric] unfolding o' m_def [symmetric] using m(1) by simp
  show "unat off' mod unat (message_size r) = 0" unfolding o' m_def [symmetric] by simp
  have "Suc k mod slots r < slots r" using w(4) by simp
  then show "unat off' < 2 ^ unat (ring_modulo r)"
    unfolding o' m(2) [symmetric] using m(1) by simp
qed

lemma slots_upd [simp]:
  "slots (r\<lparr>ring_mem := x1, ring_tail := t, csr_tail := t2, csrTailOffset := t3, send_seq := q\<rparr>) = slots r"
  by (simp add: slots_def)

lemma slots_consume [simp]: "slots (consume r) = slots r" "msg_words (consume r) = msg_words r"
  by (simp_all add: slots_def consume_def msg_words_def)

lemma wf_ends:
  assumes "ring_wf r"
  shows "unat (ring_head r) mod unat (message_size r) = 0" and "unat (ring_head r) < 2 ^ unat (ring_modulo r)"
    and "unat (ring_tail r) mod unat (message_size r) = 0" and "unat (ring_tail r) < 2 ^ unat (ring_modulo r)"
  using assms by (simp_all add: ring_wf_def)

lemma head_in_slots:
  assumes "ring_wf r"
  shows "head_slot r < slots r" and "tail_slot r < slots r"
    and "unat (ring_head r) div 4 = head_slot r * msg_words r"
    and "unat (ring_tail r) div 4 = tail_slot r * msg_words r"
  unfolding head_slot_def tail_slot_def
  by (rule wf_offset [OF assms wf_ends(1,2) [OF assms]] wf_offset [OF assms wf_ends(3,4) [OF assms]])+

lemma consume_wf:
  assumes "ring_wf r"
  shows "ring_wf (consume r)" and "head_slot (consume r) = Suc (head_slot r) mod slots r"
proof -
  note a = wf_advance [OF assms wf_ends(1,2) [OF assms]]
  show "ring_wf (consume r)" using assms a(2,3) by (simp add: ring_wf_def consume_def)
  show "head_slot (consume r) = Suc (head_slot r) mod slots r"
    using a(1) by (simp add: head_slot_def consume_def)
qed

lemma consume_slot:
  assumes "ring_wf r" and "j < slots r"
  shows "slot_msg (consume r) j =
    (if j = head_slot r then EMPTY_RING_SIG_WORD # drop 1 (slot_msg r j) else slot_msg r j)"
proof -
  note w = wf_msg_words [OF assms(1)]
  note h = head_in_slots(1,3) [OF assms(1)]
  show ?thesis
    using block_head [OF w(5) h(1) assms(2) w(1)] h(2)
    by (simp add: slot_msg_def consume_def msg_words_def)
qed

lemma head_word_slot:
  assumes "ring_wf r"
  shows "head_word r = Some (hd (slot_msg r (head_slot r)))" and "head_msg r = slot_msg r (head_slot r)"
proof -
  note w = wf_msg_words [OF assms]
  note h = head_in_slots(3,1) [OF assms]
  have lt: "head_slot r * msg_words r < length (ring_mem r)"
    using block_bound [OF h(2) w(1)] w(5) by simp
  then have "hd (take (msg_words r) (drop (head_slot r * msg_words r) (ring_mem r))) =
      ring_mem r ! (head_slot r * msg_words r)"
    using w(1) by (simp add: hd_drop_conv_nth)
  then show "head_word r = Some (hd (slot_msg r (head_slot r)))"
    using lt by (simp add: head_word_def slot_msg_def h(1))
  show "head_msg r = slot_msg r (head_slot r)" by (simp add: head_msg_def slot_msg_def h(1))
qed

section \<open>Pending requests\<close>

text \<open>The slots from \<open>a\<close> on hold \<open>msgs\<close>; the driver's tail is behind the last of them.\<close>

definition pending :: "ring \<Rightarrow> nat \<Rightarrow> u32 list list \<Rightarrow> bool" where
  "pending r a msgs \<longleftrightarrow> a < slots r \<and> length msgs < slots r \<and>
     tail_slot r = (a + length msgs) mod slots r \<and>
     (\<forall>i < length msgs. slot_msg r ((a + i) mod slots r) = msgs ! i)"

lemma mod_slot_inj: "i < n \<Longrightarrow> j < n \<Longrightarrow> (a + i) mod n = (a + j) mod n \<Longrightarrow> i = (j :: nat)"
proof (induction i j rule: linorder_wlog)
  case (le i j)
  have "(j - i) mod n = 0"
    using le by (metis add_diff_cancel_left diff_is_0_eq mod_eq_dvd_iff_nat nat_add_left_cancel_le
        dvd_imp_mod_0)
  then show ?case using le by simp
qed simp

lemma put_msg_mem:
  assumes wf: "ring_wf r" and buf: "msg_words r \<le> length buf"
  shows "\<exists>mem. copy_words (ring_mem r) (unat (ring_tail r) div 4) (msg_words r) buf = Some mem \<and>
    length mem = length (ring_mem r) \<and>
    (\<forall>j < slots r. take (msg_words r) (drop (j * msg_words r) mem) =
       (if j = tail_slot r then take (msg_words r) buf else slot_msg r j))"
proof -
  note w = wf_msg_words [OF wf] and t = head_in_slots(2,4) [OF wf]
  have le: "tail_slot r * msg_words r + msg_words r \<le> slots r * msg_words r"
    using t(1) by (metis Suc_leI add.commute mult_Suc mult_le_mono1)
  show ?thesis
    unfolding copy_words_def t(2) using block_upd [OF w(5) t(1), of _ "take (msg_words r) buf"] le buf w(5)
    by (simp add: slot_msg_def)
qed

lemma put_msg_ok:
  assumes wf: "ring_wf r" and dev: "accel_dev r \<noteq> None" and buf: "msg_words r \<le> length buf"
    and room: "unat in_flight < unat (max_requests_inflight r)"
    and pend: "pending r a msgs" and more: "Suc (length msgs) < slots r"
  shows "\<exists>r'. adf_user_put_msg True (Some r) (Some buf) in_flight =
      Some (0, Some (send_seq r), Some r', in_flight + 1) \<and>
    ring_wf r' \<and> slots r' = slots r \<and> msg_words r' = msg_words r \<and> accel_dev r' = accel_dev r \<and>
    max_requests_inflight r' = max_requests_inflight r \<and> csr_tail r' = ring_tail r' \<and>
    pending r' a (msgs @ [take (msg_words r) buf])"
proof -
  obtain mem where mem: "copy_words (ring_mem r) (unat (ring_tail r) div 4) (msg_words r) buf = Some mem"
      "length mem = length (ring_mem r)"
      "\<And>j. j < slots r \<Longrightarrow> take (msg_words r) (drop (j * msg_words r) mem) =
         (if j = tail_slot r then take (msg_words r) buf else slot_msg r j)"
    using put_msg_mem [OF wf buf] by blast
  define t where "t = modulo (ring_tail r + message_size r) (ring_modulo r)"
  define r' where "r' = r\<lparr>ring_mem := mem, ring_tail := t, csr_tail := t, csrTailOffset := t,
      send_seq := send_seq r + 1\<rparr>"
  note adv = wf_advance [OF wf wf_ends(3,4) [OF wf], folded t_def]
  have small: "in_flight + 1 \<le> max_requests_inflight r"
    using room unsigned_less [of "max_requests_inflight r", where 'a = nat]
    by (simp add: word_le_nat_alt unat_word_ariths)
  have sz: "message_size r = 64 \<or> message_size r = 128" using wf by (simp add: ring_wf_def)
  have run: "adf_user_put_msg True (Some r) (Some buf) in_flight =
      Some (0, Some (send_seq r), Some r', in_flight + 1)"
    using dev small sz mem(1) by (simp add: adf_user_put_msg_def Let_def t_def [symmetric] r'_def not_less)
  have wf': "ring_wf r'" using wf adv(2,3) mem(2) by (simp add: ring_wf_def r'_def)
  have eq: "slots r' = slots r" "msg_words r' = msg_words r"
    by (simp_all add: slots_def msg_words_def r'_def)
  have tail': "tail_slot r' = Suc (tail_slot r) mod slots r"
    using adv(1) by (simp add: tail_slot_def r'_def)
  have slot': "slot_msg r' j = (if j = tail_slot r then take (msg_words r) buf else slot_msg r j)"
    if "j < slots r" for j
    using mem(3) [OF that] unfolding slot_msg_def [of r'] eq by (simp add: r'_def)
  have n: "0 < slots r" using wf_msg_words(4) [OF wf] .
  have t: "tail_slot r = (a + length msgs) mod slots r" using pend by (simp add: pending_def)
  have "slot_msg r' ((a + i) mod slots r) = (msgs @ [take (msg_words r) buf]) ! i"
    if "i < Suc (length msgs)" for i
  proof (cases "i = length msgs")
    case True
    then show ?thesis using slot' [of "(a + i) mod slots r"] n t by simp
  next
    case False
    then have i: "i < length msgs" using that by simp
    then have "(a + i) mod slots r \<noteq> tail_slot r"
      unfolding t using mod_slot_inj [of i "slots r" "length msgs" a] more by auto
    then show ?thesis
      using slot' [of "(a + i) mod slots r"] n i pend by (simp add: pending_def nth_append)
  qed
  then have "pending r' a (msgs @ [take (msg_words r) buf])"
    using pend more tail' t eq by (simp add: pending_def mod_Suc_eq)
  then show ?thesis using run wf' eq by (auto simp: r'_def)
qed

section \<open>Unread responses\<close>

text \<open>
  The slots from the head on hold the unread responses, none of which starts with the signature
  of an empty slot, and every other slot is marked empty.
\<close>

definition unread :: "ring \<Rightarrow> u32 list list \<Rightarrow> bool" where
  "unread r msgs \<longleftrightarrow> length msgs < slots r \<and>
     (\<forall>i < length msgs. slot_msg r ((head_slot r + i) mod slots r) = msgs ! i \<and>
        hd (msgs ! i) \<noteq> EMPTY_RING_SIG_WORD) \<and>
     (\<forall>i. length msgs \<le> i \<and> i < slots r \<longrightarrow>
        hd (slot_msg r ((head_slot r + i) mod slots r)) = EMPTY_RING_SIG_WORD)"

lemma unread_Nil_head:
  assumes "ring_wf r" and "unread r []"
  shows "head_word r = Some EMPTY_RING_SIG_WORD"
proof -
  have "head_slot r mod slots r = head_slot r" using head_in_slots(1) [OF assms(1)] by simp
  then show ?thesis using assms(2) head_word_slot(1) [OF assms(1)] by (auto simp: unread_def)
qed

lemma unread_Cons_head:
  assumes "ring_wf r" and "unread r (m # msgs)"
  shows "head_word r = Some (hd m)" and "hd m \<noteq> EMPTY_RING_SIG_WORD" and "head_msg r = m"
proof -
  have "head_slot r mod slots r = head_slot r" using head_in_slots(1) [OF assms(1)] by simp
  then have "slot_msg r (head_slot r) = m" "hd m \<noteq> EMPTY_RING_SIG_WORD"
    using assms(2) by (force simp: unread_def)+
  then show "head_word r = Some (hd m)" "hd m \<noteq> EMPTY_RING_SIG_WORD" "head_msg r = m"
    using head_word_slot [OF assms(1)] by simp_all
qed

lemma unread_consume:
  assumes wf: "ring_wf r" and un: "unread r (m # msgs)"
  shows "unread (consume r) msgs"
proof -
  let ?n = "slots r" and ?h = "head_slot r"
  have n: "0 < ?n" "?h < ?n" using wf_msg_words(4) [OF wf] head_in_slots(1) [OF wf] .
  have len: "Suc (length msgs) < ?n" using un by (simp add: unread_def)
  have idx: "(head_slot (consume r) + i) mod ?n = (?h + Suc i) mod ?n" for i
    unfolding consume_wf(2) [OF wf] by (simp add: mod_simps)
  have slot: "slot_msg (consume r) ((?h + Suc i) mod ?n) =
      (if Suc i = ?n then EMPTY_RING_SIG_WORD # drop 1 (slot_msg r ?h)
       else slot_msg r ((?h + Suc i) mod ?n))" if "i < ?n" for i
  proof (cases "Suc i = ?n")
    case True
    then show ?thesis using consume_slot [OF wf, of ?h] n by simp
  next
    case False
    then have "(?h + Suc i) mod ?n \<noteq> (?h + 0) mod ?n"
      using mod_slot_inj [of "Suc i" ?n 0 ?h] that n by auto
    then show ?thesis using consume_slot [OF wf, of "(?h + Suc i) mod ?n"] n False by simp
  qed
  have live: "slot_msg (consume r) ((head_slot (consume r) + i) mod ?n) = msgs ! i \<and>
      hd (msgs ! i) \<noteq> EMPTY_RING_SIG_WORD" if "i < length msgs" for i
  proof -
    have "Suc i < length (m # msgs)" using that by simp
    then have "slot_msg r ((?h + Suc i) mod ?n) = (m # msgs) ! Suc i \<and>
        hd ((m # msgs) ! Suc i) \<noteq> EMPTY_RING_SIG_WORD"
      using un unfolding unread_def by blast
    then show ?thesis unfolding idx using slot [of i] that len by simp
  qed
  have free: "hd (slot_msg (consume r) ((head_slot (consume r) + i) mod ?n)) = EMPTY_RING_SIG_WORD"
    if "length msgs \<le> i" "i < ?n" for i
  proof (cases "Suc i = ?n")
    case False
    then have "length (m # msgs) \<le> Suc i" "Suc i < ?n" using that by simp_all
    then have "hd (slot_msg r ((?h + Suc i) mod ?n)) = EMPTY_RING_SIG_WORD"
      using un unfolding unread_def by blast
    then show ?thesis unfolding idx using slot [OF that(2)] False by simp
  next
    case True
    then show ?thesis unfolding idx slot [OF that(2)] by simp
  qed
  show ?thesis using live free len by (simp add: unread_def)
qed

text \<open>A poll hands over a prefix of the unread responses, in order.\<close>

definition ring_frame :: "ring \<Rightarrow> ring \<Rightarrow> bool" where
  "ring_frame r r' \<longleftrightarrow> (\<exists>mem h. r' = r\<lparr>ring_mem := mem, ring_head := h\<rparr>)"

lemma ring_frame_refl: "ring_frame r r"
  unfolding ring_frame_def by (rule exI [of _ "ring_mem r"], rule exI [of _ "ring_head r"]) simp

lemma ring_frame_consume: "ring_frame (consume r) r' \<Longrightarrow> ring_frame r r'"
  by (auto simp: ring_frame_def consume_def)

lemma ring_frame_fields:
  assumes "ring_frame r r'"
  shows "slots r' = slots r" "msg_words r' = msg_words r" "ring_modulo r' = ring_modulo r"
    "message_size r' = message_size r" "coal_write_count r' = coal_write_count r"
    "min_resps_per_head_write r' = min_resps_per_head_write r" "resp_irq r' = resp_irq r"
  using assms by (auto simp: ring_frame_def slots_def msg_words_def)

lemma poll_loop_ok:
  "ring_wf r \<Longrightarrow> unread r msgs \<Longrightarrow>
   \<exists>r'. poll_loop q r = Some (take q msgs, r') \<and> ring_wf r' \<and> ring_frame r r' \<and>
     unread r' (drop q msgs) \<and> head_slot r' = (head_slot r + min q (length msgs)) mod slots r"
proof (induction q arbitrary: r msgs)
  case 0
  have "head_slot r mod slots r = head_slot r" using head_in_slots(1) [OF 0(1)] by simp
  then show ?case
    using 0 head_word_slot(1) [OF 0(1)] ring_frame_refl by (simp add: poll_loop.simps)
next
  case (Suc q)
  have hm: "head_slot r mod slots r = head_slot r" using head_in_slots(1) [OF Suc.prems(1)] by simp
  show ?case
  proof (cases msgs)
    case Nil
    then show ?thesis
      using Suc.prems unread_Nil_head hm ring_frame_refl by (simp add: poll_loop.simps)
  next
    case (Cons m ms)
    note un = Suc.prems(2) [unfolded Cons]
    note hd = unread_Cons_head [OF Suc.prems(1) un]
    obtain r' where r': "poll_loop q (consume r) = Some (take q ms, r')" "ring_wf r'"
        "ring_frame (consume r) r'" "unread r' (drop q ms)"
        "head_slot r' = (head_slot (consume r) + min q (length ms)) mod slots (consume r)"
      using Suc.IH [OF consume_wf(1) [OF Suc.prems(1)] unread_consume [OF Suc.prems(1) un]] by blast
    have "head_slot r' = (head_slot r + min (Suc q) (length msgs)) mod slots r"
      using r'(5) consume_wf(2) [OF Suc.prems(1)] by (simp add: Cons mod_simps)
    then show ?thesis
      using r' hd ring_frame_consume by (simp add: poll_loop.simps [of "Suc q"] Cons)
  qed
qed

section \<open>A pair of rings and its device\<close>

text \<open>
  A request ring and a response ring that share the counter of requests in flight, and what the
  device knows: the slot of the next request and the slot of the next response.  The device is
  hardware: the steps below state what the driver relies on, that it takes requests in order as
  far as the tail register allows and writes whole responses in order, none of which starts with
  the signature of an empty slot.
\<close>

record chan =
  tx :: ring
  rx :: ring
  infl :: u32
  dev_head :: nat
  dev_tail :: nat

definition dev_post :: "ring \<Rightarrow> nat \<Rightarrow> u32 list \<Rightarrow> ring" where
  "dev_post r j resp = r\<lparr>ring_mem :=
     take (j * msg_words r) (ring_mem r) @ resp @ drop (j * msg_words r + msg_words r) (ring_mem r)\<rparr>"

text \<open>The histories: requests accepted, requests read by the device, responses, callbacks.\<close>

inductive chan_run ::
  "chan \<Rightarrow> u32 list list \<Rightarrow> u32 list list \<Rightarrow> u32 list list \<Rightarrow> u32 list list \<Rightarrow> chan \<Rightarrow> bool"
  for c0 where
  start: "chan_run c0 [] [] [] [] c0"
| put: "chan_run c0 ps rs qs ds c \<Longrightarrow> msg_words (tx c) \<le> length buf \<Longrightarrow>
    adf_user_put_msg True (Some (tx c)) (Some buf) (infl c) = Some (0, sq, Some r', n) \<Longrightarrow>
    chan_run c0 (ps @ [take (msg_words (tx c)) buf]) rs qs ds (c\<lparr>tx := r', infl := n\<rparr>)"
| device: "chan_run c0 ps rs qs ds c \<Longrightarrow> dev_head c \<noteq> tail_slot (tx c) \<Longrightarrow>
    length resp = msg_words (rx c) \<Longrightarrow> hd resp \<noteq> EMPTY_RING_SIG_WORD \<Longrightarrow>
    chan_run c0 ps (rs @ [slot_msg (tx c) (dev_head c)]) (qs @ [resp]) ds
      (c\<lparr>rx := dev_post (rx c) (dev_tail c) resp,
         dev_head := Suc (dev_head c) mod slots (tx c), dev_tail := Suc (dev_tail c) mod slots (rx c)\<rparr>)"
| poll: "chan_run c0 ps rs qs ds c \<Longrightarrow>
    adf_user_notify_msgs_poll (rx c) (infl c) = Some (st, msgs, r', n) \<Longrightarrow>
    chan_run c0 ps rs qs (ds @ msgs) (c\<lparr>rx := r', infl := n\<rparr>)"

definition chan_rel :: "chan \<Rightarrow> u32 list list \<Rightarrow> u32 list list \<Rightarrow> bool" where
  "chan_rel c reqs resps \<longleftrightarrow>
     ring_wf (tx c) \<and> ring_wf (rx c) \<and> accel_dev (tx c) \<noteq> None \<and>
     unat (max_requests_inflight (tx c)) < slots (tx c) \<and>
     unat (max_requests_inflight (tx c)) < slots (rx c) \<and>
     pending (tx c) (dev_head c) reqs \<and> unread (rx c) resps \<and>
     dev_tail c = (head_slot (rx c) + length resps) mod slots (rx c) \<and>
     unat (infl c) = length reqs + length resps \<and>
     unat (infl c) \<le> unat (max_requests_inflight (tx c))"

lemma ring_mem_upd_fields [simp]:
  "slots (r\<lparr>ring_mem := m\<rparr>) = slots r" "msg_words (r\<lparr>ring_mem := m\<rparr>) = msg_words r"
  "head_slot (r\<lparr>ring_mem := m\<rparr>) = head_slot r"
  by (simp_all add: slots_def msg_words_def head_slot_def)

lemma dev_post_slot:
  assumes "ring_wf r" and "t < slots r" and "length resp = msg_words r"
  shows "ring_wf (dev_post r t resp)"
    and "j < slots r \<Longrightarrow> slot_msg (dev_post r t resp) j = (if j = t then resp else slot_msg r j)"
proof -
  note w = wf_msg_words [OF assms(1)]
  have le: "t * msg_words r + msg_words r \<le> slots r * msg_words r"
    using assms(2) by (metis Suc_leI add.commute mult_Suc mult_le_mono1)
  then have "length (ring_mem (dev_post r t resp)) = length (ring_mem r)"
    using assms(3) w(5) by (simp add: dev_post_def)
  then show "ring_wf (dev_post r t resp)" using assms(1) by (simp add: ring_wf_def dev_post_def)
  show "slot_msg (dev_post r t resp) j = (if j = t then resp else slot_msg r j)" if "j < slots r"
    using block_upd [OF w(5) assms(2) that assms(3)] by (simp add: slot_msg_def dev_post_def)
qed

lemma unread_post:
  assumes wf: "ring_wf r" and un: "unread r msgs" and room: "Suc (length msgs) < slots r"
    and resp: "length resp = msg_words r" "hd resp \<noteq> EMPTY_RING_SIG_WORD"
  shows "unread (dev_post r ((head_slot r + length msgs) mod slots r) resp) (msgs @ [resp])"
proof -
  let ?n = "slots r" and ?t = "(head_slot r + length msgs) mod slots r"
  have n: "0 < ?n" using wf_msg_words(4) [OF wf] .
  have slot: "slot_msg (dev_post r ?t resp) ((head_slot r + i) mod ?n) =
      (if i = length msgs then resp else slot_msg r ((head_slot r + i) mod ?n))" if "i < ?n" for i
    using dev_post_slot(2) [OF wf _ resp(1), of ?t "(head_slot r + i) mod ?n"]
      mod_slot_inj [OF that, of "length msgs" "head_slot r"] room n by auto
  have f: "slots (dev_post r ?t resp) = ?n" "head_slot (dev_post r ?t resp) = head_slot r"
    by (simp_all add: dev_post_def)
  show ?thesis
    unfolding unread_def f
  proof (intro conjI allI impI)
    fix i assume "i < length (msgs @ [resp])"
    then show "slot_msg (dev_post r ?t resp) ((head_slot r + i) mod ?n) = (msgs @ [resp]) ! i"
      "hd ((msgs @ [resp]) ! i) \<noteq> EMPTY_RING_SIG_WORD"
      using slot [of i] un resp(2) room by (auto simp: unread_def nth_append less_Suc_eq)
  next
    fix i assume "length (msgs @ [resp]) \<le> i \<and> i < ?n"
    then show "hd (slot_msg (dev_post r ?t resp) ((head_slot r + i) mod ?n)) = EMPTY_RING_SIG_WORD"
      using slot [of i] un by (simp add: unread_def)
  qed (use room in simp)
qed

lemma poll_ok:
  assumes "ring_wf r" and "unread r msgs" and "length msgs \<le> unat n" and "length msgs < 2 ^ 32"
  obtains st ms r' where "adf_user_notify_msgs_poll r n = Some (st, ms, r', n - of_nat (length ms))"
    "ms = take (unat (if ringResponseQuota r \<noteq> 0 then ringResponseQuota r else ICP_NO_RESPONSE_QUOTA)) msgs"
    "ring_wf r'" "slots r' = slots r" "msg_words r' = msg_words r" "unread r' (drop (length ms) msgs)"
    "head_slot r' = (head_slot r + length ms) mod slots r"
    "st = (if ms = [] then CPA_STATUS_RETRY else CPA_STATUS_SUCCESS)"
proof -
  define q where "q = unat (if ringResponseQuota r \<noteq> 0 then ringResponseQuota r else ICP_NO_RESPONSE_QUOTA)"
  obtain r1 where r1: "poll_loop q r = Some (take q msgs, r1)" "ring_wf r1" "ring_frame r r1"
      "unread r1 (drop q msgs)" "head_slot r1 = (head_slot r + min q (length msgs)) mod slots r"
    using poll_loop_ok [OF assms(1,2)] by blast
  let ?ms = "take q msgs"
  have pos: "(0 :: u32) < of_nat (length ?ms) \<longleftrightarrow> ?ms \<noteq> []"
    using assms(4) by (auto simp: word_less_nat_alt unat_of_nat)
  have co: "ring_wf (coalesce f k r1)" "slots (coalesce f k r1) = slots r1"
    "msg_words (coalesce f k r1) = msg_words r1" "head_slot (coalesce f k r1) = head_slot r1"
    "unread (coalesce f k r1) ms = unread r1 ms" for f k ms
    using r1(2)
    by (simp_all add: coalesce_def ring_wf_def slots_def msg_words_def head_slot_def unread_def slot_msg_def)
  have d: "drop (length ?ms) msgs = drop q msgs" by (simp add: min_def)
  have h: "head_slot r1 = (head_slot r + length ?ms) mod slots r" using r1(5) by (simp add: min.commute)
  show ?thesis
  proof (cases "?ms = []")
    case True
    then have "adf_user_notify_msgs_poll r n = Some (CPA_STATUS_RETRY, ?ms, r1, n - of_nat (length ?ms))"
      using r1(1)
      by (simp add: adf_user_notify_msgs_poll_def q_def [symmetric] Let_def del: take_eq_Nil length_take)
    then show ?thesis
      using that [of CPA_STATUS_RETRY ?ms r1] r1(2,4) ring_frame_fields(1,2) [OF r1(3)] True d h
      by (simp add: q_def)
  next
    case False
    then have "adf_user_notify_msgs_poll r n = Some (CPA_STATUS_SUCCESS, ?ms,
        coalesce (resp_irq r1) (of_nat (length ?ms)) r1, n - of_nat (length ?ms))"
      using r1(1) pos by (simp add: adf_user_notify_msgs_poll_def q_def [symmetric] Let_def)
    then show ?thesis
      using that [of CPA_STATUS_SUCCESS ?ms "coalesce (resp_irq r1) (of_nat (length ?ms)) r1"]
        r1(2,4) ring_frame_fields(1,2) [OF r1(3)] False d h co by (simp add: q_def)
  qed
qed

lemma wf_slots_bound: "ring_wf r \<Longrightarrow> slots r \<le> 65536"
proof -
  assume wf: "ring_wf r"
  have "slots r * 64 \<le> slots r * unat (message_size r)" using wf by (auto simp: ring_wf_def)
  also have "\<dots> = 2 ^ unat (ring_modulo r)" using wf_msg_words(2,3) [OF wf] by simp
  also have "\<dots> \<le> 2 ^ 22" using wf by (intro power_increasing) (auto simp: ring_wf_def)
  finally show ?thesis by simp
qed

text \<open>One lemma per step: the relation to the abstract queues is kept.\<close>

lemma chan_put:
  assumes rel: "chan_rel c reqs resps" and buf: "msg_words (tx c) \<le> length buf"
    and put: "adf_user_put_msg True (Some (tx c)) (Some buf) (infl c) = Some (0, sq, Some r', n)"
  shows "chan_rel (c\<lparr>tx := r', infl := n\<rparr>) (reqs @ [take (msg_words (tx c)) buf]) resps"
proof -
  have r: "ring_wf (tx c)" "accel_dev (tx c) \<noteq> None" "pending (tx c) (dev_head c) reqs"
    "unat (infl c) = length reqs + length resps"
    "unat (max_requests_inflight (tx c)) < slots (tx c)"
    "unat (infl c) \<le> unat (max_requests_inflight (tx c))"
    using rel by (auto simp: chan_rel_def)
  have small: "unat (infl c + 1) = unat (infl c) + 1"
    using r(5,6) wf_slots_bound [OF r(1)] by (simp add: unat_word_ariths)
  have room: "unat (infl c) < unat (max_requests_inflight (tx c))"
  proof (rule ccontr)
    assume "\<not> unat (infl c) < unat (max_requests_inflight (tx c))"
    then have "infl c + 1 > max_requests_inflight (tx c)" using small by (simp add: word_less_nat_alt)
    then show False using put r(2) by (auto simp: adf_user_put_msg_def Let_def)
  qed
  then have "Suc (length reqs) < slots (tx c)" using r(4,5) by linarith
  from put_msg_ok [OF r(1,2) buf room r(3) this] put
  have "ring_wf r'" "slots r' = slots (tx c)" "accel_dev r' = accel_dev (tx c)" "n = infl c + 1"
    "max_requests_inflight r' = max_requests_inflight (tx c)"
    "pending r' (dev_head c) (reqs @ [take (msg_words (tx c)) buf])" by auto
  then show ?thesis using rel room small by (simp add: chan_rel_def)
qed

lemma chan_device:
  assumes rel: "chan_rel c (req # reqs) resps"
    and resp: "length resp = msg_words (rx c)" "hd resp \<noteq> EMPTY_RING_SIG_WORD"
  shows "slot_msg (tx c) (dev_head c) = req"
    and "chan_rel (c\<lparr>rx := dev_post (rx c) (dev_tail c) resp,
         dev_head := Suc (dev_head c) mod slots (tx c),
         dev_tail := Suc (dev_tail c) mod slots (rx c)\<rparr>) reqs (resps @ [resp])"
proof -
  have r: "ring_wf (tx c)" "ring_wf (rx c)" "pending (tx c) (dev_head c) (req # reqs)"
    "unread (rx c) resps" "dev_tail c = (head_slot (rx c) + length resps) mod slots (rx c)"
    "unat (infl c) = Suc (length reqs) + length resps"
    "unat (max_requests_inflight (tx c)) < slots (rx c)"
    "unat (infl c) \<le> unat (max_requests_inflight (tx c))"
    using rel by (auto simp: chan_rel_def)
  have lt: "dev_head c < slots (tx c)" using r(3) by (simp add: pending_def)
  then have "(dev_head c + 0) mod slots (tx c) = dev_head c" by simp
  then show "slot_msg (tx c) (dev_head c) = req" using r(3) unfolding pending_def by force
  have "pending (tx c) (Suc (dev_head c) mod slots (tx c)) reqs"
    unfolding pending_def
  proof (intro conjI allI impI)
    fix i assume "i < length reqs"
    then have "slot_msg (tx c) ((dev_head c + Suc i) mod slots (tx c)) = (req # reqs) ! Suc i"
      using r(3) unfolding pending_def by (metis Suc_less_eq length_Cons)
    then show "slot_msg (tx c) ((Suc (dev_head c) mod slots (tx c) + i) mod slots (tx c)) = reqs ! i"
      by (simp add: mod_simps)
  qed (use r(3) lt in \<open>auto simp: pending_def mod_simps\<close>)
  moreover have "Suc (length resps) < slots (rx c)" using r(6,7,8) by linarith
  note un = unread_post [OF r(2,4) this resp, folded r(5)]
  moreover have "dev_tail c < slots (rx c)" using r(5) wf_msg_words(4) [OF r(2)] by simp
  note dev_post_slot(1) [OF r(2) this resp(1)]
  ultimately show "chan_rel (c\<lparr>rx := dev_post (rx c) (dev_tail c) resp,
         dev_head := Suc (dev_head c) mod slots (tx c),
         dev_tail := Suc (dev_tail c) mod slots (rx c)\<rparr>) reqs (resps @ [resp])"
    using rel r(5,6) by (simp add: chan_rel_def dev_post_def mod_simps)
qed

lemma chan_poll:
  assumes rel: "chan_rel c reqs resps"
    and poll: "adf_user_notify_msgs_poll (rx c) (infl c) = Some (st, ms, r', n)"
  shows "ms = take (length ms) resps"
    and "chan_rel (c\<lparr>rx := r', infl := n\<rparr>) reqs (drop (length ms) resps)"
proof -
  have r: "ring_wf (rx c)" "unread (rx c) resps" "unat (infl c) = length reqs + length resps"
    using rel by (auto simp: chan_rel_def)
  have len: "length resps \<le> unat (infl c)" "length resps < 2 ^ 32"
    using r(3) unsigned_less [of "infl c", where 'a = nat] by auto
  obtain q where p: "n = infl c - of_nat (length ms)" "ms = take q resps"
    "ring_wf r'" "slots r' = slots (rx c)" "unread r' (drop (length ms) resps)"
    "head_slot r' = (head_slot (rx c) + length ms) mod slots (rx c)"
    using poll_ok [OF r(1,2) len] poll by (metis option.inject prod.inject)
  show "ms = take (length ms) resps" using p(2) by (simp add: min_def)
  have le: "length ms \<le> length resps" using p(2) by simp
  then have "unat n = unat (infl c) - length ms"
    unfolding p(1) using len by (subst unat_sub) (simp_all add: word_le_nat_alt unat_of_nat)
  moreover have "(head_slot r' + length (drop (length ms) resps)) mod slots (rx c) =
      (head_slot (rx c) + length resps) mod slots (rx c)"
  proof -
    obtain k where "length resps = length ms + k" using le le_Suc_ex by blast
    then show ?thesis unfolding p(6) by (simp add: mod_simps add.assoc)
  qed
  ultimately show "chan_rel (c\<lparr>rx := r', infl := n\<rparr>) reqs (drop (length ms) resps)"
    using rel p(3,4,5) r(3) le by (auto simp: chan_rel_def)
qed

definition chan_inv ::
  "u32 list list \<Rightarrow> u32 list list \<Rightarrow> u32 list list \<Rightarrow> u32 list list \<Rightarrow> chan \<Rightarrow> bool" where
  "chan_inv ps rs qs ds c \<longleftrightarrow>
     length rs = length qs \<and> rs = take (length rs) ps \<and> ds = take (length ds) qs \<and>
     length rs \<le> length ps \<and> length ds \<le> length qs \<and>
     chan_rel c (drop (length rs) ps) (drop (length ds) qs)"

lemma chan_run_inv:
  assumes start: "chan_rel c0 [] []"
  shows "chan_run c0 ps rs qs ds c \<Longrightarrow> chan_inv ps rs qs ds c"
proof (induction rule: chan_run.induct)
  case start
  then show ?case using assms by (simp add: chan_inv_def)
next
  case (put ps rs qs ds c buf sq r' n)
  from put.IH chan_put [OF _ put.hyps(2,3)] show ?case by (auto simp: chan_inv_def)
next
  case (device ps rs qs ds c resp)
  have rel: "chan_rel c (drop (length rs) ps) (drop (length ds) qs)" using device.IH unfolding chan_inv_def by blast
  have "drop (length rs) ps \<noteq> []"
  proof
    assume "drop (length rs) ps = []"
    then have "tail_slot (tx c) = dev_head c" using rel by (simp add: chan_rel_def pending_def)
    then show False using device.hyps(2) by simp
  qed
  then obtain req rest where d: "drop (length rs) ps = req # rest" by (cases "drop (length rs) ps") auto
  then have "ps ! length rs = req" "rest = drop (Suc (length rs)) ps" "length rs < length ps"
    by (metis nth_via_drop, metis drop_Suc drop_tl list.sel(3), metis drop_eq_Nil2 list.distinct(1) not_le)
  moreover note chan_device [OF rel [unfolded d] device.hyps(3,4)]
  moreover have "rs = take (length qs) ps" "length rs = length qs"
    using device.IH unfolding chan_inv_def by metis+
  ultimately show ?case
    using device.IH by (simp add: chan_inv_def take_Suc_conv_app_nth)
next
  case (poll ps rs qs ds c st msgs r' n)
  have rel: "chan_rel c (drop (length rs) ps) (drop (length ds) qs)"
    and ds: "ds = take (length ds) qs" "length ds \<le> length qs" using poll.IH by (auto simp: chan_inv_def)
  note p = chan_poll [OF rel poll.hyps(2)]
  have "length msgs \<le> length qs - length ds" using arg_cong [OF p(1), of length] by simp
  moreover have "ds @ msgs = take (length ds + length msgs) qs"
    using ds(1) p(1) by (metis take_add)
  moreover have "rs = take (length qs) ps" "length rs = length qs"
    using poll.IH unfolding chan_inv_def by metis+
  ultimately show ?case using poll.IH p(2) ds(2) by (auto simp: chan_inv_def add.commute)
qed

section \<open>The size of a ring\<close>

lemma count_bits_spec:
  assumes "unat n < 2 ^ 31"
  shows "\<exists>b. count_bits n k = k + of_nat b \<and> unat n < 2 ^ b \<and> (b = 0 \<or> 2 ^ (b - 1) \<le> unat n) \<and> b \<le> 31"
  using assms
proof (induction n arbitrary: k rule: measure_induct_rule [of unat])
  case (less n)
  show ?case
  proof (cases "0 < n")
    case True
    then have pos: "0 < unat n" by (simp add: word_less_nat_alt)
    have half: "unat (drop_bit 1 n) = unat n div 2" by (simp add: drop_bit_eq_div unat_div)
    have "unat (drop_bit 1 n) < unat n" "unat (drop_bit 1 n) < 2 ^ 31" using pos half less.prems by auto
    then obtain b where b: "count_bits (drop_bit 1 n) (k + 1) = k + 1 + of_nat b" "unat n div 2 < 2 ^ b"
        "b = 0 \<or> 2 ^ (b - 1) \<le> unat n div 2"
      using less.IH [of "drop_bit 1 n" "k + 1"] half by auto
    have "unat n < 2 ^ Suc b" "2 ^ b \<le> unat n" using b(2,3) pos by (cases b; simp)+
    moreover have "Suc b \<le> 31"
    proof (rule ccontr)
      assume "\<not> Suc b \<le> 31"
      then have "(2 :: nat) ^ 31 \<le> 2 ^ b" by (intro power_increasing) auto
      then show False using \<open>2 ^ b \<le> unat n\<close> less.prems by linarith
    qed
    ultimately show ?thesis
      using b(1) True by (intro exI [of _ "Suc b"]) (simp add: count_bits.simps [of n])
  qed (use less.prems in \<open>auto simp: count_bits.simps [of n] word_less_nat_alt intro!: exI [of _ 0]\<close>)
qed

lemma modulo_16: "modulo m 4 = 0 \<longleftrightarrow> unat m mod 16 = 0"
  using modulo_unat [of 4 m] by (simp add: unat_eq_0 [symmetric])

lemma validateRingSize_ok:
  assumes n: "0 < unat n" and m: "0 < unat m" "unat m mod 16 = 0" and le: "unat n * unat m \<le> 2 ^ 22"
  shows "\<exists>b. validateRingSize n m = (of_nat (4 + b), of_nat (10 + b)) \<and> b \<le> 12 \<and>
    unat n * unat m \<le> 2 ^ (10 + b) \<and> (b = 0 \<or> 2 ^ (9 + b) < unat n * unat m)"
proof -
  let ?s = "unat n * unat m"
  have s: "unat (n * m) = ?s" using le by (simp add: unat_word_ariths)
  have pos: "0 < ?s" using n m by simp
  have s1: "unat (n * m - 1) = ?s - 1"
    using s pos by (subst unat_sub) (simp_all add: word_le_nat_alt)
  have "unat (2 ^ 10 :: u32) = 1024" by simp
  then have kb: "unat (drop_bit 10 (n * m - 1)) = (?s - 1) div 1024"
    by (simp only: drop_bit_eq_div unat_div s1)
  have "(?s - 1) div 1024 \<le> (2 ^ 22 - 1) div 1024" using le by (intro div_le_mono) simp
  then have small: "(?s - 1) div 1024 \<le> 4095" by simp
  obtain b where b: "count_bits (drop_bit 10 (n * m - 1)) 0 = 0 + of_nat b" "(?s - 1) div 1024 < 2 ^ b"
      "b = 0 \<or> 2 ^ (b - 1) \<le> (?s - 1) div 1024"
    using count_bits_spec [of "drop_bit 10 (n * m - 1)" 0] small unfolding kb by auto
  have b12: "b \<le> 12"
  proof (rule ccontr)
    assume "\<not> b \<le> 12"
    then have "12 \<le> b - 1" "b \<noteq> 0" by auto
    moreover from this have "(2 :: nat) ^ 12 \<le> 2 ^ (b - 1)" by (intro power_increasing) simp_all
    ultimately show False using b(3) small by simp
  qed
  have ub: "?s \<le> 2 ^ (10 + b)"
  proof -
    have "?s - 1 < 2 ^ b * 1024" using b(2) by (simp add: div_less_iff_less_mult)
    then show ?thesis by (simp add: power_add)
  qed
  have lb: "2 ^ (9 + b) < ?s" if "b \<noteq> 0"
  proof -
    have "2 ^ (b - 1) * 1024 \<le> ?s - 1" using b(3) that by (simp add: less_eq_div_iff_mult_less_eq)
    moreover have "(2 :: nat) ^ (9 + b) = 2 ^ (b - 1) * 1024"
      using that by (cases b) (simp_all add: power_add)
    ultimately show ?thesis using pos by linarith
  qed
  have eq: "validateRingSize n m = (of_nat (4 + b), of_nat (10 + b))"
  proof -
    have "n \<noteq> 0" "m \<noteq> 0" "modulo m 4 = 0" using n m modulo_16 by auto
    moreover have "ICP_ET_SIZE_TO_BYTES 16 \<ge> n * m"
      using ring_bytes [of 16] le s by (simp add: word_le_nat_alt)
    ultimately show ?thesis using b(1) by (simp add: validateRingSize_def Let_def)
  qed
  show ?thesis using lb by (intro exI [of _ b] conjI eq b12 ub) blast
qed

lemma init_ring_ok:
  assumes dev: "accel_dev r \<noteq> None" and ok: "adf_init_ring_internal lock r b num n m = (0, r', b')"
    and m: "m = 64 \<or> m = 128" and n: "0 < unat n" and le: "unat n * unat m \<le> 2 ^ 22"
  shows "ring_wf r'" and "unat (max_requests_inflight r') = unat n - 1" and "unat n \<le> slots r'"
    and "unread r' []" and "head_slot r' = 0" and "tail_slot r' = 0" and "accel_dev r' = accel_dev r"
    and "unat (ring_size r') = 2 ^ unat (ring_modulo r')"
proof -
  have mm: "0 < unat m" "unat m mod 16 = 0" using m by auto
  obtain k where k: "validateRingSize n m = (of_nat (4 + k), of_nat (10 + k))" "k \<le> 12"
      "unat n * unat m \<le> 2 ^ (10 + k)"
    using validateRingSize_ok [OF n mm le] by blast
  have u: "unat (of_nat (4 + k) :: u32) = 4 + k" "unat (of_nat (10 + k) :: u32) = 10 + k"
    using k(2) by (simp_all only: unat_of_nat) auto
  have bytes: "unat (ICP_ET_SIZE_TO_BYTES (of_nat (4 + k))) = 2 ^ (10 + k)"
    using ring_bytes [of "of_nat (4 + k)"] u(1) k(2) by (simp only: u(1)) (simp add: add.commute)
  have f: "message_size r' = m" "ring_modulo r' = of_nat (10 + k)" "ring_head r' = 0" "ring_tail r' = 0"
    "ring_mem r' = replicate (2 ^ (10 + k) div 4) EMPTY_RING_SIG_WORD"
    "max_requests_inflight r' = n - 1" "accel_dev r' = accel_dev r"
    "ring_size r' = ICP_ET_SIZE_TO_BYTES (of_nat (4 + k))"
    using ok dev unfolding adf_init_ring_internal_def k(1) bytes [symmetric]
    by (auto simp: Let_def split: if_splits prod.splits)
  show wf: "ring_wf r'" using m k(2) unfolding ring_wf_def f u by simp
  show "unat (max_requests_inflight r') = unat n - 1"
    unfolding f using n by (subst unat_sub) (simp_all add: word_le_nat_alt)
  have "unat n \<le> 2 ^ (10 + k) div unat m"
    using k(3) mm(1) by (simp add: less_eq_div_iff_mult_less_eq)
  then show "unat n \<le> slots r'" unfolding slots_def f u .
  show h: "head_slot r' = 0" "tail_slot r' = 0" unfolding head_slot_def tail_slot_def f by simp_all
  have "hd (slot_msg r' i) = EMPTY_RING_SIG_WORD" if "i < slots r'" for i
  proof -
    note w = wf_msg_words [OF wf]
    have "i * msg_words r' < length (ring_mem r')" using block_bound [OF that w(1)] w(5) by simp
    then show ?thesis using w(1) unfolding slot_msg_def by (simp add: hd_drop_conv_nth f(5))
  qed
  moreover have "0 < slots r'" using wf_msg_words(4) [OF wf] .
  ultimately show "unread r' []" by (simp add: unread_def h)
  show "accel_dev r' = accel_dev r" by (rule f)
  show "unat (ring_size r') = 2 ^ unat (ring_modulo r')" unfolding f u by (rule bytes)
qed


section \<open>Properties of the rings\<close>

lemma chan_start:
  assumes tx: "accel_dev t0 \<noteq> None" "adf_init_ring_internal tlock t0 b tnum n tm = (0, t, b1)"
      "tm = 64 \<or> tm = 128" "unat n * unat tm \<le> 2 ^ 22"
    and rx: "accel_dev r0 \<noteq> None" "adf_init_ring_internal rlock r0 b1 rnum n rm = (0, r, b2)"
      "rm = 64 \<or> rm = 128" "unat n * unat rm \<le> 2 ^ 22"
    and n: "0 < unat n"
  shows "chan_rel \<lparr>tx = t, rx = r, infl = 0, dev_head = 0, dev_tail = 0\<rparr> [] []"
    and "unat (max_requests_inflight t) = unat n - 1"
proof -
  note T = init_ring_ok [OF tx(1,2,3) n tx(4)] and R = init_ring_ok [OF rx(1,2,3) n rx(4)]
  have s: "0 < slots t" "0 < slots r" using T(1) R(1) wf_msg_words(4) by blast+
  have "pending t 0 []" using s T(6) by (simp add: pending_def)
  then show "chan_rel \<lparr>tx = t, rx = r, infl = 0, dev_head = 0, dev_tail = 0\<rparr> [] []"
    using T(1,2,3,7) R(1,3,4,5) s n tx(1) by (auto simp: chan_rel_def)
  show "unat (max_requests_inflight t) = unat n - 1" by (rule T(2))
qed

lemma chan_run_max:
  "chan_run c0 ps rs qs ds c \<Longrightarrow> max_requests_inflight (tx c) = max_requests_inflight (tx c0)"
proof (induction rule: chan_run.induct)
  case (put ps rs qs ds c buf sq r' n)
  have "max_requests_inflight r' = max_requests_inflight (tx c)"
    using put.hyps(3) by (auto simp: adf_user_put_msg_def Let_def split: if_splits option.splits)
  then show ?case using put.IH by simp
qed simp_all

lemma notify_loop_poll:
  "nonempty_words r \<le> q \<Longrightarrow> notify_loop r = poll_loop q r"
proof (induction r arbitrary: q rule: notify_loop.induct)
  case (1 r)
  show ?case
  proof (cases "head_word r")
    case None
    then show ?thesis by (subst notify_loop.simps, subst poll_loop.simps) simp
  next
    case (Some w)
    show ?thesis
    proof (cases "w = EMPTY_RING_SIG_WORD")
      case True
      then show ?thesis using Some by (subst notify_loop.simps, subst poll_loop.simps) simp
    next
      case False
      have "Suc (nonempty_words (consume r)) \<le> q" using 1 consume_nonempty [OF Some False] by simp
      then obtain k where q: "q = Suc k" "nonempty_words (consume r) \<le> k" by (cases q) auto
      have "notify_loop (consume r) = poll_loop k (consume r)" by (rule 1(1) [OF Some False q(2)])
      then show ?thesis
        using Some False q by (subst notify_loop.simps, subst poll_loop.simps) simp
    qed
  qed
qed

lemma nonempty_words_le: "nonempty_words r \<le> length (ring_mem r)"
  by (simp add: nonempty_words_def)


lemma poll_loop_irq: "poll_loop q r = Some (ms, r') \<Longrightarrow> resp_irq r' = resp_irq r"
proof (induction q arbitrary: r ms r')
  case 0
  then show ?case by (subst (asm) poll_loop.simps) (auto split: option.splits)
next
  case (Suc q)
  from Suc.prems show ?case
    by (subst (asm) poll_loop.simps)
      (auto split: option.splits if_splits dest!: Suc.IH simp: consume_def)
qed

lemma ring_cfg_unat:
  assumes "b \<le> 12"
  shows "unat (of_nat (4 + b) :: u32) = 4 + b" and "unat (of_nat (10 + b) :: u32) = 10 + b"
    and "unat (ICP_ET_SIZE_TO_BYTES (of_nat (4 + b))) = 2 ^ (10 + b)"
proof -
  show u: "unat (of_nat (4 + b) :: u32) = 4 + b" "unat (of_nat (10 + b) :: u32) = 10 + b"
    using assms by (simp_all only: unat_of_nat) auto
  show "unat (ICP_ET_SIZE_TO_BYTES (of_nat (4 + b))) = 2 ^ (10 + b)"
    using ring_bytes [of "of_nat (4 + b)"] assms by (simp only: u(1)) (simp add: add.commute)
qed

lemma reserved_bit: "ring_number < 16 \<Longrightarrow>
  (w :: u16) AND push_bit ring_number 1 = 0 \<longleftrightarrow> \<not> bit w ring_number"
  by (simp add: push_bit_eq_mult and_exp_eq_0_iff_not_bit)

lemma unreserve_reserve:
  assumes "\<not> bit (w :: u16) k"
  shows "(w OR push_bit k 1) AND NOT (push_bit k 1) = w"
proof (rule bit_eqI)
  fix n :: nat
  show "bit ((w OR push_bit k 1) AND NOT (push_bit k 1)) n = bit w n"
    using assms by (cases "n = k") (auto simp: bit_simps dest: bit_imp_le_length)
qed

lemma reserve_ok:
  assumes "num < 16" and "fst (adf_reserve_ring lock b num) = 0"
  shows "\<not> bit (ring_mask b) num" and "user_bank_lock b"
    and "snd (adf_reserve_ring lock b num) = b\<lparr>ring_mask := ring_mask b OR push_bit num 1\<rparr>"
  using assms reserved_bit [of num "ring_mask b"]
  by (auto simp: adf_reserve_ring_def simp del: push_bit_of_1 split: if_splits)

lemma ring_size_64k: "validateRingSize 65536 128 = (16, 22)"
  by code_simp

text \<open>A pair of 1 KB rings for the witnesses.\<close>

definition ring_example :: ring where
  "ring_example = \<lparr>accel_dev = Some \<lparr>is_gen4 = False, arb_mask = 0xFF\<rparr>, ring_mem = [],
     ring_virt_addr = 0x7000000, ring_phys_base_addr = 0x40000, ring_num = 0, ring_size = 0,
     message_size = 0, send_seq = 0, ring_head = 0, ring_tail = 0, ring_modulo = 0,
     max_requests_inflight = 0, coal_write_count = 0, min_resps_per_head_write = 0,
     csrTailOffset = 0, ringResponseQuota = 0, resp_irq = False, csr_head = 0, csr_tail = 0,
     csr_base = 0, csr_config = 0\<rparr>"

definition bank_example :: bank where
  "bank_example = \<lparr>user_bank_lock = True, ring_mask = 0, tx_rings_mask = 0xFF, csr_arb_en = 0\<rparr>"

definition tx_example :: "int \<times> ring \<times> bank" where
  "tx_example = adf_init_ring_internal True ring_example bank_example 0 16 64"

definition rx_example :: "int \<times> ring \<times> bank" where
  "rx_example = adf_init_ring_internal True ring_example (snd (snd tx_example)) 8 16 64"

lemma tx_example_ok: "fst tx_example = 0" by code_simp
lemma rx_example_ok: "fst rx_example = 0" by code_simp

abbreviation chan_example :: chan where
  "chan_example \<equiv>
     \<lparr>tx = fst (snd tx_example), rx = fst (snd rx_example), infl = 0, dev_head = 0, dev_tail = 0\<rparr>"

lemma chan_example_init:
  "adf_init_ring_internal True ring_example bank_example 0 16 64 =
     (0, fst (snd tx_example), snd (snd tx_example))"
  "adf_init_ring_internal True ring_example (snd (snd tx_example)) 8 16 64 =
     (0, fst (snd rx_example), snd (snd rx_example))"
  using tx_example_ok rx_example_ok unfolding tx_example_def [symmetric] rx_example_def [symmetric]
  by (simp_all add: prod_eq_iff)

lemma chan_example_rel:
  "chan_rel chan_example [] []" "unat (max_requests_inflight (fst (snd tx_example))) = 15"
  "message_size (fst (snd tx_example)) = 64" "message_size (fst (snd rx_example)) = 64"
proof -
  have dev: "accel_dev ring_example \<noteq> None" by (simp add: ring_example_def)
  show "chan_rel chan_example [] []" "unat (max_requests_inflight (fst (snd tx_example))) = 15"
    using chan_start [OF dev chan_example_init(1) _ _ dev chan_example_init(2)] by simp_all
  show "message_size (fst (snd tx_example)) = 64" "message_size (fst (snd rx_example)) = 64"
    by code_simp+
qed

lemma chan_example_run:
  "\<exists>c. chan_run chan_example [replicate 16 1] [replicate 16 1] [replicate 16 2] [] c"
proof -
  let ?m = "replicate 16 1 :: u32 list" and ?t = "fst (snd tx_example)"
  have rel: "ring_wf ?t" "accel_dev ?t \<noteq> None" "pending ?t 0 []" "15 < slots ?t"
    using chan_example_rel by (auto simp: chan_rel_def)
  have w: "msg_words ?t = 16" "msg_words (fst (snd rx_example)) = 16"
    using chan_example_rel by (simp_all add: msg_words_def)
  obtain r' where r': "adf_user_put_msg True (Some ?t) (Some ?m) 0 = Some (0, Some (send_seq ?t), Some r', 1)"
      "pending r' 0 [take (msg_words ?t) ?m]" "slots r' = slots ?t"
    using put_msg_ok [OF rel(1,2) _ _ rel(3), of ?m 0] rel(4) w chan_example_rel(2) by auto
  have put: "chan_run chan_example [?m] [] [] [] (chan_example\<lparr>tx := r', infl := 1\<rparr>)"
    using chan_run.put [OF chan_run.start, of chan_example ?m] r'(1) w(1) by simp
  have "dev_head (chan_example\<lparr>tx := r', infl := 1\<rparr>) \<noteq> tail_slot (tx (chan_example\<lparr>tx := r', infl := 1\<rparr>))"
    "slot_msg r' 0 = ?m"
    using r' rel(4) w by (auto simp: pending_def)
  then show ?thesis
    using chan_run.device [OF put, of "replicate 16 2"] w(2)
    by (auto simp: EMPTY_RING_SIG_WORD_def)
qed

text \<open>C5. Take a request ring and a response ring as \<open>adf_init_ring_internal\<close> sets them up, with any
  number of messages that fits the largest ring, and any interleaving of \<open>adf_user_put_msg\<close>, of
  the device and of \<open>adf_user_notify_msgs_poll\<close>, over any number of wrap-arounds.  The device
  reads the accepted requests whole, in order and without loss; the callbacks get the responses
  whole, in order and without loss; the counter in flight is the number of requests accepted and
  not yet answered to the caller, and it never exceeds the number of messages minus one.
\<close>

theorem ring_pair_fifo:
  assumes tx: "accel_dev t0 \<noteq> None" "adf_init_ring_internal tlock t0 b tnum n tm = (0, t, b1)"
      "tm = 64 \<or> tm = 128" "unat n * unat tm \<le> 2 ^ 22"
    and rx: "accel_dev r0 \<noteq> None" "adf_init_ring_internal rlock r0 b1 rnum n rm = (0, r, b2)"
      "rm = 64 \<or> rm = 128" "unat n * unat rm \<le> 2 ^ 22"
    and n: "0 < unat n"
    and run: "chan_run \<lparr>tx = t, rx = r, infl = 0, dev_head = 0, dev_tail = 0\<rparr> ps rs qs ds c"
  shows "rs = take (length rs) ps \<and> ds = take (length ds) qs \<and> length qs = length rs \<and>
    unat (infl c) = length ps - length ds \<and> length ds \<le> length ps \<and> unat (infl c) \<le> unat n - 1"
proof -
  note start = chan_start [OF tx rx n]
  have "chan_inv ps rs qs ds c" by (rule chan_run_inv [OF start(1) run])
  then show ?thesis using chan_run_max [OF run] start(2) by (auto simp: chan_inv_def chan_rel_def)
qed

theorem ring_pair_fifo_witness:
  "\<exists>c. chan_run chan_example [replicate 16 1] [replicate 16 1] [replicate 16 2] [] c \<and>
     unat (infl c) = 1"
proof -
  obtain c where c: "chan_run chan_example [replicate 16 1] [replicate 16 1] [replicate 16 2] [] c"
    using chan_example_run by blast
  have dev: "accel_dev ring_example \<noteq> None" by (simp add: ring_example_def)
  show ?thesis
    using ring_pair_fifo [OF dev chan_example_init(1) _ _ dev chan_example_init(2) _ _ _ c] c by auto
qed

text \<open>C17. After any such run, \<open>adf_user_notify_msgs_poll\<close> returns: it hands the unread responses,
  oldest first, to the callback up to the quota, and its status is success exactly when there is
  an unread response, so no posted response stays unread.
\<close>

theorem ring_poll_progress:
  assumes tx: "accel_dev t0 \<noteq> None" "adf_init_ring_internal tlock t0 b tnum n tm = (0, t, b1)"
      "tm = 64 \<or> tm = 128" "unat n * unat tm \<le> 2 ^ 22"
    and rx: "accel_dev r0 \<noteq> None" "adf_init_ring_internal rlock r0 b1 rnum n rm = (0, r, b2)"
      "rm = 64 \<or> rm = 128" "unat n * unat rm \<le> 2 ^ 22"
    and n: "0 < unat n"
    and run: "chan_run \<lparr>tx = t, rx = r, infl = 0, dev_head = 0, dev_tail = 0\<rparr> ps rs qs ds c"
  shows "\<exists>st ms r' k. adf_user_notify_msgs_poll (rx c) (infl c) = Some (st, ms, r', k) \<and>
    ms = take (unat (if ringResponseQuota (rx c) \<noteq> 0 then ringResponseQuota (rx c)
                     else ICP_NO_RESPONSE_QUOTA)) (drop (length ds) qs) \<and>
    (st = CPA_STATUS_SUCCESS \<longleftrightarrow> length ds < length qs)"
proof -
  note start = chan_start [OF tx rx n]
  have inv: "chan_inv ps rs qs ds c" by (rule chan_run_inv [OF start(1) run])
  then have r: "ring_wf (rx c)" "unread (rx c) (drop (length ds) qs)"
    "length (drop (length ds) qs) \<le> unat (infl c)"
    by (auto simp: chan_inv_def chan_rel_def)
  moreover have "length (drop (length ds) qs) < 2 ^ 32"
    using r(3) unsigned_less [of "infl c", where 'a = nat] by simp
  ultimately obtain st ms r' where p:
    "adf_user_notify_msgs_poll (rx c) (infl c) = Some (st, ms, r', infl c - of_nat (length ms))"
    "ms = take (unat (if ringResponseQuota (rx c) \<noteq> 0 then ringResponseQuota (rx c)
                      else ICP_NO_RESPONSE_QUOTA)) (drop (length ds) qs)"
    "st = (if ms = [] then CPA_STATUS_RETRY else CPA_STATUS_SUCCESS)"
    by (rule poll_ok) blast
  have "0 < unat (if ringResponseQuota (rx c) \<noteq> 0 then ringResponseQuota (rx c) else ICP_NO_RESPONSE_QUOTA)"
    by (simp add: unat_gt_0)
  then have "ms = [] \<longleftrightarrow> length qs \<le> length ds" unfolding p(2) by (simp only: take_eq_Nil drop_eq_Nil) auto
  then show ?thesis using p by (intro exI conjI) auto
qed

theorem ring_poll_progress_witness:
  "\<exists>c st r' k. chan_run chan_example [replicate 16 1] [replicate 16 1] [replicate 16 2] [] c \<and>
     adf_user_notify_msgs_poll (rx c) (infl c) = Some (CPA_STATUS_SUCCESS, st, r', k)"
proof -
  obtain c where c: "chan_run chan_example [replicate 16 1] [replicate 16 1] [replicate 16 2] [] c"
    using chan_example_run by blast
  have dev: "accel_dev ring_example \<noteq> None" by (simp add: ring_example_def)
  show ?thesis
    using ring_poll_progress [OF dev chan_example_init(1) _ _ dev chan_example_init(2) _ _ _ c] c by fastforce
qed

text \<open>\<open>adf_user_put_msg\<close> answers RETRY, with the ring and the counter unchanged, exactly when the
  counter of requests in flight has reached the limit of the ring.
\<close>

lemma put_msg_full:
  "accel_dev r \<noteq> None \<Longrightarrow> unat in_flight < 2 ^ 32 - 1 \<Longrightarrow>
   adf_user_put_msg True (Some r) (Some buf) in_flight = Some (CPA_STATUS_RETRY, None, Some r, in_flight)
     \<longleftrightarrow> unat (max_requests_inflight r) \<le> unat in_flight"
proof -
  assume "accel_dev r \<noteq> None" and less: "unat in_flight < 2 ^ 32 - 1"
  moreover have "unat (in_flight + 1) = unat in_flight + 1" using less by (simp add: unat_word_ariths)
  then have "in_flight + 1 > max_requests_inflight r \<longleftrightarrow> unat (max_requests_inflight r) \<le> unat in_flight"
    by (simp add: word_less_nat_alt less_Suc_eq_le)
  ultimately show ?thesis
    by (auto simp: adf_user_put_msg_def Let_def split: option.splits)
qed

text \<open>On a polled ring whose quota covers its occupied words, the loop without a quota of
  \<open>adf_user_notify_msgs\<close> and the bounded one of \<open>adf_user_notify_msgs_poll\<close> hand over the same
  messages and leave the same ring and counter.
\<close>

lemma notify_msgs_eq_poll:
  "\<not> resp_irq r \<Longrightarrow>
   nonempty_words r \<le> unat (if ringResponseQuota r \<noteq> 0 then ringResponseQuota r else ICP_NO_RESPONSE_QUOTA) \<Longrightarrow>
   adf_user_notify_msgs (Some r) k =
     map_option (\<lambda>(st, ms, r', k'). (0, ms, Some r', k')) (adf_user_notify_msgs_poll r k)"
  using notify_loop_poll [of r] poll_loop_irq
  by (auto simp: adf_user_notify_msgs_def adf_user_notify_msgs_poll_def Let_def split: option.splits)

text \<open>For a positive number of messages whose size is a multiple of 16 bytes and which fit into
  4 MB, \<open>validateRingSize\<close> chooses the smallest power of two, at least 1 KB, that holds them all;
  the configuration value encodes the same size as the shift.
\<close>

lemma ring_size_minimal:
  "0 < unat n \<Longrightarrow> 0 < unat m \<Longrightarrow> unat m mod 16 = 0 \<Longrightarrow> unat n * unat m \<le> 2 ^ 22 \<Longrightarrow>
   \<exists>cfg s. validateRingSize n m = (cfg, s) \<and> 10 \<le> unat s \<and> unat s \<le> 22 \<and>
     unat (ICP_ET_SIZE_TO_BYTES cfg) = 2 ^ unat s \<and> unat n * unat m \<le> 2 ^ unat s \<and>
     (\<forall>t. 10 \<le> t \<and> unat n * unat m \<le> 2 ^ t \<longrightarrow> unat s \<le> t)"
proof -
  assume h: "0 < unat n" "0 < unat m" "unat m mod 16 = 0" "unat n * unat m \<le> 2 ^ 22"
  obtain b where b: "validateRingSize n m = (of_nat (4 + b), of_nat (10 + b))" "b \<le> 12"
    "unat n * unat m \<le> 2 ^ (10 + b)" "b = 0 \<or> 2 ^ (9 + b) < unat n * unat m"
    using validateRingSize_ok [OF h] by blast
  note u = ring_cfg_unat [OF b(2)]
  have "10 + b \<le> t" if "10 \<le> t" "unat n * unat m \<le> 2 ^ t" for t
  proof (rule ccontr)
    assume less: "\<not> 10 + b \<le> t"
    then have "(2 :: nat) ^ t \<le> 2 ^ (9 + b)" by (intro power_increasing) auto
    then have "unat n * unat m \<le> 2 ^ (9 + b)" using that(2) by (rule order_trans [rotated])
    then show False using b(4) that(1) less by auto
  qed
  then show ?thesis using b(2,3) u by (intro exI [of _ "of_nat (4 + b)"] exI [of _ "of_nat (10 + b)"] conjI b(1)) simp_all
qed

text \<open>C24. A successful \<open>adf_init_ring_internal\<close> reserves a ring that was free, every later attempt on
  the same ring fails with EBUSY and changes nothing, and \<open>adf_clean_ring\<close> restores the mask of
  reserved rings.
\<close>

theorem ring_exclusive:
  "num < 16 \<Longrightarrow> adf_init_ring_internal lock r b num n m = (0, r', b') \<Longrightarrow>
   \<not> bit (ring_mask b) num \<and>
   (\<forall>lock2 q n2 m2. adf_init_ring_internal lock2 q b' num n2 m2 = (- EBUSY, q, b')) \<and>
   ring_mask (snd (adf_clean_ring True r' b')) = ring_mask b"
proof -
  assume num: "num < 16" and ok: "adf_init_ring_internal lock r b num n m = (0, r', b')"
  then have "fst (adf_reserve_ring lock b num) = 0"
    by (auto simp: adf_init_ring_internal_def Let_def split: if_splits prod.splits)
  note res = reserve_ok [OF num this]
  have "ring_mask b' = ring_mask (snd (adf_reserve_ring lock b num))"
    "user_bank_lock b' = user_bank_lock (snd (adf_reserve_ring lock b num))"
    "accel_dev r' \<noteq> None" "ring_num r' = num"
    using ok by (auto simp: adf_init_ring_internal_def adf_io_enable_ring_def Let_def
        split: if_splits prod.splits option.splits)
  then have b': "ring_mask b' = ring_mask b OR push_bit num 1" "user_bank_lock b'"
    "accel_dev r' \<noteq> None" "ring_num r' = num"
    using res by simp_all
  have "bit (ring_mask b') num" unfolding b' using num by (simp add: bit_simps)
  then have "adf_reserve_ring lock2 b' num = (if lock2 then - EBUSY else - 1, b')" for lock2
    using b'(2) num reserved_bit [OF num] by (simp add: adf_reserve_ring_def del: push_bit_of_1)
  then have "adf_init_ring_internal lock2 q b' num n2 m2 = (- EBUSY, q, b')" for lock2 q n2 m2
    by (simp add: adf_init_ring_internal_def split: prod.split)
  moreover have "ring_mask (snd (adf_clean_ring True r' b')) = ring_mask b"
    using b'(3,4) unreserve_reserve [OF res(1)]
    by (auto simp: adf_clean_ring_def adf_io_disable_ring_def adf_unreserve_ring_def b'(1) simp del: push_bit_of_1)
  ultimately show ?thesis using res(1) by blast
qed

theorem ring_exclusive_witness:
  "adf_init_ring_internal True ring_example (snd (snd tx_example)) 0 32 128 =
     (- EBUSY, ring_example, snd (snd tx_example))"
  using ring_exclusive [OF _ chan_example_init(1)] by simp



text \<open>
  Two defects of the error paths: a buffer without a translation is not freed, and a request of an
  unsupported size stays counted as in flight.
\<close>

lemma init_ring_leak:
  "virt \<noteq> 0 \<Longrightarrow> adf_init_ring lock virt 0 r b num n m =
     (- ENOMEM, r\<lparr>ring_virt_addr := virt, ring_phys_base_addr := 0\<rparr>, b, False)"
  by (simp add: adf_init_ring_def)

lemma put_msg_bad_size_leaks:
  "accel_dev r \<noteq> None \<Longrightarrow> in_flight + 1 \<le> max_requests_inflight r \<Longrightarrow>
   message_size r \<noteq> 64 \<Longrightarrow> message_size r \<noteq> 128 \<Longrightarrow>
   adf_user_put_msg True (Some r) (Some buf) in_flight = Some (CPA_STATUS_FAIL, None, Some r, in_flight + 1)"
  by (auto simp: adf_user_put_msg_def Let_def)

end
