(* ===== verification/Qat_Crc.thy ===== *)
theory Qat_Crc
  imports Qat_Prelude
begin

text \<open>
  Cyclic redundancy checks as shift registers.  The table-driven routines of the repository
  (\<open>dc_crc_base.c\<close>, \<open>adf_pfvf_proto.c\<close>) are related to the registers that shift one bit at a time,
  in the reflected and in the normal bit order.  The locale \<open>crc_register\<close> states what the
  registers promise; what a checksum detects is proved from it once.
\<close>

section \<open>Bit-serial registers\<close>

definition refl_sh :: "'a::len word \<Rightarrow> 'a word \<Rightarrow> 'a word" where
  "refl_sh poly c = (if bit c 0 then drop_bit 1 c XOR poly else drop_bit 1 c)"

definition norm_sh :: "'a::len word \<Rightarrow> 'a word \<Rightarrow> 'a word" where
  "norm_sh poly c = (if bit c (LENGTH('a) - 1) then push_bit 1 c XOR poly else push_bit 1 c)"

text \<open>The place where the byte that is \<open>k\<close> bytes ahead enters the register.\<close>

definition refl_put :: "nat \<Rightarrow> u8 \<Rightarrow> 'a::len word" where
  "refl_put k b = push_bit (8 * k) (ucast b)"

definition norm_put :: "nat \<Rightarrow> u8 \<Rightarrow> 'a::len word" where
  "norm_put k b = push_bit (LENGTH('a) - 8 - 8 * k) (ucast b)"

definition crc_byte :: "('a::len word \<Rightarrow> 'a word) \<Rightarrow> (nat \<Rightarrow> u8 \<Rightarrow> 'a word) \<Rightarrow> 'a word \<Rightarrow> u8 \<Rightarrow> 'a word" where
  "crc_byte sh put c b = (sh ^^ 8) (c XOR put 0 b)"

definition crc_run :: "('a::len word \<Rightarrow> 'a word) \<Rightarrow> (nat \<Rightarrow> u8 \<Rightarrow> 'a word) \<Rightarrow> 'a word \<Rightarrow> u8 list \<Rightarrow> 'a word" where
  "crc_run sh put c bs = foldl (crc_byte sh put) c bs"

primrec put_all :: "(nat \<Rightarrow> u8 \<Rightarrow> 'a::len word) \<Rightarrow> nat \<Rightarrow> u8 list \<Rightarrow> 'a word" where
  "put_all put i [] = 0"
| "put_all put i (b # bs) = put i b XOR put_all put (Suc i) bs"

lemma xor_zero_eq: "x XOR y = 0 \<Longrightarrow> x = (y :: 'a::len word)"
  by (metis xor.assoc xor.left_neutral xor.right_neutral xor_self_eq)

lemma put_all_snoc: "put_all put i (bs @ [b]) = put_all put i bs XOR put (i + length bs) b"
  by (induction bs arbitrary: i) (simp_all add: ac_simps xor.assoc)

lemma crc_run_simps [simp]:
  "crc_run sh put c [] = c"
  "crc_run sh put c (b # bs) = crc_run sh put (crc_byte sh put c b) bs"
  "crc_run sh put c (as @ bs) = crc_run sh put (crc_run sh put c as) bs"
  by (simp_all add: crc_run_def)

section \<open>What a register promises\<close>

locale crc_register =
  fixes sh :: "'a::len word \<Rightarrow> 'a word"
    and put :: "nat \<Rightarrow> u8 \<Rightarrow> 'a word"
    and n :: nat
  assumes sh_xor: "sh (x XOR y) = sh x XOR sh y"
    and sh_zero: "sh x = 0 \<Longrightarrow> x = 0"
    and put_xor: "put k (a XOR b) = put k a XOR put k b"
    and put_back: "k < n \<Longrightarrow> (sh ^^ (8 * k)) (put k b) = put 0 b"
    and put_all_zero: "length bs \<le> n \<Longrightarrow> put_all put 0 bs = 0 \<Longrightarrow> b \<in> set bs \<Longrightarrow> b = 0"
begin

lemma pow_xor: "(sh ^^ k) (x XOR y) = (sh ^^ k) x XOR (sh ^^ k) y"
  by (induction k) (simp_all add: sh_xor)

lemma pow_zero: "(sh ^^ k) x = 0 \<Longrightarrow> x = 0"
  by (induction k) (auto dest: sh_zero)

lemma pow_inj: "(sh ^^ k) x = (sh ^^ k) y \<Longrightarrow> x = y"
  using pow_zero [of k "x XOR y"] by (simp add: pow_xor) (metis xor.assoc xor.right_neutral xor_self_eq)

lemma byte_xor:
  "crc_byte sh put (c XOR d) (a XOR b) = crc_byte sh put c a XOR crc_byte sh put d b"
  unfolding crc_byte_def put_xor pow_xor [symmetric] by (simp add: ac_simps)

lemma run_xor:
  "length as = length bs \<Longrightarrow>
   crc_run sh put (c XOR d) (map2 (XOR) as bs) = crc_run sh put c as XOR crc_run sh put d bs"
  by (induction as bs arbitrary: c d rule: list_induct2) (simp_all add: byte_xor)

lemma run_state_inj: "crc_run sh put c bs = crc_run sh put d bs \<Longrightarrow> c = d"
proof (induction bs arbitrary: c d)
  case (Cons b bs)
  then have "(sh ^^ 8) (c XOR put 0 b) = (sh ^^ 8) (d XOR put 0 b)" by (auto simp: crc_byte_def)
  then have "c XOR put 0 b = d XOR put 0 b" by (rule pow_inj)
  then show ?case by (metis xor.assoc xor.right_neutral xor_self_eq)
qed simp

lemma run_put_all: "length bs \<le> n \<Longrightarrow> crc_run sh put 0 bs = (sh ^^ (8 * length bs)) (put_all put 0 bs)"
proof (induction bs rule: rev_induct)
  case (snoc b bs)
  have "put 0 b = (sh ^^ (8 * length bs)) (put (length bs) b)" using snoc.prems put_back by simp
  then have "crc_run sh put 0 (bs @ [b]) =
      (sh ^^ 8) ((sh ^^ (8 * length bs)) (put_all put 0 bs XOR put (length bs) b))"
    using snoc by (simp add: crc_byte_def pow_xor)
  then show ?case by (simp add: put_all_snoc funpow_add)
qed simp

text \<open>Two messages that differ only within \<open>n\<close> consecutive bytes have different checksums.\<close>

lemma burst_detected:
  assumes len: "length u = length v" "length u \<le> n"
    and eq: "crc_run sh put c (pre @ u @ post) = crc_run sh put c (pre @ v @ post)"
  shows "u = v"
proof -
  define d where "d = crc_run sh put c pre"
  have "crc_run sh put d u = crc_run sh put d v"
    using run_state_inj [of "crc_run sh put d u" post] eq by (simp add: d_def)
  then have "crc_run sh put 0 (map2 (XOR) u v) = 0" using run_xor [OF len(1), of d d] by simp
  then have "put_all put 0 (map2 (XOR) u v) = 0"
    using run_put_all [of "map2 (XOR) u v"] len pow_zero by simp
  then have z: "d = 0" if "d \<in> set (map2 (XOR) u v)" for d
    using put_all_zero [OF _ _ that] len by simp
  have "x = y" if "(x, y) \<in> set (zip u v)" for x y
  proof -
    have "x XOR y \<in> set (map2 (XOR) u v)" using imageI [OF that, of "\<lambda>(x, y). x XOR y"] by simp
    then show ?thesis using z xor_zero_eq by blast
  qed
  then show "u = v" using len(1) by (auto simp: list_eq_iff_zip_eq)
qed

end

section \<open>The two bit orders\<close>

lemma refl_sh_xor: "refl_sh p (x XOR y) = refl_sh p x XOR refl_sh p y"
  by (rule bit_eqI) (auto simp: refl_sh_def bit_simps)

lemma norm_sh_xor: "norm_sh p (x XOR y) = norm_sh p x XOR norm_sh p y"
  by (rule bit_eqI) (auto simp: norm_sh_def bit_simps)

lemma refl_sh_zero:
  fixes p :: "'a::len word"
  assumes top: "bit p (LENGTH('a) - 1)" and z: "refl_sh p x = 0"
  shows "x = 0"
proof (cases "bit x 0")
  case True
  then have "drop_bit 1 x = p" using z by (simp add: refl_sh_def xor_zero_eq)
  then have "bit (drop_bit 1 x) (LENGTH('a) - 1)" using top by simp
  then show ?thesis by (auto simp: bit_drop_bit_eq dest: bit_imp_le_length)
next
  case False
  then have d: "drop_bit 1 x = 0" using z by (simp add: refl_sh_def)
  show ?thesis
  proof (rule bit_eqI)
    fix i
    have "\<not> bit (drop_bit 1 x) (i - 1)" using d by simp
    then show "bit x i = bit 0 i" using False by (cases i) (simp_all add: bit_drop_bit_eq)
  qed
qed

lemma norm_sh_zero:
  fixes p :: "'a::len word"
  assumes low: "bit p 0" and z: "norm_sh p x = 0"
  shows "x = 0"
proof (cases "bit x (LENGTH('a) - 1)")
  case True
  then have "push_bit 1 x = p" using z by (simp add: norm_sh_def xor_zero_eq)
  then have "bit (push_bit 1 x) 0" using low by simp
  then show ?thesis by (simp only: bit_push_bit_iff) simp
next
  case False
  then have d: "push_bit 1 x = 0" using z by (simp add: norm_sh_def)
  show ?thesis
  proof (rule bit_word_eqI)
    fix i assume i: "i < LENGTH('a)"
    have "\<not> bit (push_bit 1 x) (Suc i)" using d by (simp only: bit_0_eq) simp
    then have "Suc i < LENGTH('a) \<Longrightarrow> \<not> bit x i" by (simp only: bit_push_bit_iff) simp
    moreover have "\<not> Suc i < LENGTH('a) \<Longrightarrow> i = LENGTH('a) - 1" using i by linarith
    ultimately show "bit x i = bit 0 i" using False by auto
  qed
qed

lemma refl_put_xor: "refl_put k (a XOR b) = refl_put k a XOR refl_put k b"
  by (rule bit_eqI) (auto simp: refl_put_def bit_simps)

lemma norm_put_xor: "norm_put k (a XOR b) = norm_put k a XOR norm_put k b"
  by (rule bit_eqI) (auto simp: norm_put_def bit_simps)

lemma refl_put_bit:
  "bit (refl_put k b :: 'a::len word) i \<longleftrightarrow> 8 * k \<le> i \<and> i < LENGTH('a) \<and> bit b (i - 8 * k)"
  by (auto simp: refl_put_def bit_simps)

lemma norm_put_bit:
  assumes "8 * k + 8 \<le> LENGTH('a::len)"
  shows "bit (norm_put k b :: 'a word) i \<longleftrightarrow>
    LENGTH('a) - 8 - 8 * k \<le> i \<and> i < LENGTH('a) \<and> bit b (i - (LENGTH('a) - 8 - 8 * k))"
  using assms by (auto simp: norm_put_def bit_simps)

text \<open>A zero bit leaves the register without feedback.\<close>

lemma refl_sh_even: "\<not> bit c 0 \<Longrightarrow> refl_sh p c = drop_bit 1 c"
  by (simp add: refl_sh_def)

lemma refl_pow_drop: "take_bit k c = 0 \<Longrightarrow> (refl_sh p ^^ k) c = drop_bit k c"
proof (induction k)
  case (Suc k)
  have z: "\<not> bit c i" if "i < Suc k" for i
    using Suc.prems that by (metis bit_0_eq bit_take_bit_iff bot_apply bot_bool_def)
  have "take_bit k c = 0" by (rule bit_eqI) (simp add: bit_take_bit_iff z)
  then have "(refl_sh p ^^ Suc k) c = refl_sh p (drop_bit k c)" using Suc.IH by simp
  also have "\<dots> = drop_bit 1 (drop_bit k c)" by (rule refl_sh_even) (simp add: bit_drop_bit_eq z)
  finally show ?case by (simp add: drop_bit_drop_bit)
qed simp

lemma norm_pow_push:
  fixes c :: "'a::len word"
  shows "k \<le> LENGTH('a) \<Longrightarrow> drop_bit (LENGTH('a) - k) c = 0 \<Longrightarrow> (norm_sh p ^^ k) c = push_bit k c"
proof (induction k)
  case (Suc k)
  have z: "\<not> bit c i" if le: "LENGTH('a) - Suc k \<le> i" for i
  proof -
    obtain j where "i = LENGTH('a) - Suc k + j" using le_Suc_ex [OF le] by auto
    moreover have "\<not> bit (drop_bit (LENGTH('a) - Suc k) c) j" using Suc.prems(2) by simp
    ultimately show ?thesis by (simp only: bit_drop_bit_eq o_def) simp
  qed
  have "drop_bit (LENGTH('a) - k) c = 0" by (rule bit_eqI) (simp add: bit_drop_bit_eq z)
  then have "(norm_sh p ^^ Suc k) c = norm_sh p (push_bit k c)" using Suc by simp
  also have "\<dots> = push_bit 1 (push_bit k c)"
    using z [of "LENGTH('a) - 1 - k"] Suc.prems(1) by (simp add: norm_sh_def bit_push_bit_iff)
  finally show ?case by simp
qed simp

lemma put_zero [simp]: "refl_put k 0 = 0" "norm_put k 0 = 0"
  by (simp_all add: refl_put_def norm_put_def)

lemma refl_put_back:
  assumes "8 * k + 8 \<le> LENGTH('a::len)"
  shows "(refl_sh p ^^ (8 * k)) (refl_put k b :: 'a word) = refl_put 0 b"
proof -
  have "take_bit (8 * k) (refl_put k b :: 'a word) = 0"
    by (rule bit_eqI) (simp add: bit_take_bit_iff refl_put_bit)
  then have "(refl_sh p ^^ (8 * k)) (refl_put k b :: 'a word) = drop_bit (8 * k) (refl_put k b)"
    by (rule refl_pow_drop)
  also have "\<dots> = refl_put 0 b"
    using assms by (intro bit_word_eqI) (auto simp: bit_drop_bit_eq refl_put_bit dest: bit_imp_le_length)
  finally show ?thesis .
qed

lemma norm_put_back:
  assumes le: "8 * k + 8 \<le> LENGTH('a::len)"
  shows "(norm_sh p ^^ (8 * k)) (norm_put k b :: 'a word) = norm_put 0 b"
proof -
  have "drop_bit (LENGTH('a) - 8 * k) (norm_put k b :: 'a word) = 0"
    using le by (intro bit_word_eqI) (auto simp: bit_drop_bit_eq norm_put_bit dest: bit_imp_le_length)
  then have "(norm_sh p ^^ (8 * k)) (norm_put k b :: 'a word) = push_bit (8 * k) (norm_put k b)"
    using le by (intro norm_pow_push) auto
  also have "\<dots> = norm_put 0 b"
    using le by (simp add: norm_put_def)
  finally show ?thesis .
qed

lemma refl_put_all_bit: "bit (put_all refl_put i bs :: 'a::len word) j \<Longrightarrow> 8 * i \<le> j"
proof (induction bs arbitrary: i)
  case (Cons b bs)
  then show ?case using Cons.IH [of "Suc i"] by (auto simp: bit_xor_iff refl_put_bit)
qed simp

lemma refl_put_all_zero:
  "8 * (i + length bs) \<le> LENGTH('a::len) \<Longrightarrow> put_all refl_put i bs = (0 :: 'a word) \<Longrightarrow>
   b \<in> set bs \<Longrightarrow> b = 0"
proof (induction bs arbitrary: i)
  case (Cons a bs)
  have bits: "bit (refl_put i a :: 'a word) j = bit (put_all refl_put (Suc i) bs :: 'a word) j" for j
    using xor_zero_eq [OF Cons.prems(2) [unfolded put_all.simps]] by simp
  have "a = 0"
  proof (rule bit_word_eqI)
    fix j assume j: "j < LENGTH(8)"
    have "\<not> bit (put_all refl_put (Suc i) bs :: 'a word) (8 * i + j)"
      using refl_put_all_bit [of "Suc i" bs "8 * i + j"] j by auto
    then show "bit a j = bit 0 j" using bits [of "8 * i + j"] Cons.prems(1) j by (simp add: refl_put_bit)
  qed
  moreover from this have "put_all refl_put (Suc i) bs = (0 :: 'a word)"
    using Cons.prems(2) by simp
  ultimately show ?case using Cons.IH [of "Suc i"] Cons.prems by auto
qed simp

lemma norm_put_all_bit:
  "8 * (i + length bs) \<le> LENGTH('a::len) \<Longrightarrow> bit (put_all norm_put i bs :: 'a word) j \<Longrightarrow>
   j < LENGTH('a) - 8 * i"
proof (induction bs arbitrary: i)
  case (Cons b bs)
  have "j < LENGTH('a) - 8 * i" if "bit (norm_put i b :: 'a word) j"
  proof -
    have "bit b (j - (LENGTH('a) - 8 - 8 * i))" "LENGTH('a) - 8 - 8 * i \<le> j"
      using that Cons.prems(1) norm_put_bit [of i, where 'a = 'a] by auto
    then show ?thesis using bit_imp_le_length [of b] Cons.prems(1) by fastforce
  qed
  then show ?case using Cons.IH [of "Suc i"] Cons.prems by (auto simp: bit_xor_iff)
qed simp

lemma norm_put_all_zero:
  "8 * (i + length bs) \<le> LENGTH('a::len) \<Longrightarrow> put_all norm_put i bs = (0 :: 'a word) \<Longrightarrow>
   b \<in> set bs \<Longrightarrow> b = 0"
proof (induction bs arbitrary: i)
  case (Cons a bs)
  let ?s = "LENGTH('a) - 8 - 8 * i"
  have bits: "bit (norm_put i a :: 'a word) j = bit (put_all norm_put (Suc i) bs :: 'a word) j" for j
    using xor_zero_eq [OF Cons.prems(2) [unfolded put_all.simps]] by simp
  have "a = 0"
  proof (rule bit_word_eqI)
    fix j assume j: "j < LENGTH(8)"
    have "\<not> bit (put_all norm_put (Suc i) bs :: 'a word) (?s + j)"
      using norm_put_all_bit [of "Suc i" bs "?s + j", where 'a = 'a] Cons.prems(1) by auto
    then show "bit a j = bit 0 j"
      using bits [of "?s + j"] Cons.prems(1) j norm_put_bit [of i, where 'a = 'a] by auto
  qed
  moreover from this have "put_all norm_put (Suc i) bs = (0 :: 'a word)"
    using Cons.prems(2) by simp
  ultimately show ?case using Cons.IH [of "Suc i"] Cons.prems by auto
qed simp

text \<open>The registers of both bit orders keep the promises.\<close>

lemma refl_register:
  fixes p :: "'a::len word"
  assumes "bit p (LENGTH('a) - 1)"
  shows "crc_register (refl_sh p) refl_put (LENGTH('a) div 8)"
proof unfold_locales
  show "refl_sh p (x XOR y) = refl_sh p x XOR refl_sh p y" for x y by (rule refl_sh_xor)
  show "refl_sh p x = 0 \<Longrightarrow> x = 0" for x using assms by (rule refl_sh_zero)
  show "(refl_put k (a XOR b) :: 'a word) = refl_put k a XOR refl_put k b" for k a b by (rule refl_put_xor)
  show "(refl_sh p ^^ (8 * k)) (refl_put k b) = refl_put 0 b" if "k < LENGTH('a) div 8" for k b
    using that by (intro refl_put_back) auto
  show "b = 0" if "length bs \<le> LENGTH('a) div 8" "put_all refl_put 0 bs = (0 :: 'a word)" "b \<in> set bs" for bs b
    using that by (intro refl_put_all_zero [of 0 bs, where 'a = 'a]) auto
qed

lemma norm_register:
  fixes p :: "'a::len word"
  assumes "bit p 0"
  shows "crc_register (norm_sh p) norm_put (LENGTH('a) div 8)"
proof unfold_locales
  show "norm_sh p (x XOR y) = norm_sh p x XOR norm_sh p y" for x y by (rule norm_sh_xor)
  show "norm_sh p x = 0 \<Longrightarrow> x = 0" for x using assms by (rule norm_sh_zero)
  show "(norm_put k (a XOR b) :: 'a word) = norm_put k a XOR norm_put k b" for k a b by (rule norm_put_xor)
  show "(norm_sh p ^^ (8 * k)) (norm_put k b) = norm_put 0 b" if "k < LENGTH('a) div 8" for k b
    using that by (intro norm_put_back) auto
  show "b = 0" if "length bs \<le> LENGTH('a) div 8" "put_all norm_put 0 bs = (0 :: 'a word)" "b \<in> set bs" for bs b
    using that by (intro norm_put_all_zero [of 0 bs, where 'a = 'a]) auto
qed

section \<open>Tables\<close>

text \<open>The table of a linear function, built from its values at the powers of two.\<close>

primrec doubled :: "'a::len word list \<Rightarrow> 'a word list" where
  "doubled [] = [0]"
| "doubled (b # bs) = doubled bs @ map (\<lambda>x. x XOR b) (doubled bs)"

lemma of_nat_pow_xor:
  assumes "i < 2 ^ k" and "k < 8"
  shows "(of_nat (2 ^ k + i) :: u8) = of_nat i XOR 2 ^ k"
proof -
  have "\<not> bit (of_nat i :: u8) k" using assms by (simp only: bit_of_nat_iff) (simp add: bit_iff_odd [of i])
  then have "of_nat i AND (2 ^ k :: u8) = 0" by (simp add: and_exp_eq_0_iff_not_bit)
  then have "(of_nat i :: u8) + 2 ^ k = of_nat i XOR 2 ^ k" by (rule disjunctive_add_eq_xor)
  then show ?thesis by (simp add: add.commute)
qed

lemma doubled_table:
  fixes f :: "u8 \<Rightarrow> 'a::len word"
  assumes lin: "\<And>a b. f (a XOR b) = f a XOR f b" 
  shows "n \<le> 8 \<Longrightarrow> doubled (map (\<lambda>k. f (2 ^ k)) (rev [0..<n])) = map (\<lambda>i. f (of_nat i)) [0..<2 ^ n]"
proof (induction n)
  case 0
  have "f 0 = 0" using lin [of 0 0] by simp
  then show ?case by simp
next
  case (Suc n)
  have a: "map (\<lambda>i. f (of_nat (2 ^ n + i))) [0..<2 ^ n] = map (\<lambda>i. f (of_nat i) XOR f (2 ^ n)) [0..<2 ^ n]"
    using Suc.prems by (intro map_cong refl) (auto simp only: of_nat_pow_xor lin set_upt atLeastLessThan_iff)
  have b: "map (\<lambda>i. f (of_nat (2 ^ n + i))) [0..<2 ^ n] = map (\<lambda>i. f (of_nat i)) [2 ^ n..<2 ^ n + 2 ^ n]"
    by (simp add: map_add_upt [symmetric] comp_def add.commute)
  have c: "[0..<2 ^ Suc n] = [0..<2 ^ n] @ [2 ^ n..<(2 :: nat) ^ n + 2 ^ n]"
    using upt_add_eq_append [of 0 "2 ^ n" "2 ^ n"] by (simp add: mult_2)
  have "map (\<lambda>x. x XOR f (2 ^ n)) (map (\<lambda>i. f (of_nat i)) [0..<2 ^ n]) =
      map (\<lambda>i. f (of_nat i)) [2 ^ n..<2 ^ n + 2 ^ n]"
    using trans [OF a [symmetric] b] by (simp only: map_map comp_def)
  then show ?case using Suc unfolding c by simp
qed

definition table_of :: "('a::len word \<Rightarrow> 'a word) \<Rightarrow> (nat \<Rightarrow> u8 \<Rightarrow> 'a word) \<Rightarrow> 'a word list \<Rightarrow> bool" where
  "table_of sh put t \<longleftrightarrow> t = map (\<lambda>i. (sh ^^ 8) (put 0 (of_nat i))) [0..<256]"

lemma table_ofI:
  assumes "crc_register sh put n" and "t = doubled (rev bs)"
    and "bs = map (\<lambda>k. (sh ^^ 8) (put 0 (2 ^ k))) [0..<8]"
  shows "table_of sh put t"
proof -
  have lin: "(sh ^^ 8) (put 0 (a XOR b)) = (sh ^^ 8) (put 0 a) XOR (sh ^^ 8) (put 0 b)" for a b
    using crc_register.put_xor [OF assms(1)] crc_register.pow_xor [OF assms(1)] by simp
  have "doubled (rev bs) = map (\<lambda>i. (sh ^^ 8) (put 0 (of_nat i))) [0..<2 ^ 8]"
    using doubled_table [of "\<lambda>b. (sh ^^ 8) (put 0 b)" 8, OF lin order_refl] unfolding assms(3) rev_map [symmetric] .
  moreover have "(2 :: nat) ^ 8 = 256" by simp
  ultimately show ?thesis unfolding table_of_def assms(2) by metis
qed

lemma iterates_8:
  assumes "b0 = x" "b1 = f b0" "b2 = f b1" "b3 = f b2" "b4 = f b3" "b5 = f b4" "b6 = f b5" "b7 = f b6"
  shows "[b0, b1, b2, b3, b4, b5, b6, b7] = map (\<lambda>k. (f ^^ k) x) [0..<8]"
  using assms by (simp add: upt_rec eval_nat_numeral)

lemma refl_basis:
  fixes p :: "'a::len word"
  assumes "k < 8" and "8 \<le> LENGTH('a)"
  shows "(refl_sh p ^^ 8) (refl_put 0 (2 ^ k)) = (refl_sh p ^^ (7 - k)) p"
proof -
  let ?x = "refl_put 0 (2 ^ k) :: 'a word"
  have "take_bit k ?x = 0" by (rule bit_eqI) (auto simp: bit_take_bit_iff refl_put_bit bit_exp_iff)
  then have "(refl_sh p ^^ k) ?x = drop_bit k ?x" by (rule refl_pow_drop)
  also have "\<dots> = 1"
    using assms by (intro bit_word_eqI) (auto simp: bit_drop_bit_eq refl_put_bit bit_exp_iff bit_1_iff)
  finally have "(refl_sh p ^^ Suc k) ?x = p" by (simp add: refl_sh_def)
  moreover have "(8 :: nat) = (7 - k) + Suc k" using assms by simp
  ultimately show ?thesis by (metis comp_apply funpow_add)
qed

lemma norm_basis:
  fixes p :: "'a::len word"
  assumes "k < 8" and "8 \<le> LENGTH('a)"
  shows "(norm_sh p ^^ 8) (norm_put 0 (2 ^ k)) = (norm_sh p ^^ k) p"
proof -
  let ?x = "norm_put 0 (2 ^ k) :: 'a word"
  have x: "?x = 2 ^ (LENGTH('a) - 8 + k)"
    using assms by (intro bit_word_eqI) (auto simp: norm_put_bit bit_exp_iff)
  have "drop_bit (LENGTH('a) - (7 - k)) ?x = 0"
    unfolding x using assms by (intro bit_word_eqI) (auto simp: bit_drop_bit_eq bit_exp_iff)
  then have "(norm_sh p ^^ (7 - k)) ?x = push_bit (7 - k) ?x" using assms by (intro norm_pow_push) auto
  also have "\<dots> = 2 ^ (LENGTH('a) - 1)"
    unfolding x push_bit_eq_mult power_add [symmetric] using assms by (intro arg_cong [of _ _ "(^) 2"]) auto
  finally have "(norm_sh p ^^ (7 - k)) ?x = 2 ^ (LENGTH('a) - 1)" .
  moreover have "push_bit 1 (2 ^ (LENGTH('a) - 1)) = (0 :: 'a word)"
    by (rule bit_word_eqI) (auto simp only: bit_push_bit_iff bit_exp_iff bit_0_eq bot_apply, auto)
  ultimately have "(norm_sh p ^^ Suc (7 - k)) ?x = p"
    by (simp only: funpow.simps o_apply norm_sh_def) (simp add: bit_exp_iff)
  moreover have "(8 :: nat) = k + Suc (7 - k)" using assms by simp
  ultimately show ?thesis by (metis comp_apply funpow_add)
qed

lemma refl_tableI:
  fixes p :: "'a::len word"
  assumes "bit p (LENGTH('a) - 1)" and "8 \<le> LENGTH('a)"
    and "t = doubled bs" and "bs = map (\<lambda>k. (refl_sh p ^^ k) p) [0..<8]"
  shows "table_of (refl_sh p) refl_put t"
proof (rule table_ofI [OF refl_register [OF assms(1)]])
  show "t = doubled (rev (rev bs))" using assms(3) by simp
  have "rev [0..<8] = map (\<lambda>k. 7 - k) [0..<8]" by (simp add: upt_rec)
  then have "rev bs = map (\<lambda>k. (refl_sh p ^^ (7 - k)) p) [0..<8]"
    unfolding assms(4) rev_map by (simp add: comp_def)
  also have "\<dots> = map (\<lambda>k. (refl_sh p ^^ 8) (refl_put 0 (2 ^ k))) [0..<8]"
    using refl_basis [OF _ assms(2)] by simp
  finally show "rev bs = map (\<lambda>k. (refl_sh p ^^ 8) (refl_put 0 (2 ^ k))) [0..<8]" .
qed

lemma norm_tableI:
  fixes p :: "'a::len word"
  assumes "bit p 0" and "8 \<le> LENGTH('a)"
    and "t = doubled (rev bs)" and "bs = map (\<lambda>k. (norm_sh p ^^ k) p) [0..<8]"
  shows "table_of (norm_sh p) norm_put t"
proof (rule table_ofI [OF norm_register [OF assms(1)] assms(3)])
  show "bs = map (\<lambda>k. (norm_sh p ^^ 8) (norm_put 0 (2 ^ k))) [0..<8]"
    unfolding assms(4) using norm_basis [OF _ assms(2), of _ p] by simp
qed

lemma table_nth: "table_of sh put t \<Longrightarrow> t ! unat (b :: u8) = (sh ^^ 8) (put 0 b)"
  using unsigned_less [of b, where 'a = nat] by (simp add: table_of_def)

lemma unat_ucast_byte: "8 \<le> LENGTH('a) \<Longrightarrow> unat (ucast (b :: u8) :: 'a::len word) = unat b"
  using unsigned_less [of b, where 'a = nat] power_increasing [of 8 "LENGTH('a)" "2 :: nat"]
  by (simp add: unsigned_ucast_eq take_bit_nat_eq_self_iff)

lemma and_FF: "(c :: 'a::len word) AND 0xFF = take_bit 8 c"
  by (simp add: take_bit_eq_mask mask_eq_exp_minus_1)

lemma refl_pow_xor: "(refl_sh p ^^ k) (x XOR y) = (refl_sh p ^^ k) x XOR (refl_sh p ^^ k) y"
  by (induction k) (simp_all add: refl_sh_xor)

lemma norm_pow_xor: "(norm_sh p ^^ k) (x XOR y) = (norm_sh p ^^ k) x XOR (norm_sh p ^^ k) y"
  by (induction k) (simp_all add: norm_sh_xor)

lemma refl_table_step:
  fixes c :: "'a::len word"
  assumes "table_of (refl_sh p) refl_put t" and "8 \<le> LENGTH('a)"
  shows "drop_bit 8 c XOR t ! unat ((c AND 0xFF) XOR ucast b) = crc_byte (refl_sh p) refl_put c b"
proof -
  let ?x = "c XOR ucast b" and ?h = "push_bit 8 (drop_bit 8 c)"
  have split: "?x = ?h XOR refl_put 0 (ucast ?x)"
    using assms(2) by (intro bit_word_eqI) (auto simp: refl_put_def bit_simps dest: bit_imp_le_length)
  have "take_bit 8 ?h = 0" by (rule bit_eqI) (auto simp: bit_simps)
  then have h: "(refl_sh p ^^ 8) ?h = drop_bit 8 ?h" by (rule refl_pow_drop)
  also have "\<dots> = drop_bit 8 c"
    by (rule bit_word_eqI) (auto simp: bit_simps dest: bit_imp_le_length)
  finally have h: "(refl_sh p ^^ 8) ?h = drop_bit 8 c" .
  have "(c AND 0xFF) XOR ucast b = ucast (ucast ?x :: u8)"
    unfolding and_FF by (intro bit_word_eqI) (auto simp: bit_simps dest: bit_imp_le_length)
  then have "unat ((c AND 0xFF) XOR ucast b) = unat (ucast ?x :: u8)"
    using assms(2) by (simp only: unat_ucast_byte)
  then have "t ! unat ((c AND 0xFF) XOR ucast b) = (refl_sh p ^^ 8) (refl_put 0 (ucast ?x))"
    using table_nth [OF assms(1)] by simp
  moreover have "(refl_sh p ^^ 8) ?x = drop_bit 8 c XOR (refl_sh p ^^ 8) (refl_put 0 (ucast ?x))"
    using arg_cong [OF split, of "refl_sh p ^^ 8"] unfolding refl_pow_xor h .
  ultimately show ?thesis by (simp add: crc_byte_def refl_put_def)
qed

lemma norm_table_step:
  fixes c :: "'a::len word"
  assumes "table_of (norm_sh p) norm_put t" and "8 \<le> LENGTH('a)"
  shows "t ! unat ((drop_bit (LENGTH('a) - 8) c XOR ucast b) AND 0xFF) XOR push_bit 8 c =
    crc_byte (norm_sh p) norm_put c b"
proof -
  let ?y = "drop_bit (LENGTH('a) - 8) c XOR ucast b :: 'a word"
  let ?x = "c XOR norm_put 0 b" and ?l = "take_bit (LENGTH('a) - 8) c"
  have split: "?x = norm_put 0 (ucast ?y) XOR ?l"
    using assms(2) by (intro bit_word_eqI) (auto simp: norm_put_def bit_simps dest: bit_imp_le_length)
  have "drop_bit (LENGTH('a) - 8) ?l = 0" by (rule bit_eqI) (auto simp: bit_simps)
  then have "(norm_sh p ^^ 8) ?l = push_bit 8 ?l" using assms(2) by (intro norm_pow_push) auto
  also have "\<dots> = push_bit 8 c"
    using assms(2) by (intro bit_word_eqI) (auto simp: bit_simps)
  finally have l: "(norm_sh p ^^ 8) ?l = push_bit 8 c" .
  have "?y AND 0xFF = ucast (ucast ?y :: u8)"
    unfolding and_FF by (intro bit_word_eqI) (auto simp: bit_simps dest: bit_imp_le_length)
  then have "unat (?y AND 0xFF) = unat (ucast ?y :: u8)"
    using assms(2) by (simp only: unat_ucast_byte)
  then have "t ! unat (?y AND 0xFF) = (norm_sh p ^^ 8) (norm_put 0 (ucast ?y))"
    using table_nth [OF assms(1)] by simp
  moreover have "(norm_sh p ^^ 8) ?x = (norm_sh p ^^ 8) (norm_put 0 (ucast ?y)) XOR push_bit 8 c"
    using arg_cong [OF split, of "norm_sh p ^^ 8"] unfolding norm_pow_xor l .
  ultimately show ?thesis by (simp add: crc_byte_def)
qed

end
