(* ===== verification/Adf_Pfvf.thy ===== *)
theory Adf_Pfvf
  imports Qat_Crc
begin

text \<open>
  The message protocol between a virtual function and its physical function
  (\<open>vfio/adf_pfvf_proto.c\<close>, \<open>adf_pfvf_msg.h\<close>).  The registers both sides share are reached through a
  bus: reading gives a value and a new state of the bus, so the physical function may act between
  any two accesses.  Bit fields are words of their width.  Waiting is not modelled; the bounded
  retries are.  A write outside the buffer of a block message gives \<open>None\<close>.
\<close>

section \<open>Messages and registers\<close>

record pfvf_message =
  msg_data :: "24 word"
  msg_type :: u8

record adf_pfvf_dev_data =
  pmiscbar_addr :: u64
  dev_id :: u32
  local_csr_offset :: u32
  remote_csr_offset :: u32
  type_shift :: u32
  data_shift :: u32
  type_mask :: u32
  data_mask :: u32
  pfvf_initialized :: u8
  compat_version :: u32
  frequency :: u32
  ext_dc_caps :: u32
  capabilities :: u32
  ring_to_svc_map :: u32

record 's csr_bus =
  csr_rd :: "'s \<Rightarrow> u32 \<Rightarrow> u32 \<times> 's"
  csr_wr :: "'s \<Rightarrow> u32 \<Rightarrow> u32 \<Rightarrow> 's"

abbreviation EFAULT :: int where "EFAULT \<equiv> 14"
abbreviation ADF_PFVF_INT :: u32 where "ADF_PFVF_INT \<equiv> 1"
abbreviation ADF_PFVF_MSGORIGIN_SYSTEM :: u32 where "ADF_PFVF_MSGORIGIN_SYSTEM \<equiv> 2"
abbreviation ADF_PFVF_MSG_ACK_MAX_RETRIES :: nat where "ADF_PFVF_MSG_ACK_MAX_RETRIES \<equiv> 500"
abbreviation ADF_PFVF_MSG_RESP_RETRIES :: nat where "ADF_PFVF_MSG_RESP_RETRIES \<equiv> 5"

definition zero_dev_data :: adf_pfvf_dev_data where
  "zero_dev_data = \<lparr>pmiscbar_addr = 0, dev_id = 0, local_csr_offset = 0, remote_csr_offset = 0,
     type_shift = 0, data_shift = 0, type_mask = 0, data_mask = 0, pfvf_initialized = 0,
     compat_version = 0, frequency = 0, ext_dc_caps = 0, capabilities = 0, ring_to_svc_map = 0\<rparr>"

definition adf_init_pfvf_dev_data :: "u64 \<Rightarrow> u32 \<Rightarrow> adf_pfvf_dev_data" where
  "adf_init_pfvf_dev_data addr devid =
     (if addr = 0 then zero_dev_data
      else zero_dev_data\<lparr>pmiscbar_addr := addr, dev_id := devid, local_csr_offset := 0x100C,
             remote_csr_offset := 0x1008, type_shift := 2, data_shift := 8, type_mask := 0x3F,
             data_mask := 0xFFFFFF\<rparr>)"

section \<open>Sending and receiving\<close>

text \<open>Whether the acknowledgement timed out.\<close>

fun ack_loop :: "'s csr_bus \<Rightarrow> adf_pfvf_dev_data \<Rightarrow> u32 \<Rightarrow> nat \<Rightarrow> 's \<Rightarrow> bool \<times> 's" where
  "ack_loop bus dev int_bit 0 s = (True, s)"
| "ack_loop bus dev int_bit (Suc n) s =
     (let (val, s') = csr_rd bus s (local_csr_offset dev)
      in if val AND int_bit = 0 then (False, s') else ack_loop bus dev int_bit n s')"

definition adf_pfvf_msg_ack_timed_out :: "'s csr_bus \<Rightarrow> adf_pfvf_dev_data \<Rightarrow> u32 \<Rightarrow> 's \<Rightarrow> bool \<times> 's" where
  "adf_pfvf_msg_ack_timed_out bus dev int_bit s = ack_loop bus dev int_bit ADF_PFVF_MSG_ACK_MAX_RETRIES s"

definition raw_message :: "adf_pfvf_dev_data \<Rightarrow> pfvf_message \<Rightarrow> u32" where
  "raw_message dev msg =
     push_bit (unat (type_shift dev)) (ucast (msg_type msg)) OR
     push_bit (unat (data_shift dev)) (ucast (msg_data msg)) OR
     (ADF_PFVF_INT OR ADF_PFVF_MSGORIGIN_SYSTEM)"

definition adf_pfvf_gen4_send :: "'s csr_bus \<Rightarrow> adf_pfvf_dev_data \<Rightarrow> pfvf_message \<Rightarrow> 's \<Rightarrow> int \<times> 's" where
  "adf_pfvf_gen4_send bus dev msg s =
     (let s1 = csr_wr bus s (local_csr_offset dev) (raw_message dev msg);
          (timed_out, s2) = adf_pfvf_msg_ack_timed_out bus dev ADF_PFVF_INT s1
      in if timed_out then (- EIO, s2) else (0, s2))"

definition adf_send_vf2pf_msg :: "'s csr_bus \<Rightarrow> adf_pfvf_dev_data option \<Rightarrow> pfvf_message \<Rightarrow> 's \<Rightarrow> int \<times> 's" where
  "adf_send_vf2pf_msg bus dev msg s =
     (case dev of
        None \<Rightarrow> (- EINVAL, s)
      | Some d \<Rightarrow>
          if ucast (msg_type msg) AND type_mask d \<noteq> ucast (msg_type msg) then (- EINVAL, s)
          else if ucast (msg_data msg) AND data_mask d \<noteq> ucast (msg_data msg) then (- EINVAL, s)
          else adf_pfvf_gen4_send bus d msg s)"

definition adf_pfvf_gen4_recv :: "'s csr_bus \<Rightarrow> adf_pfvf_dev_data option \<Rightarrow> 's \<Rightarrow> pfvf_message \<times> 's" where
  "adf_pfvf_gen4_recv bus dev s =
     (case dev of
        None \<Rightarrow> (\<lparr>msg_data = 0, msg_type = 0\<rparr>, s)
      | Some d \<Rightarrow>
          let (val, s1) = csr_rd bus s (remote_csr_offset d)
          in if val AND ADF_PFVF_INT \<noteq> 0
             then (\<lparr>msg_data = ucast (drop_bit (unat (data_shift d)) val AND data_mask d),
                    msg_type = ucast (drop_bit (unat (type_shift d)) val AND type_mask d)\<rparr>,
                   csr_wr bus s1 (remote_csr_offset d) (val AND NOT ADF_PFVF_INT))
             else (\<lparr>msg_data = 0, msg_type = 0\<rparr>, s1))"

definition adf_recv_pf2vf_msg :: "'s csr_bus \<Rightarrow> adf_pfvf_dev_data option \<Rightarrow> 's \<Rightarrow> pfvf_message \<times> 's" where
  "adf_recv_pf2vf_msg = adf_pfvf_gen4_recv"

text \<open>The loop of a request, with the retries left; the response is stored if one was read.\<close>

fun req_loop ::
  "'s csr_bus \<Rightarrow> adf_pfvf_dev_data \<Rightarrow> pfvf_message \<Rightarrow> nat \<Rightarrow> 's \<Rightarrow> int \<times> pfvf_message option \<times> 's" where
  "req_loop bus dev req n s =
     (let (err, s1) = adf_send_vf2pf_msg bus (Some dev) req s
      in if err \<noteq> 0 then (err, None, s1)
         else let (resp, s2) = adf_recv_pf2vf_msg bus (Some dev) s1
              in if msg_type resp \<noteq> 0 then (0, Some resp, s2)
                 else case n of 0 \<Rightarrow> (- EIO, Some resp, s2) | Suc m \<Rightarrow> req_loop bus dev req m s2)"

declare req_loop.simps [simp del]

definition adf_send_vf2pf_req ::
  "'s csr_bus \<Rightarrow> adf_pfvf_dev_data option \<Rightarrow> pfvf_message \<Rightarrow> 's \<Rightarrow> int \<times> pfvf_message option \<times> 's" where
  "adf_send_vf2pf_req bus dev req s =
     (case dev of
        None \<Rightarrow> (CPA_STATUS_INVALID_PARAM, None, s)
      | Some d \<Rightarrow> req_loop bus d req ADF_PFVF_MSG_RESP_RETRIES s)"

section \<open>Block messages\<close>

definition blkmsg_req_small :: "u8 \<Rightarrow> u8 \<Rightarrow> bool \<Rightarrow> pfvf_message" where
  "blkmsg_req_small blk_type byte_num crc =
     \<lparr>msg_data = ucast (ucast blk_type :: 4 word) OR push_bit 4 (ucast (ucast byte_num :: 5 word)) OR
        push_bit 9 (of_bool crc), msg_type = 0x09\<rparr>"

definition blkmsg_req_medium :: "u8 \<Rightarrow> u8 \<Rightarrow> bool \<Rightarrow> pfvf_message" where
  "blkmsg_req_medium blk_type byte_num crc =
     \<lparr>msg_data = ucast (ucast blk_type :: 3 word) OR push_bit 3 (ucast (ucast byte_num :: 6 word)) OR
        push_bit 9 (of_bool crc), msg_type = 0x08\<rparr>"

definition blkmsg_req_large :: "u8 \<Rightarrow> u8 \<Rightarrow> bool \<Rightarrow> pfvf_message" where
  "blkmsg_req_large blk_type byte_num crc =
     \<lparr>msg_data = ucast (ucast blk_type :: 2 word) OR push_bit 2 (ucast (ucast byte_num :: 7 word)) OR
        push_bit 9 (of_bool crc), msg_type = 0x07\<rparr>"

definition blk_resp :: "pfvf_message \<Rightarrow> 2 word" where
  "blk_resp m = ucast (msg_data m)"

definition blk_data :: "pfvf_message \<Rightarrow> u8" where
  "blk_data m = ucast (drop_bit 2 (msg_data m))"

abbreviation ADF_VF2PF_MAX_SMALL_MESSAGE_TYPE :: u8 where "ADF_VF2PF_MAX_SMALL_MESSAGE_TYPE \<equiv> 15"
abbreviation ADF_VF2PF_MIN_MEDIUM_MESSAGE_TYPE :: u8 where "ADF_VF2PF_MIN_MEDIUM_MESSAGE_TYPE \<equiv> 16"
abbreviation ADF_VF2PF_MAX_MEDIUM_MESSAGE_TYPE :: u8 where "ADF_VF2PF_MAX_MEDIUM_MESSAGE_TYPE \<equiv> 23"
abbreviation ADF_VF2PF_MIN_LARGE_MESSAGE_TYPE :: u8 where "ADF_VF2PF_MIN_LARGE_MESSAGE_TYPE \<equiv> 24"
abbreviation ADF_VF2PF_MAX_LARGE_MESSAGE_TYPE :: u8 where "ADF_VF2PF_MAX_LARGE_MESSAGE_TYPE \<equiv> 27"
abbreviation PFVF_BLKMSG_HEADER_SIZE :: nat where "PFVF_BLKMSG_HEADER_SIZE \<equiv> 2"

text \<open>The request and the largest payload of its kind.\<close>

definition blkmsg_req :: "u8 \<Rightarrow> u8 \<Rightarrow> bool \<Rightarrow> (pfvf_message \<times> nat) option" where
  "blkmsg_req ty byte is_crc =
     (if ty \<le> ADF_VF2PF_MAX_SMALL_MESSAGE_TYPE then Some (blkmsg_req_small ty byte is_crc, 30)
      else if ty \<le> ADF_VF2PF_MAX_MEDIUM_MESSAGE_TYPE
      then Some (blkmsg_req_medium (ty - ADF_VF2PF_MIN_MEDIUM_MESSAGE_TYPE) byte is_crc, 62)
      else if ty \<le> ADF_VF2PF_MAX_LARGE_MESSAGE_TYPE
      then Some (blkmsg_req_large (ty - ADF_VF2PF_MIN_LARGE_MESSAGE_TYPE) byte is_crc, 126)
      else None)"

definition adf_vf2pf_blkmsg_data_req ::
  "'s csr_bus \<Rightarrow> adf_pfvf_dev_data option \<Rightarrow> u8 \<Rightarrow> u8 \<Rightarrow> bool \<Rightarrow> 's \<Rightarrow> int \<times> u8 option \<times> 's" where
  "adf_vf2pf_blkmsg_data_req bus dev ty byte is_crc s =
     (case dev of
        None \<Rightarrow> (CPA_STATUS_INVALID_PARAM, None, s)
      | Some d \<Rightarrow>
          (case blkmsg_req ty byte is_crc of
             None \<Rightarrow> (- EINVAL, None, s)
           | Some (req, max_payload_size) \<Rightarrow>
               if unat byte \<ge> max_payload_size + PFVF_BLKMSG_HEADER_SIZE then (- EINVAL, None, s)
               else
                 let (err, resp, s1) = adf_send_vf2pf_req bus dev req s
                 in if err \<noteq> 0 then (err, None, s1)
                    else case resp of
                           None \<Rightarrow> (err, None, s1)
                         | Some m \<Rightarrow>
                             if blk_resp m = 2 then (- EIO, None, s1) else (0, Some (blk_data m), s1)))"

definition adf_vf2pf_blkmsg_get_byte ::
  "'s csr_bus \<Rightarrow> adf_pfvf_dev_data option \<Rightarrow> u8 \<Rightarrow> u8 \<Rightarrow> 's \<Rightarrow> int \<times> u8 option \<times> 's" where
  "adf_vf2pf_blkmsg_get_byte bus dev ty index s = adf_vf2pf_blkmsg_data_req bus dev ty index False s"

definition adf_vf2pf_blkmsg_get_crc ::
  "'s csr_bus \<Rightarrow> adf_pfvf_dev_data option \<Rightarrow> u8 \<Rightarrow> u8 \<Rightarrow> 's \<Rightarrow> int \<times> u8 option \<times> 's" where
  "adf_vf2pf_blkmsg_get_crc bus dev ty bytes s = adf_vf2pf_blkmsg_data_req bus dev ty (bytes - 1) True s"

definition pfvf_crc8_table :: "u8 list" where
  "pfvf_crc8_table = [
   0x00, 0x97, 0xB9, 0x2E, 0xE5, 0x72, 0x5C, 0xCB, 0x5D, 0xCA, 0xE4, 0x73,
   0xB8, 0x2F, 0x01, 0x96, 0xBA, 0x2D, 0x03, 0x94, 0x5F, 0xC8, 0xE6, 0x71,
   0xE7, 0x70, 0x5E, 0xC9, 0x02, 0x95, 0xBB, 0x2C, 0xE3, 0x74, 0x5A, 0xCD,
   0x06, 0x91, 0xBF, 0x28, 0xBE, 0x29, 0x07, 0x90, 0x5B, 0xCC, 0xE2, 0x75,
   0x59, 0xCE, 0xE0, 0x77, 0xBC, 0x2B, 0x05, 0x92, 0x04, 0x93, 0xBD, 0x2A,
   0xE1, 0x76, 0x58, 0xCF, 0x51, 0xC6, 0xE8, 0x7F, 0xB4, 0x23, 0x0D, 0x9A,
   0x0C, 0x9B, 0xB5, 0x22, 0xE9, 0x7E, 0x50, 0xC7, 0xEB, 0x7C, 0x52, 0xC5,
   0x0E, 0x99, 0xB7, 0x20, 0xB6, 0x21, 0x0F, 0x98, 0x53, 0xC4, 0xEA, 0x7D,
   0xB2, 0x25, 0x0B, 0x9C, 0x57, 0xC0, 0xEE, 0x79, 0xEF, 0x78, 0x56, 0xC1,
   0x0A, 0x9D, 0xB3, 0x24, 0x08, 0x9F, 0xB1, 0x26, 0xED, 0x7A, 0x54, 0xC3,
   0x55, 0xC2, 0xEC, 0x7B, 0xB0, 0x27, 0x09, 0x9E, 0xA2, 0x35, 0x1B, 0x8C,
   0x47, 0xD0, 0xFE, 0x69, 0xFF, 0x68, 0x46, 0xD1, 0x1A, 0x8D, 0xA3, 0x34,
   0x18, 0x8F, 0xA1, 0x36, 0xFD, 0x6A, 0x44, 0xD3, 0x45, 0xD2, 0xFC, 0x6B,
   0xA0, 0x37, 0x19, 0x8E, 0x41, 0xD6, 0xF8, 0x6F, 0xA4, 0x33, 0x1D, 0x8A,
   0x1C, 0x8B, 0xA5, 0x32, 0xF9, 0x6E, 0x40, 0xD7, 0xFB, 0x6C, 0x42, 0xD5,
   0x1E, 0x89, 0xA7, 0x30, 0xA6, 0x31, 0x1F, 0x88, 0x43, 0xD4, 0xFA, 0x6D,
   0xF3, 0x64, 0x4A, 0xDD, 0x16, 0x81, 0xAF, 0x38, 0xAE, 0x39, 0x17, 0x80,
   0x4B, 0xDC, 0xF2, 0x65, 0x49, 0xDE, 0xF0, 0x67, 0xAC, 0x3B, 0x15, 0x82,
   0x14, 0x83, 0xAD, 0x3A, 0xF1, 0x66, 0x48, 0xDF, 0x10, 0x87, 0xA9, 0x3E,
   0xF5, 0x62, 0x4C, 0xDB, 0x4D, 0xDA, 0xF4, 0x63, 0xA8, 0x3F, 0x11, 0x86,
   0xAA, 0x3D, 0x13, 0x84, 0x4F, 0xD8, 0xF6, 0x61, 0xF7, 0x60, 0x4E, 0xD9,
   0x12, 0x85, 0xAB, 0x3C]"

fun crc8_loop :: "u8 \<Rightarrow> u8 list \<Rightarrow> nat \<Rightarrow> u8 option" where
  "crc8_loop crc buf 0 = Some crc"
| "crc8_loop crc [] (Suc len) = None"
| "crc8_loop crc (b # buf) (Suc len) = crc8_loop (pfvf_crc8_table ! unat ((crc XOR b) AND 0xFF)) buf len"

definition adf_pfvf_crc :: "u8 \<Rightarrow> u8 list \<Rightarrow> u8 \<Rightarrow> u8 option" where
  "adf_pfvf_crc start_crc buf len = crc8_loop start_crc buf (unat len)"

definition adf_pfvf_calc_blkmsg_crc :: "u8 list \<Rightarrow> u8 \<Rightarrow> u8 option" where
  "adf_pfvf_calc_blkmsg_crc buf buf_len = adf_pfvf_crc 0xFF buf buf_len"

text \<open>
  Fetch a byte into the buffer.  The result of a block request is the return code, the buffer, the
  length and the state of the bus.
\<close>

definition fetch_byte ::
  "'s csr_bus \<Rightarrow> adf_pfvf_dev_data option \<Rightarrow> u8 \<Rightarrow> nat \<Rightarrow> u8 list \<Rightarrow> 's \<Rightarrow> (int \<times> u8 list \<times> 's) option" where
  "fetch_byte bus dev ty i buf s =
     (if i < length buf
      then let (ret, v, s1) = adf_vf2pf_blkmsg_get_byte bus dev ty (of_nat i) s
           in Some (ret, case v of None \<Rightarrow> buf | Some b \<Rightarrow> buf[i := b], s1)
      else None)"

text \<open>The payload loop, with the number of bytes left.\<close>

fun payload_loop ::
  "'s csr_bus \<Rightarrow> adf_pfvf_dev_data option \<Rightarrow> u8 \<Rightarrow> nat \<Rightarrow> nat \<Rightarrow> u8 list \<Rightarrow> 's \<Rightarrow> (int \<times> u8 list \<times> 's) option" where
  "payload_loop bus dev ty 0 index buf s = Some (0, buf, s)"
| "payload_loop bus dev ty (Suc n) index buf s =
     (case fetch_byte bus dev ty index buf s of
        None \<Rightarrow> None
      | Some (ret, buf1, s1) \<Rightarrow>
          if ret \<noteq> 0 then Some (ret, buf1, s1) else payload_loop bus dev ty n (Suc index) buf1 s1)"

text \<open>The part of a block request after its header has been fetched.\<close>

definition blkmsg_payload ::
  "'s csr_bus \<Rightarrow> adf_pfvf_dev_data option \<Rightarrow> u8 \<Rightarrow> u8 list \<Rightarrow> u16 \<Rightarrow> 's \<Rightarrow> (int \<times> u8 list \<times> u16 \<times> 's) option" where
  "blkmsg_payload bus dev ty buffer buffer_len s =
     (let full = 2 + ucast (buffer ! 1) :: u16;
          msg_len = (if buffer_len < full then buffer_len else full)
      in case payload_loop bus dev ty (unat msg_len - PFVF_BLKMSG_HEADER_SIZE) PFVF_BLKMSG_HEADER_SIZE buffer s of
           None \<Rightarrow> None
         | Some (ret, buf, s1) \<Rightarrow>
             if ret \<noteq> 0 then Some (ret, buf, buffer_len, s1)
             else let (ret, remote_crc, s2) = adf_vf2pf_blkmsg_get_crc bus dev ty (ucast msg_len) s1
                  in if ret \<noteq> 0 then Some (ret, buf, buffer_len, s2)
                     else case adf_pfvf_calc_blkmsg_crc buf (ucast msg_len) of
                            None \<Rightarrow> None
                          | Some local_crc \<Rightarrow>
                              if Some local_crc \<noteq> remote_crc then Some (- EIO, buf, buffer_len, s2)
                              else Some (0, buf, msg_len, s2))"

definition adf_send_vf2pf_blkmsg_req ::
  "'s csr_bus \<Rightarrow> adf_pfvf_dev_data option \<Rightarrow> u8 \<Rightarrow> u8 list \<Rightarrow> u16 \<Rightarrow> 's \<Rightarrow> (int \<times> u8 list \<times> u16 \<times> 's) option" where
  "adf_send_vf2pf_blkmsg_req bus dev ty buffer buffer_len s =
     (if dev = None then Some (CPA_STATUS_INVALID_PARAM, buffer, buffer_len, s)
      else if ty > ADF_VF2PF_MAX_LARGE_MESSAGE_TYPE then Some (- EINVAL, buffer, buffer_len, s)
      else if unat buffer_len < PFVF_BLKMSG_HEADER_SIZE then Some (- EINVAL, buffer, buffer_len, s)
      else case fetch_byte bus dev ty 0 buffer s of
             None \<Rightarrow> None
           | Some (ret, buf1, s1) \<Rightarrow>
               if ret \<noteq> 0 then Some (ret, buf1, buffer_len, s1)
               else if buf1 ! 0 = 0 then Some (- EFAULT, buf1, buffer_len, s1)
               else case fetch_byte bus dev ty 1 buf1 s1 of
                      None \<Rightarrow> None
                    | Some (ret, buf2, s2) \<Rightarrow>
                        if ret \<noteq> 0 then Some (ret, buf2, buffer_len, s2)
                        else if buf2 ! 1 = 0 then Some (- EFAULT, buf2, buffer_len, s2)
                        else blkmsg_payload bus dev ty buf2 buffer_len s2)"

section \<open>The checksum of block messages\<close>

abbreviation crc8_sh :: "u8 \<Rightarrow> u8" where "crc8_sh \<equiv> norm_sh 0x97"

interpretation crc8: crc_register crc8_sh norm_put 1
  using norm_register [of "0x97 :: u8"] by simp

lemma crc8_table: "table_of crc8_sh norm_put pfvf_crc8_table"
proof (rule norm_tableI)
  show "pfvf_crc8_table = doubled (rev [0x97, 0xB9, 0xE5, 0x5D, 0xBA, 0xE3, 0x51, 0xA2])"
    by (simp add: pfvf_crc8_table_def)
  show "[0x97, 0xB9, 0xE5, 0x5D, 0xBA, 0xE3, 0x51, 0xA2] = map (\<lambda>k. (crc8_sh ^^ k) 0x97) [0..<8]"
    by (rule iterates_8; simp add: norm_sh_def)
qed simp_all

lemma crc8_loop_eq:
  "len \<le> length buf \<Longrightarrow> crc8_loop crc buf len = Some (crc_run crc8_sh norm_put crc (take len buf))"
proof (induction crc buf len rule: crc8_loop.induct)
  case (3 crc b buf len)
  have "push_bit 8 crc = 0" by (rule bit_word_eqI) (simp only: bit_push_bit_iff, simp)
  then have "pfvf_crc8_table ! unat ((crc XOR b) AND 0xFF) = crc_byte crc8_sh norm_put crc b"
    using norm_table_step [OF crc8_table, of crc b] by simp
  then show ?case using 3 by simp
qed simp_all

section \<open>Encoding\<close>

lemma init_dev_fields:
  assumes "addr \<noteq> 0"
  shows "local_csr_offset (adf_init_pfvf_dev_data addr n) = 0x100C"
    "remote_csr_offset (adf_init_pfvf_dev_data addr n) = 0x1008"
    "type_shift (adf_init_pfvf_dev_data addr n) = 2" "data_shift (adf_init_pfvf_dev_data addr n) = 8"
    "type_mask (adf_init_pfvf_dev_data addr n) = 0x3F" "data_mask (adf_init_pfvf_dev_data addr n) = 0xFFFFFF"
  using assms by (simp_all add: adf_init_pfvf_dev_data_def)

text \<open>The layout of the registers of the fourth generation, which \<open>adf_init_pfvf_dev_data\<close> sets.\<close>

definition gen4_layout :: "adf_pfvf_dev_data \<Rightarrow> bool" where
  "gen4_layout d \<longleftrightarrow> type_shift d = 2 \<and> data_shift d = 8 \<and> type_mask d = 0x3F \<and> data_mask d = 0xFFFFFF"

lemma mask_lits: "(0x3F :: u32) = mask 6" "(0xFFFFFF :: u32) = mask 24" "(1 OR 2 :: u32) = mask 2"
  by (simp_all add: mask_eq_exp_minus_1)

lemma raw_bits:
  assumes "gen4_layout d"
  shows "bit (raw_message d m) i \<longleftrightarrow> i < 2 \<or> 2 \<le> i \<and> i < 10 \<and> bit (msg_type m) (i - 2) \<or>
    8 \<le> i \<and> i < 32 \<and> bit (msg_data m) (i - 8)"
proof -
  have "raw_message d m = push_bit 2 (ucast (msg_type m)) OR push_bit 8 (ucast (msg_data m)) OR mask 2"
    using assms unfolding raw_message_def mask_lits by (simp add: gen4_layout_def)
  moreover have "bit (msg_type m) j \<Longrightarrow> j < 8" "bit (msg_data m) j \<Longrightarrow> j < 24" for j
    using bit_imp_le_length [of "msg_type m" j] bit_imp_le_length [of "msg_data m" j] by auto
  ultimately show ?thesis
    by (simp only: bit_or_iff bit_push_bit_iff bit_mask_iff bit_ucast_iff) fastforce
qed

lemma type_bits:
  assumes "unat (t :: u8) < 64"
  shows "bit t j \<Longrightarrow> j < 6"
proof -
  have "take_bit 6 t = t" using assms by (simp add: take_bit_eq_mod word_mod_less_divisor word_less_nat_alt unat_arith_simps word_unat_eq_iff unat_mod)
  then show "bit t j \<Longrightarrow> j < 6" by (metis bit_take_bit_iff)
qed

lemma raw_decode:
  assumes d: "gen4_layout d" and t: "unat (msg_type m) < 64"
  shows "ucast (drop_bit 2 (raw_message d m) AND type_mask d) = msg_type m"
    and "ucast (drop_bit 8 (raw_message d m) AND data_mask d) = msg_data m"
    and "raw_message d m AND 1 \<noteq> 0"
proof -
  show "ucast (drop_bit 2 (raw_message d m) AND type_mask d) = msg_type m"
  proof (rule bit_word_eqI)
    fix j assume "j < LENGTH(8)"
    then show "bit (ucast (drop_bit 2 (raw_message d m) AND type_mask d) :: u8) j = bit (msg_type m) j"
      using d type_bits [OF t, of j]
      by (auto simp: gen4_layout_def mask_lits bit_ucast_iff bit_and_iff bit_drop_bit_eq bit_mask_iff raw_bits [OF d])
  qed
  show "ucast (drop_bit 8 (raw_message d m) AND data_mask d) = msg_data m"
  proof (rule bit_word_eqI)
    fix j assume j: "j < LENGTH(24)"
    have "\<not> bit (msg_type m) (6 + j)" using type_bits [OF t, of "6 + j"] by auto
    then show "bit (ucast (drop_bit 8 (raw_message d m) AND data_mask d) :: 24 word) j = bit (msg_data m) j"
      using d j by (auto simp: gen4_layout_def mask_lits bit_ucast_iff bit_and_iff bit_drop_bit_eq bit_mask_iff raw_bits [OF d])
  qed
  have "bit (raw_message d m) 0" by (simp add: raw_bits [OF d])
  then show "raw_message d m AND 1 \<noteq> 0" by (simp add: and_one_eq odd_iff_mod_2_eq_one bit_0)
qed

lemma recv_raw:
  assumes "gen4_layout d" and "unat (msg_type m) < 64"
    and "csr_rd bus s (remote_csr_offset d) = (raw_message d m, s1)"
  shows "adf_recv_pf2vf_msg bus (Some d) s =
    (m, csr_wr bus s1 (remote_csr_offset d) (raw_message d m AND NOT 1))"
  using raw_decode [OF assms(1,2)] assms(1,3)
  by (simp add: adf_recv_pf2vf_msg_def adf_pfvf_gen4_recv_def gen4_layout_def)

lemma send_ok:
  assumes "gen4_layout d" and "unat (msg_type m) < 64"
    and "adf_pfvf_msg_ack_timed_out bus d 1 (csr_wr bus s (local_csr_offset d) (raw_message d m)) = (False, s1)"
  shows "adf_send_vf2pf_msg bus (Some d) m s = (0, s1)"
proof -
  have "ucast (msg_type m) AND type_mask d = ucast (msg_type m)"
  proof (rule bit_word_eqI)
    fix j
    show "bit (ucast (msg_type m) AND type_mask d) j = bit (ucast (msg_type m) :: u32) j"
      using assms(1) type_bits [OF assms(2), of j] by (auto simp: gen4_layout_def mask_lits bit_and_iff bit_ucast_iff bit_mask_iff)
  qed
  moreover have "ucast (msg_data m) AND data_mask d = ucast (msg_data m)"
  proof (rule bit_word_eqI)
    fix j
    show "bit (ucast (msg_data m) AND data_mask d) j = bit (ucast (msg_data m) :: u32) j"
      using assms(1) bit_imp_le_length [of "msg_data m" j]
      by (auto simp: gen4_layout_def mask_lits bit_and_iff bit_ucast_iff bit_mask_iff)
  qed
  ultimately show ?thesis using assms(3) by (simp add: adf_send_vf2pf_msg_def adf_pfvf_gen4_send_def)
qed

section \<open>A physical function that answers\<close>

text \<open>
  What the driver relies on of its peer, which is not part of the repository: in a ready state it
  acknowledges a block request in time and then answers with a data or checksum byte, and reading
  and acknowledging the answer makes it ready again.
\<close>

definition blkmsg_answer :: "u8 \<Rightarrow> bool \<Rightarrow> pfvf_message" where
  "blkmsg_answer b crc = \<lparr>msg_data = push_bit 2 (ucast b) OR of_bool crc, msg_type = 0x03\<rparr>"

definition pf_serves ::
  "'s csr_bus \<Rightarrow> adf_pfvf_dev_data \<Rightarrow> ('s \<Rightarrow> bool) \<Rightarrow> (u8 \<Rightarrow> u8 \<Rightarrow> bool \<Rightarrow> u8) \<Rightarrow> bool" where
  "pf_serves bus d ready serve \<longleftrightarrow>
     (\<forall>s ty byte crc req mx. ready s \<longrightarrow> blkmsg_req ty byte crc = Some (req, mx) \<longrightarrow> unat byte < mx + 2 \<longrightarrow>
        (\<exists>s1 s2. adf_pfvf_msg_ack_timed_out bus d 1
             (csr_wr bus s (local_csr_offset d) (raw_message d req)) = (False, s1) \<and>
           csr_rd bus s1 (remote_csr_offset d) = (raw_message d (blkmsg_answer (serve ty byte crc) crc), s2) \<and>
           ready (csr_wr bus s2 (remote_csr_offset d)
             (raw_message d (blkmsg_answer (serve ty byte crc) crc) AND NOT 1))))"

lemma answer_fields:
  "blk_data (blkmsg_answer b crc) = b" "blk_resp (blkmsg_answer b crc) \<noteq> 2"
proof -
  show "blk_data (blkmsg_answer b crc) = b"
    by (rule bit_word_eqI) (auto simp: blk_data_def blkmsg_answer_def bit_simps)
  have "\<not> bit (blk_resp (blkmsg_answer b crc)) 1"
    by (auto simp: blk_resp_def blkmsg_answer_def bit_simps)
  moreover have "bit (2 :: 2 word) 1" by simp
  ultimately show "blk_resp (blkmsg_answer b crc) \<noteq> 2" by metis
qed

lemma req_type: "blkmsg_req ty byte crc = Some (req, mx) \<Longrightarrow> unat (msg_type req) < 64"
  by (auto simp: blkmsg_req_def blkmsg_req_small_def blkmsg_req_medium_def blkmsg_req_large_def split: if_splits)

lemma served:
  assumes srv: "pf_serves bus d ready serve" and d: "gen4_layout d" and "ready s"
    and req: "blkmsg_req ty byte crc = Some (req, mx)" and byte: "unat byte < mx + 2"
  shows "\<exists>s'. adf_vf2pf_blkmsg_data_req bus (Some d) ty byte crc s = (0, Some (serve ty byte crc), s') \<and> ready s'"
proof -
  let ?m = "blkmsg_answer (serve ty byte crc) crc"
  obtain s1 s2 where s: "adf_pfvf_msg_ack_timed_out bus d 1
      (csr_wr bus s (local_csr_offset d) (raw_message d req)) = (False, s1)"
    "csr_rd bus s1 (remote_csr_offset d) = (raw_message d ?m, s2)"
    "ready (csr_wr bus s2 (remote_csr_offset d) (raw_message d ?m AND NOT 1))"
    using assms unfolding pf_serves_def by blast
  have t: "unat (msg_type ?m) < 64" "msg_type ?m \<noteq> 0" by (simp_all add: blkmsg_answer_def)
  have "adf_send_vf2pf_msg bus (Some d) req s = (0, s1)" by (rule send_ok [OF d req_type [OF req] s(1)])
  moreover have "adf_recv_pf2vf_msg bus (Some d) s1 = (?m, csr_wr bus s2 (remote_csr_offset d) (raw_message d ?m AND NOT 1))"
    by (rule recv_raw [OF d t(1) s(2)])
  ultimately have "adf_send_vf2pf_req bus (Some d) req s =
      (0, Some ?m, csr_wr bus s2 (remote_csr_offset d) (raw_message d ?m AND NOT 1))"
    using t(2) unfolding adf_send_vf2pf_req_def by (subst req_loop.simps) simp
  then show ?thesis using s(3) req byte answer_fields by (simp add: adf_vf2pf_blkmsg_data_req_def)
qed

text \<open>The largest payload of a type.\<close>

definition max_payload :: "u8 \<Rightarrow> nat" where
  "max_payload ty = (if ty \<le> 15 then 30 else if ty \<le> 23 then 62 else 126)"

lemma req_max: "ty \<le> 27 \<Longrightarrow> \<exists>req. blkmsg_req ty byte crc = Some (req, max_payload ty)"
  by (auto simp: blkmsg_req_def max_payload_def)

lemma fetch_served:
  assumes "pf_serves bus d ready serve" and "gen4_layout d" and "ready s" and "ty \<le> 27"
    and i: "i < max_payload ty + 2" and "i < length buf"
  shows "\<exists>s'. fetch_byte bus (Some d) ty i buf s = Some (0, buf[i := serve ty (of_nat i) False], s') \<and> ready s'"
proof -
  obtain req where req: "blkmsg_req ty (of_nat i) False = Some (req, max_payload ty)" using req_max [OF assms(4)] by blast
  have "i < 256" using i by (simp add: max_payload_def split: if_splits)
  then have "unat (of_nat i :: u8) = i" by (simp add: unat_of_nat)
  then have "unat (of_nat i :: u8) < max_payload ty + 2" using i by simp
  then show ?thesis
    using served [OF assms(1,2,3) req] assms(6) by (auto simp: fetch_byte_def adf_vf2pf_blkmsg_get_byte_def)
qed

lemma payload_served:
  assumes "pf_serves bus d ready serve" and "gen4_layout d" and "ty \<le> 27"
  shows "ready s \<Longrightarrow> i + n \<le> max_payload ty + 2 \<Longrightarrow> i + n \<le> length buf \<Longrightarrow>
    \<exists>buf' s'. payload_loop bus (Some d) ty n i buf s = Some (0, buf', s') \<and> ready s' \<and> length buf' = length buf \<and>
      take (i + n) buf' = take i buf @ map (\<lambda>j. serve ty (of_nat j) False) [i..<i + n]"
proof (induction n arbitrary: i buf s)
  case 0
  then show ?case by simp
next
  case (Suc n)
  let ?b = "buf[i := serve ty (of_nat i) False]"
  obtain s1 where f: "fetch_byte bus (Some d) ty i buf s = Some (0, ?b, s1)" "ready s1"
    using fetch_served [OF assms(1,2) Suc.prems(1) assms(3), of i buf] Suc.prems by auto
  obtain buf' s' where "payload_loop bus (Some d) ty n (Suc i) ?b s1 = Some (0, buf', s')" "ready s'"
    "length buf' = length ?b"
    "take (Suc i + n) buf' = take (Suc i) ?b @ map (\<lambda>j. serve ty (of_nat j) False) [Suc i..<Suc i + n]"
    using Suc.IH [OF f(2), of "Suc i" ?b] Suc.prems by auto
  moreover have "take (Suc i) ?b = take i buf @ [serve ty (of_nat i) False]"
    using Suc.prems(3) by (simp add: take_Suc_conv_app_nth)
  moreover have "[i..<i + Suc n] = i # [Suc i..<Suc i + n]" by (simp add: upt_rec)
  ultimately show ?case using f(1) by auto
qed

lemma blkmsg_served:
  assumes srv: "pf_serves bus d ready serve" and d: "gen4_layout d" and "ready s" and ty: "ty \<le> 27"
    and ver: "serve ty 0 False \<noteq> 0" and len: "serve ty 1 False \<noteq> 0" "unat (serve ty 1 False) \<le> max_payload ty"
    and buf: "2 \<le> unat blen" "unat blen \<le> length buf"
  defines "n \<equiv> min (2 + unat (serve ty 1 False)) (unat blen)"
  defines "data \<equiv> map (\<lambda>j. serve ty (of_nat j) False) [0..<n]"
  shows "\<exists>buf' s'. take n buf' = data \<and> length buf' = length buf \<and> ready s' \<and>
    adf_send_vf2pf_blkmsg_req bus (Some d) ty buf blen s =
      (if crc_run crc8_sh norm_put 0xFF data = serve ty (of_nat (n - 1)) True
       then Some (0, buf', of_nat n, s') else Some (- EIO, buf', blen, s'))"
proof -
  have mp: "max_payload ty \<le> 126" by (simp add: max_payload_def)
  have n: "2 \<le> n" "n \<le> max_payload ty + 2" "n \<le> length buf" "n \<le> 128"
    using buf len(2) mp by (auto simp: n_def)
  have len_buf: "0 < length buf" "1 < length buf" using buf by linarith+
  let ?b1 = "buf[0 := serve ty 0 False]" and ?b2 = "buf[0 := serve ty 0 False, 1 := serve ty 1 False]"
  obtain s1 where s1: "fetch_byte bus (Some d) ty 0 buf s = Some (0, ?b1, s1)" "ready s1"
    using fetch_served [OF srv d assms(3) ty, of 0 buf] len_buf by auto
  obtain s2 where s2: "fetch_byte bus (Some d) ty 1 ?b1 s1 = Some (0, ?b2, s2)" "ready s2"
    using fetch_served [OF srv d s1(2) ty, of 1 ?b1] len_buf by auto
  have e: "2 + (n - 2) = n" using n(1) by simp
  obtain b3 s3 where s3: "payload_loop bus (Some d) ty (n - 2) 2 ?b2 s2 = Some (0, b3, s3)" "ready s3"
      "length b3 = length buf" "take n b3 = take 2 ?b2 @ map (\<lambda>j. serve ty (of_nat j) False) [2..<n]"
    using payload_served [OF srv d ty s2(2), of 2 "n - 2" ?b2, unfolded e] n(2,3)
    by (simp only: length_list_update) blast
  have b: "take n b3 = data"
  proof -
    obtain x y zs where "buf = x # y # zs" using buf by (cases buf rule: remdups_adj.cases) auto
    then have "take 2 ?b2 = [serve ty 0 False, serve ty 1 False]" by (simp add: numeral_2_eq_2)
    moreover have "[0..<n] = 0 # 1 # [2..<n]" using n(1) by (simp add: upt_rec numeral_2_eq_2)
    ultimately show ?thesis unfolding s3(4) data_def by simp
  qed
  let ?ml = "if blen < 2 + ucast (serve ty 1 False) then blen else 2 + ucast (serve ty 1 False) :: u16"
  have full: "unat (2 + ucast (serve ty 1 False) :: u16) = 2 + unat (serve ty 1 False)"
    using len(2) mp unat_ucast_byte [of "serve ty 1 False", where 'a = 16] by (simp add: unat_word_ariths)
  have ml: "unat ?ml = n" using full by (simp add: n_def word_less_nat_alt min_def)
  moreover have "unat (of_nat n :: u16) = n" using n(4) by (simp add: unat_of_nat)
  ultimately have ml': "?ml = of_nat n" by (simp only: word_unat_eq_iff)
  have "unat (ucast ?ml :: u8) = n"
    using ml n(4) by (simp only: unsigned_ucast_eq) (simp add: take_bit_nat_eq_self)
  moreover have un: "unat (of_nat n :: u8) = n" using n(4) by (simp add: unat_of_nat)
  ultimately have u8: "ucast ?ml = (of_nat n :: u8)" "unat (of_nat n :: u8) = n"
    by (simp_all add: word_unat_eq_iff)
  have pred: "(of_nat n - 1 :: u8) = of_nat (n - 1)" using n(1) by (simp add: of_nat_diff)
  obtain req where req: "blkmsg_req ty (of_nat (n - 1)) True = Some (req, max_payload ty)" using req_max [OF ty] by blast
  have "unat (of_nat (n - 1) :: u8) = n - 1" using n(4) by (simp add: unat_of_nat)
  then have lt: "unat (of_nat (n - 1) :: u8) < max_payload ty + 2" using n(1,2) by linarith
  obtain s4 where s4: "adf_vf2pf_blkmsg_data_req bus (Some d) ty (of_nat (n - 1)) True s3 =
      (0, Some (serve ty (of_nat (n - 1)) True), s4)" "ready s4"
    using served [OF srv d s3(2) req lt] by blast
  have crc: "adf_pfvf_calc_blkmsg_crc b3 (of_nat n) = Some (crc_run crc8_sh norm_put 0xFF data)"
    using crc8_loop_eq [of n b3 "0xFF"] n(3) s3(3) u8(2) b
    by (simp add: adf_pfvf_calc_blkmsg_crc_def adf_pfvf_crc_def)
  have nth: "?b1 ! 0 = serve ty 0 False" "?b2 ! 1 = serve ty 1 False" using len_buf by auto
  have "adf_send_vf2pf_blkmsg_req bus (Some d) ty buf blen s = blkmsg_payload bus (Some d) ty ?b2 blen s2"
    using s1 s2 nth ver len leD [OF ty] leD [OF buf(1)] by (simp add: adf_send_vf2pf_blkmsg_req_def)
  also have "\<dots> = (if crc_run crc8_sh norm_put 0xFF data = serve ty (of_nat (n - 1)) True
       then Some (0, b3, of_nat n, s4) else Some (- EIO, b3, blen, s4))"
    using s3 s4 crc u8 pred ml ml' unfolding blkmsg_payload_def Let_def nth ml
    by (simp add: adf_vf2pf_blkmsg_get_crc_def)
  finally show ?thesis using b s3(3) s4(2) by blast
qed

section \<open>A concrete peer for the witnesses\<close>

text \<open>It answers data requests with one byte and checksum requests with another.\<close>

definition example_dev :: adf_pfvf_dev_data where
  "example_dev = adf_init_pfvf_dev_data 0xF0000000 0x4941"

definition example_bus :: "u8 \<Rightarrow> u8 \<Rightarrow> (u32 \<times> u32) csr_bus" where
  "example_bus c k =
     \<lparr>csr_rd = \<lambda>(l, r) off. (if off = 0x100C then l else r, (l, r)),
      csr_wr = \<lambda>(l, r) off v.
        if off = 0x100C
        then (v AND NOT 1, raw_message example_dev (blkmsg_answer (if bit v 17 then k else c) (bit v 17)))
        else (l, v)\<rparr>"

lemma example_dev_fields:
  "local_csr_offset example_dev = 0x100C" "remote_csr_offset example_dev = 0x1008" "gen4_layout example_dev"
  by (simp_all add: example_dev_def init_dev_fields gen4_layout_def)

lemma crc_bit:
  assumes "blkmsg_req ty byte crc = Some (req, mx)"
  shows "bit (raw_message example_dev req) 17 = crc"
proof -
  have "bit (msg_data req) 9 = crc" "\<not> bit (msg_type req) 15"
    using assms bit_imp_le_length [of "msg_type req" 15]
    by (auto simp: blkmsg_req_def blkmsg_req_small_def blkmsg_req_medium_def blkmsg_req_large_def bit_simps
        split: if_splits)
  then show ?thesis by (simp add: raw_bits [OF example_dev_fields(3)])
qed

lemma ack_now:
  assumes "csr_rd bus s (local_csr_offset d) = (v, s1)" and "v AND 1 = 0"
  shows "adf_pfvf_msg_ack_timed_out bus d 1 s = (False, s1)"
proof -
  have "(500 :: nat) = Suc 499" by simp
  then show ?thesis using assms unfolding adf_pfvf_msg_ack_timed_out_def by (simp only: ack_loop.simps) simp
qed

lemma example_serves: "pf_serves (example_bus c k) example_dev (\<lambda>s. True) (\<lambda>ty byte crc. if crc then k else c)"
proof -
  have z: "(v AND NOT 1) AND 1 = (0 :: u32)" for v by (simp add: and.assoc)
  show ?thesis
    unfolding pf_serves_def
  proof (intro allI impI)
    fix s :: "u32 \<times> u32" and ty byte crc req mx
    assume req: "blkmsg_req ty byte crc = Some (req, mx)"
    let ?v = "raw_message example_dev req" and ?a = "raw_message example_dev (blkmsg_answer (if crc then k else c) crc)"
    have "csr_rd (example_bus c k) (csr_wr (example_bus c k) s (local_csr_offset example_dev) ?v) (local_csr_offset example_dev) =
        (?v AND NOT 1, (?v AND NOT 1, ?a))"
      using crc_bit [OF req] by (cases s) (simp add: example_bus_def example_dev_fields)
    from ack_now [OF this z] show "\<exists>s1 s2. adf_pfvf_msg_ack_timed_out (example_bus c k) example_dev 1
         (csr_wr (example_bus c k) s (local_csr_offset example_dev) ?v) = (False, s1) \<and>
       csr_rd (example_bus c k) s1 (remote_csr_offset example_dev) = (?a, s2) \<and> True"
      by (simp add: example_bus_def example_dev_fields)
  qed
qed

section \<open>Properties\<close>

text \<open>Encoding and decoding: a message of a type below 64 that one side writes to a register is
  received unchanged by \<open>adf_recv_pf2vf_msg\<close>, which acknowledges it by clearing the interrupt bit and
  nothing else.\<close>

lemma pfvf_roundtrip:
  assumes "addr \<noteq> 0" and "unat (msg_type m) < 64"
    and "csr_rd bus s 0x1008 = (raw_message (adf_init_pfvf_dev_data addr i) m, s1)"
  shows "adf_recv_pf2vf_msg bus (Some (adf_init_pfvf_dev_data addr i)) s =
    (m, csr_wr bus s1 0x1008 (raw_message (adf_init_pfvf_dev_data addr i) m AND NOT 1))"
  using recv_raw [of "adf_init_pfvf_dev_data addr i" m bus s s1] assms init_dev_fields [OF assms(1)]
  by (simp add: gen4_layout_def)

lemma blkmsg_delivered:
  assumes srv: "pf_serves bus d ready serve" and d: "gen4_layout d" and rs: "ready s" and ty: "ty \<le> 27"
    and blk: "length blk = 2 + unat (blk ! 1)" "blk ! 0 \<noteq> 0" "blk ! 1 \<noteq> 0" "unat (blk ! 1) \<le> max_payload ty"
    and data: "\<forall>j < length blk. serve ty (of_nat j) False = blk ! j"
    and buf: "2 \<le> unat blen" "unat blen \<le> length buf"
    and n: "n = min (length blk) (unat blen)"
    and crc: "adf_pfvf_calc_blkmsg_crc blk (of_nat n) = Some (serve ty (of_nat (n - 1)) True)"
  shows "\<exists>buf' s'. adf_send_vf2pf_blkmsg_req bus (Some d) ty buf blen s =
      Some (0, buf', of_nat n, s') \<and> take n buf' = take n blk \<and> length buf' = length buf \<and> ready s'"
proof -
  have hdr: "serve ty 0 False = blk ! 0" "serve ty 1 False = blk ! 1"
    using data blk(1) by (auto dest: spec [of _ 0] spec [of _ 1])
  have le: "n \<le> length blk" "n \<le> 128" using n blk(1,4) by (auto simp: max_payload_def split: if_splits)
  have eq: "map (\<lambda>j. serve ty (of_nat j) False) [0..<n] = take n blk"
    using data le(1) by (intro nth_equalityI) auto
  have "unat (of_nat n :: u8) = n" using le(2) by (simp add: unat_of_nat)
  then have "crc_run crc8_sh norm_put 0xFF (take n blk) = serve ty (of_nat (n - 1)) True"
    using crc crc8_loop_eq [OF le(1), of "0xFF"] by (simp add: adf_pfvf_calc_blkmsg_crc_def adf_pfvf_crc_def)
  then show ?thesis
    using blkmsg_served [OF srv d rs ty, unfolded hdr, OF blk(2,3,4) buf, folded blk(1) n, unfolded eq] by auto
qed

text \<open>C10. Block messages are delivered: if the physical function answers every request for a byte of a
  well-formed block and for its checksum, \<open>adf_send_vf2pf_blkmsg_req\<close> returns 0, the buffer holds the
  block, cut to the length of the buffer, and the returned length says how much.\<close>

theorem blkmsg_delivers:
  assumes "addr \<noteq> 0" and srv: "pf_serves bus (adf_init_pfvf_dev_data addr i) ready serve" and "ready s" and "ty \<le> 27"
    and blk: "length blk = 2 + unat (blk ! 1)" "blk ! 0 \<noteq> 0" "blk ! 1 \<noteq> 0" "unat (blk ! 1) \<le> max_payload ty"
    and data: "\<forall>j < length blk. serve ty (of_nat j) False = blk ! j"
    and buf: "2 \<le> unat blen" "unat blen \<le> length buf"
    and n: "n = min (length blk) (unat blen)"
    and crc: "adf_pfvf_calc_blkmsg_crc blk (of_nat n) = Some (serve ty (of_nat (n - 1)) True)"
  shows "\<exists>buf' s'. adf_send_vf2pf_blkmsg_req bus (Some (adf_init_pfvf_dev_data addr i)) ty buf blen s =
      Some (0, buf', of_nat n, s') \<and> take n buf' = take n blk \<and> length buf' = length buf \<and> ready s'"
proof -
  have "gen4_layout (adf_init_pfvf_dev_data addr i)" using init_dev_fields [OF assms(1)] by (simp add: gen4_layout_def)
  then show ?thesis by (rule blkmsg_delivered [OF srv _ assms(3,4) blk data buf n crc])
qed

theorem blkmsg_delivers_witness:
  "\<exists>k buf' s'. adf_send_vf2pf_blkmsg_req (example_bus 1 k) (Some example_dev) 2 [0, 0, 0, 9] 3 (0, 0) =
     Some (0, buf', 3, s') \<and> take 3 buf' = [1, 1, 1]"
proof -
  obtain k where k: "adf_pfvf_calc_blkmsg_crc [1, 1, 1] 3 = Some k"
    using crc8_loop_eq [of 3 "[1, 1, 1]" "0xFF"] by (auto simp: adf_pfvf_calc_blkmsg_crc_def adf_pfvf_crc_def)
  have all: "\<forall>j < length [1, 1, 1 :: u8]. (if False then k else 1) = [1, 1, 1] ! j"
    by (simp add: All_less_Suc)
  have "\<exists>buf' s'. adf_send_vf2pf_blkmsg_req (example_bus 1 k) (Some example_dev) 2 [0, 0, 0, 9] 3 (0, 0) =
      Some (0, buf', of_nat 3, s') \<and> take 3 buf' = take 3 [1, 1, 1] \<and> length buf' = length [0, 0, 0, 9 :: u8] \<and> True"
    unfolding example_dev_def
    by (rule blkmsg_delivers [OF _ example_serves [of 1 k, unfolded example_dev_def], where blk = "[1, 1, 1]"])
      (use k all in \<open>simp_all add: max_payload_def\<close>)
  then show ?thesis by auto
qed

text \<open>C32. Corruption is detected: if the checksum is that of the block but one byte of the payload
  arrives changed, \<open>adf_send_vf2pf_blkmsg_req\<close> returns the error EIO and leaves the length alone.\<close>

theorem blkmsg_detects_corruption:
  assumes "addr \<noteq> 0" and srv: "pf_serves bus (adf_init_pfvf_dev_data addr i) ready serve" and "ready s" and "ty \<le> 27"
    and blk: "length blk = 2 + unat (blk ! 1)" "blk ! 0 \<noteq> 0" "blk ! 1 \<noteq> 0" "unat (blk ! 1) \<le> max_payload ty"
    and data: "\<forall>j < length blk. serve ty (of_nat j) False = blk[k := x] ! j"
    and buf: "2 \<le> unat blen" "unat blen \<le> length buf"
    and n: "n = min (length blk) (unat blen)"
    and crc: "adf_pfvf_calc_blkmsg_crc blk (of_nat n) = Some (serve ty (of_nat (n - 1)) True)"
    and bad: "2 \<le> k" "k < n" "x \<noteq> blk ! k"
  shows "\<exists>buf' s'. adf_send_vf2pf_blkmsg_req bus (Some (adf_init_pfvf_dev_data addr i)) ty buf blen s =
      Some (- EIO, buf', blen, s')"
proof -
  have d: "gen4_layout (adf_init_pfvf_dev_data addr i)" using init_dev_fields [OF assms(1)] by (simp add: gen4_layout_def)
  have hdr: "serve ty 0 False = blk ! 0" "serve ty 1 False = blk ! 1"
    using data blk(1) bad(1) by (auto dest: spec [of _ 0] spec [of _ 1])
  have le: "n \<le> length blk" "n \<le> 128" using n blk(1,4) by (auto simp: max_payload_def split: if_splits)
  have eq: "map (\<lambda>j. serve ty (of_nat j) False) [0..<n] = take n (blk[k := x])"
    using data le(1) by (intro nth_equalityI) auto
  define rest where "rest = drop (Suc k) (take n blk)"
  have k: "k < length (take n blk)" using bad(2) le(1) by simp
  have split: "take n blk = take k blk @ [blk ! k] @ rest"
    using id_take_nth_drop [OF k, folded rest_def] bad(2) by simp
  have split': "take n (blk[k := x]) = take k blk @ [x] @ rest"
    using upd_conv_take_nth_drop [OF k, of x, folded rest_def] bad(2) by (simp add: take_update_swap)
  have "crc_run crc8_sh norm_put 0xFF (take n (blk[k := x])) \<noteq> crc_run crc8_sh norm_put 0xFF (take n blk)"
    using crc8.burst_detected [of "[x]" "[blk ! k]" "0xFF" "take k blk" rest] bad(3) unfolding split split' by auto
  moreover have "unat (of_nat n :: u8) = n" using le(2) by (simp add: unat_of_nat)
  then have "crc_run crc8_sh norm_put 0xFF (take n blk) = serve ty (of_nat (n - 1)) True"
    using crc crc8_loop_eq [OF le(1), of "0xFF"] by (simp add: adf_pfvf_calc_blkmsg_crc_def adf_pfvf_crc_def)
  ultimately show ?thesis
    using blkmsg_served [OF srv d assms(3,4), unfolded hdr, OF blk(2,3,4) buf, folded blk(1) n, unfolded eq] by auto
qed

theorem blkmsg_detects_corruption_witness:
  "\<exists>k buf' s'. adf_pfvf_calc_blkmsg_crc [1, 1, 7] 3 = Some k \<and>
     adf_send_vf2pf_blkmsg_req (example_bus 1 k) (Some example_dev) 2 [0, 0, 0, 9] 3 (0, 0) = Some (- EIO, buf', 3, s')"
proof -
  obtain k where k: "adf_pfvf_calc_blkmsg_crc [1, 1, 7] 3 = Some k"
    using crc8_loop_eq [of 3 "[1, 1, 7]" "0xFF"] by (auto simp: adf_pfvf_calc_blkmsg_crc_def adf_pfvf_crc_def)
  have all: "\<forall>j < length [1, 1, 7 :: u8]. (if False then k else 1) = [1, 1, 7][2 := 1] ! j"
    by (simp add: All_less_Suc)
  have "\<exists>buf' s'. adf_send_vf2pf_blkmsg_req (example_bus 1 k) (Some example_dev) 2 [0, 0, 0, 9] 3 (0, 0) =
      Some (- EIO, buf', 3, s')"
    unfolding example_dev_def
    by (rule blkmsg_detects_corruption [OF _ example_serves [of 1 k, unfolded example_dev_def],
          where blk = "[1, 1, 7]" and k = 2 and x = 1 and n = 3])
      (use k all in \<open>simp_all add: max_payload_def\<close>)
  then show ?thesis using k by auto
qed

section \<open>Any peer\<close>

lemma fetch_any:
  assumes "i < length buf"
  shows "\<exists>ret buf' s'. fetch_byte bus dev ty i buf s = Some (ret, buf', s') \<and> length buf' = length buf \<and>
    (\<forall>j. i < j \<longrightarrow> drop j buf' = drop j buf)"
  using assms by (auto simp: fetch_byte_def split: prod.splits option.splits)

lemma payload_any:
  "i + n \<le> length buf \<Longrightarrow>
   \<exists>ret buf' s'. payload_loop bus dev ty n i buf s = Some (ret, buf', s') \<and> length buf' = length buf \<and>
     (\<forall>j. i + n \<le> j \<longrightarrow> drop j buf' = drop j buf)"
proof (induction n arbitrary: i buf s)
  case (Suc n)
  obtain ret b1 s1 where f: "fetch_byte bus dev ty i buf s = Some (ret, b1, s1)" "length b1 = length buf"
      "\<forall>j. i < j \<longrightarrow> drop j b1 = drop j buf"
    using fetch_any [of i buf bus dev ty s] Suc.prems by auto
  show ?case
  proof (cases "ret = 0")
    case True
    obtain ret2 b2 s2 where "payload_loop bus dev ty n (Suc i) b1 s1 = Some (ret2, b2, s2)" "length b2 = length b1"
        "\<forall>j. Suc i + n \<le> j \<longrightarrow> drop j b2 = drop j b1"
      using Suc.IH [of "Suc i" b1 s1] Suc.prems f(2) by auto
    then show ?thesis using True f by simp
  next
    case False
    then show ?thesis using f by simp
  qed
qed simp

lemma blkmsg_payload_any:
  assumes "unat blen \<le> length buf" and "2 \<le> unat blen"
  shows "\<exists>ret buf' len' s'. blkmsg_payload bus dev ty buf blen s = Some (ret, buf', len', s') \<and>
    length buf' = length buf \<and> drop (unat blen) buf' = drop (unat blen) buf \<and> len' \<le> blen"
proof -
  define ml where "ml = (if blen < 2 + ucast (buf ! 1) then blen else 2 + ucast (buf ! 1))"
  have le: "ml \<le> blen" by (auto simp: ml_def)
  then have le': "unat ml \<le> unat blen" by (simp add: word_le_nat_alt)
  have room: "2 + (unat ml - 2) \<le> length buf" using assms le' by linarith
  obtain ret b1 s1 where p: "payload_loop bus dev ty (unat ml - 2) 2 buf s = Some (ret, b1, s1)"
      "length b1 = length buf" "\<forall>j. 2 + (unat ml - 2) \<le> j \<longrightarrow> drop j b1 = drop j buf"
    using payload_any [OF room, of bus dev ty s] by auto
  have dr: "drop (unat blen) b1 = drop (unat blen) buf" using p(3) le' assms(2) by simp
  have "unat (ucast ml :: u8) \<le> length b1"
  proof -
    have "unat (ucast ml :: u8) \<le> unat ml" by (simp only: unsigned_ucast_eq) (simp add: take_bit_nat_less_eq_self)
    then show ?thesis using le' assms(1) p(2) by linarith
  qed
  then obtain c where c: "adf_pfvf_calc_blkmsg_crc b1 (ucast ml) = Some c"
    by (simp add: adf_pfvf_calc_blkmsg_crc_def adf_pfvf_crc_def crc8_loop_eq)
  obtain r2 rc s2 where g: "adf_vf2pf_blkmsg_get_crc bus dev ty (ucast ml) s1 = (r2, rc, s2)" by (cases rule: prod_cases3)
  show ?thesis
    unfolding blkmsg_payload_def Let_def ml_def [symmetric] using p(1,2) dr c g le by auto
qed

section \<open>Counting register accesses\<close>

definition counted :: "'s csr_bus \<Rightarrow> ('s \<times> nat) csr_bus" where
  "counted bus =
     \<lparr>csr_rd = \<lambda>(s, k) off. let (v, s') = csr_rd bus s off in (v, (s', Suc k)),
      csr_wr = \<lambda>(s, k) off v. (csr_wr bus s off v, Suc k)\<rparr>"

lemma counted_rd: "csr_rd (counted bus) s off = (v, s') \<Longrightarrow> snd s' = Suc (snd s)"
  by (auto simp: counted_def split: prod.splits)

lemma counted_wr: "snd (csr_wr (counted bus) s off v) = Suc (snd s)"
  by (auto simp: counted_def split: prod.splits)

lemma ack_cost: "ack_loop (counted bus) d b n s = (t, s') \<Longrightarrow> snd s' \<le> snd s + n"
proof (induction n arbitrary: s)
  case (Suc n)
  obtain v s1 where r: "csr_rd (counted bus) s (local_csr_offset d) = (v, s1)" by (cases rule: prod.exhaust)
  have s1: "snd s1 = Suc (snd s)" by (rule counted_rd [OF r])
  show ?case using Suc.prems Suc.IH [of s1] r s1 by (auto split: if_splits)
qed simp

lemma send_cost:
  assumes "adf_send_vf2pf_msg (counted bus) dev m s = (err, s')"
  shows "snd s' \<le> snd s + 501"
proof (cases "\<exists>d. dev = Some d \<and> adf_pfvf_gen4_send (counted bus) d m s = (err, s')")
  case True
  then obtain d where g: "adf_pfvf_gen4_send (counted bus) d m s = (err, s')" by auto
  obtain t s2 where a: "ack_loop (counted bus) d ADF_PFVF_INT ADF_PFVF_MSG_ACK_MAX_RETRIES
      (csr_wr (counted bus) s (local_csr_offset d) (raw_message d m)) = (t, s2)" by (cases rule: prod.exhaust)
  have "s2 = s'" using g a by (simp add: adf_pfvf_gen4_send_def adf_pfvf_msg_ack_timed_out_def split: if_splits)
  then show ?thesis using ack_cost [OF a] by (simp add: counted_wr)
next
  case False
  then have "s' = s" using assms by (auto simp: adf_send_vf2pf_msg_def split: option.splits if_splits)
  then show ?thesis by simp
qed

lemma recv_cost:
  assumes "adf_recv_pf2vf_msg (counted bus) dev s = (m, s')"
  shows "snd s' \<le> snd s + 2"
proof (cases dev)
  case None
  then show ?thesis using assms by (simp add: adf_recv_pf2vf_msg_def adf_pfvf_gen4_recv_def)
next
  case (Some d)
  obtain v s1 where r: "csr_rd (counted bus) s (remote_csr_offset d) = (v, s1)" by (cases rule: prod.exhaust)
  then show ?thesis
    using assms Some counted_rd [OF r]
    by (auto simp: counted_wr adf_recv_pf2vf_msg_def adf_pfvf_gen4_recv_def split: if_splits)
qed

lemma req_loop_cost: "req_loop (counted bus) d m n s = (err, r, s') \<Longrightarrow> snd s' \<le> snd s + Suc n * 503"
proof (induction n arbitrary: s)
  case 0
  obtain e s1 where s1: "adf_send_vf2pf_msg (counted bus) (Some d) m s = (e, s1)" by (cases rule: prod.exhaust)
  obtain rm s2 where s2: "adf_recv_pf2vf_msg (counted bus) (Some d) s1 = (rm, s2)" by (cases rule: prod.exhaust)
  have c: "snd s1 \<le> snd s + 501" "snd s2 \<le> snd s1 + 2" using send_cost [OF s1] recv_cost [OF s2] by auto
  show ?case using 0 c s1 s2 by (subst (asm) req_loop.simps) (auto split: if_splits)
next
  case (Suc n)
  obtain e s1 where s1: "adf_send_vf2pf_msg (counted bus) (Some d) m s = (e, s1)" by (cases rule: prod.exhaust)
  obtain rm s2 where s2: "adf_recv_pf2vf_msg (counted bus) (Some d) s1 = (rm, s2)" by (cases rule: prod.exhaust)
  have c: "snd s1 \<le> snd s + 501" "snd s2 \<le> snd s1 + 2" using send_cost [OF s1] recv_cost [OF s2] by auto
  show ?case using Suc.prems Suc.IH [of s2] c s1 s2
    by (subst (asm) req_loop.simps) (auto split: if_splits)
qed

lemma send_req_cost:
  assumes "adf_send_vf2pf_req (counted bus) dev req s = (err, r, s')"
  shows "snd s' \<le> snd s + 3018"
proof (cases dev)
  case None
  then show ?thesis using assms by (simp add: adf_send_vf2pf_req_def)
next
  case (Some d)
  then show ?thesis using assms req_loop_cost [of bus d req 5 s err r s'] by (simp add: adf_send_vf2pf_req_def)
qed

lemma data_req_cost:
  assumes "adf_vf2pf_blkmsg_data_req (counted bus) dev ty byte crc s = (err, r, s')"
  shows "snd s' \<le> snd s + 3018"
proof (cases "s' = s")
  case False
  have "\<exists>req e r2. adf_send_vf2pf_req (counted bus) dev req s = (e, r2, s')"
    using assms False
    by (auto simp: adf_vf2pf_blkmsg_data_req_def split: option.splits if_splits prod.splits)
  then show ?thesis using send_req_cost by blast
qed simp

lemma fetch_cost:
  assumes "fetch_byte (counted bus) dev ty i buf s = Some (ret, b, s')"
  shows "snd s' \<le> snd s + 3018"
proof -
  have "\<exists>v. adf_vf2pf_blkmsg_data_req (counted bus) dev ty (of_nat i) False s = (ret, v, s')"
    using assms by (auto simp: fetch_byte_def adf_vf2pf_blkmsg_get_byte_def split: if_splits prod.splits)
  then show ?thesis using data_req_cost by blast
qed

lemma payload_cost:
  "payload_loop (counted bus) dev ty n i buf s = Some (ret, b, s') \<Longrightarrow> snd s' \<le> snd s + n * 3018"
proof (induction n arbitrary: i buf s)
  case (Suc n)
  from Suc.prems obtain r1 b1 s1 where f: "fetch_byte (counted bus) dev ty i buf s = Some (r1, b1, s1)"
    by (auto split: option.splits)
  have "snd s1 \<le> snd s + 3018" by (rule fetch_cost [OF f])
  then show ?case using Suc.prems Suc.IH [of "Suc i" b1 s1] f by (auto split: if_splits)
qed simp

lemma payload_len_cost:
  assumes "blkmsg_payload (counted bus) dev ty buf blen s = Some (ret, b, len, s')"
  shows "snd s' \<le> snd s + (unat blen - 2) * 3018 + 3018"
proof -
  define ml where "ml = (if blen < 2 + ucast (buf ! 1) then blen else 2 + ucast (buf ! 1))"
  have le: "unat ml - 2 \<le> unat blen - 2" by (auto simp: ml_def word_le_nat_alt not_less intro: diff_le_mono)
  obtain r1 b1 s1 where p: "payload_loop (counted bus) dev ty (unat ml - 2) 2 buf s = Some (r1, b1, s1)"
    using assms unfolding blkmsg_payload_def Let_def ml_def [symmetric] by (auto split: option.splits)
  obtain r2 c s2 where g: "adf_vf2pf_blkmsg_data_req (counted bus) dev ty (ucast ml - 1) True s1 = (r2, c, s2)"
    by (cases rule: prod_cases3)
  have "s' = s1 \<or> s' = s2"
    using assms p g unfolding blkmsg_payload_def Let_def ml_def [symmetric] adf_vf2pf_blkmsg_get_crc_def
    by (auto split: option.splits if_splits)
  moreover have "snd s1 \<le> snd s + (unat blen - 2) * 3018"
    using payload_cost [OF p] mult_le_mono1 [OF le, of 3018] by linarith
  ultimately show ?thesis using data_req_cost [OF g] by auto
qed

lemma blkmsg_cost:
  assumes "adf_send_vf2pf_blkmsg_req (counted bus) dev ty buf blen s = Some (ret, b, len, s')"
  shows "snd s' \<le> snd s + (unat blen + 1) * 3018"
proof (cases "dev = None \<or> ty > 27 \<or> unat blen < 2")
  case True
  then have "s' = s" using assms by (auto simp: adf_send_vf2pf_blkmsg_req_def split: if_splits)
  then show ?thesis by simp
next
  case False
  obtain r1 b1 s1 where f1: "fetch_byte (counted bus) dev ty 0 buf s = Some (r1, b1, s1)"
    using assms False by (auto simp: adf_send_vf2pf_blkmsg_req_def split: option.splits)
  have c1: "snd s1 \<le> snd s + 3018" by (rule fetch_cost [OF f1])
  show ?thesis
  proof (cases "r1 \<noteq> 0 \<or> b1 ! 0 = 0")
    case True
    then have "s' = s1" using assms False f1 by (auto simp: adf_send_vf2pf_blkmsg_req_def split: if_splits)
    then show ?thesis using c1 by simp
  next
    case cont: False
    obtain r2 b2 s2 where f2: "fetch_byte (counted bus) dev ty 1 b1 s1 = Some (r2, b2, s2)"
      using assms False f1 cont by (auto simp: adf_send_vf2pf_blkmsg_req_def split: option.splits)
    have c2: "snd s2 \<le> snd s1 + 3018" by (rule fetch_cost [OF f2])
    have "s' = s2 \<or> blkmsg_payload (counted bus) dev ty b2 blen s2 = Some (ret, b, len, s')"
      using assms False f1 f2 cont by (auto simp: adf_send_vf2pf_blkmsg_req_def split: if_splits)
    then have "snd s' \<le> snd s2 + ((unat blen - 2) * 3018 + 3018)" using payload_len_cost by fastforce
    then show ?thesis using c1 c2 False by (simp add: diff_mult_distrib)
  qed
qed

lemma blkmsg_any:
  assumes len: "unat blen \<le> length buf"
  shows "\<exists>ret buf' len' s'. adf_send_vf2pf_blkmsg_req bus dev ty buf blen s = Some (ret, buf', len', s') \<and>
    length buf' = length buf \<and> drop (unat blen) buf' = drop (unat blen) buf \<and> len' \<le> blen"
proof (cases "dev = None \<or> ty > 27 \<or> unat blen < 2")
  case True
  then show ?thesis by (auto simp: adf_send_vf2pf_blkmsg_req_def)
next
  case False
  then have l2: "2 \<le> unat blen" by simp
  have i0: "0 < length buf" using l2 len by linarith
  obtain r1 b1 s1 where f1: "fetch_byte bus dev ty 0 buf s = Some (r1, b1, s1)" "length b1 = length buf"
      "\<forall>j. 0 < j \<longrightarrow> drop j b1 = drop j buf"
    using fetch_any [OF i0, of bus dev ty s] by auto
  have i1: "1 < length b1" using f1(2) l2 len by linarith
  obtain r2 b2 s2 where f2: "fetch_byte bus dev ty 1 b1 s1 = Some (r2, b2, s2)" "length b2 = length b1"
      "\<forall>j. 1 < j \<longrightarrow> drop j b2 = drop j b1"
    using fetch_any [OF i1, of bus dev ty s1] by auto
  have d: "drop (unat blen) b1 = drop (unat blen) buf" "drop (unat blen) b2 = drop (unat blen) buf"
    using f1(3) f2(3) l2 by simp_all
  have "unat blen \<le> length b2" using len f1(2) f2(2) by simp
  from blkmsg_payload_any [OF this l2, of bus dev ty s2] obtain r3 b3 l3 s3 where
    "blkmsg_payload bus dev ty b2 blen s2 = Some (r3, b3, l3, s3)" "length b3 = length b2"
    "drop (unat blen) b3 = drop (unat blen) b2" "l3 \<le> blen" by auto
  then show ?thesis using False f1(1,2) f2(1,2) d by (auto simp: adf_send_vf2pf_blkmsg_req_def)
qed

text \<open>C18. Whatever the physical function answers, a block request stays within the buffer: it returns,
  the bytes past the given length are untouched and the returned length is at most the given one.\<close>

theorem blkmsg_in_bounds:
  assumes "unat blen \<le> length buf"
  shows "\<exists>ret buf' len' s'. adf_send_vf2pf_blkmsg_req bus dev ty buf blen s = Some (ret, buf', len', s') \<and>
    length buf' = length buf \<and> drop (unat blen) buf' = drop (unat blen) buf \<and> len' \<le> blen"
  by (rule blkmsg_any [OF assms])

theorem blkmsg_in_bounds_witness:
  "\<exists>ret buf' len' s'. adf_send_vf2pf_blkmsg_req (example_bus 1 0) (Some example_dev) 2 [7, 8, 9] 2 (0, 0) =
     Some (ret, buf', len', s') \<and> drop 2 buf' = [9]"
  using blkmsg_in_bounds [of 2 "[7, 8, 9]" "example_bus 1 0" "Some example_dev" 2 "(0, 0)"] by auto

text \<open>C28. No peer can make a request run for ever: also when the physical function never acknowledges
  or never responds, \<open>adf_send_vf2pf_req\<close> returns after at most 6 * (1 + 500 + 2) register accesses, and a
  block request with a buffer of n bytes after at most n + 1 times as many.\<close>

theorem pfvf_bounded:
  assumes "unat blen \<le> length buf"
  shows "(\<exists>err resp t k. adf_send_vf2pf_req (counted bus) dev req (s, 0) = (err, resp, (t, k)) \<and> k \<le> 3018) \<and>
    (\<exists>ret buf' len' t k. adf_send_vf2pf_blkmsg_req (counted bus) dev ty buf blen (s, 0) =
       Some (ret, buf', len', (t, k)) \<and> k \<le> (unat blen + 1) * 3018)"
proof -
  obtain err resp t k where r: "adf_send_vf2pf_req (counted bus) dev req (s, 0) = (err, resp, (t, k))"
    by (cases rule: prod_cases4)
  obtain ret b len t' k' where b:
    "adf_send_vf2pf_blkmsg_req (counted bus) dev ty buf blen (s, 0) = Some (ret, b, len, (t', k'))"
    using blkmsg_any [OF assms, of "counted bus" dev ty "(s, 0)"] by auto
  show ?thesis using send_req_cost [OF r] blkmsg_cost [OF b] r b by simp
qed

theorem pfvf_bounded_witness:
  "\<exists>ret buf' len' t k. adf_send_vf2pf_blkmsg_req (counted (example_bus 1 0)) (Some example_dev) 2 [0, 0, 0] 3 ((0, 0), 0) =
     Some (ret, buf', len', (t, k)) \<and> k \<le> 4 * 3018"
  using pfvf_bounded [of 3 "[0, 0, 0]" "example_bus 1 0" "Some example_dev" undefined "(0, 0)" 2] by simp

end
