(* ===== verification/Adf_Pfvf_Vf.thy ===== *)
theory Adf_Pfvf_Vf
  imports Adf_Pfvf
begin

text \<open>
  What a virtual function tells and asks its physical function (\<open>vfio/adf_pfvf_vf_msg.c\<close>), over the
  message protocol.  The static flag of the file, the device data and the state of the bus are one
  record; a NULL device is \<open>None\<close>.  The packed structures of block messages are lists of bytes, the
  least significant byte of a field first.
\<close>

section \<open>State\<close>

abbreviation VF2PF_MAYBE_AVAILABLE :: int where "VF2PF_MAYBE_AVAILABLE \<equiv> - 1"
abbreviation VF2PF_AVAILABLE :: int where "VF2PF_AVAILABLE \<equiv> 1"
abbreviation VF2PF_NOT_AVAILABLE :: int where "VF2PF_NOT_AVAILABLE \<equiv> 0"

record 's vf_state =
  vf2pf_available :: int
  pfvf :: "adf_pfvf_dev_data option"
  csrs :: 's

definition adf_set_vf2pf_available :: "int \<Rightarrow> 's vf_state \<Rightarrow> 's vf_state" where
  "adf_set_vf2pf_available available st = st\<lparr>vf2pf_available := available\<rparr>"

definition adf_vf2pf_available :: "'s vf_state \<Rightarrow> bool" where
  "adf_vf2pf_available st = (vf2pf_available st \<noteq> VF2PF_NOT_AVAILABLE)"

section \<open>Notifications\<close>

definition adf_vf2pf_notify_init :: "'s csr_bus \<Rightarrow> 's vf_state \<Rightarrow> int \<times> 's vf_state" where
  "adf_vf2pf_notify_init bus st =
     (case pfvf st of
        None \<Rightarrow> (CPA_STATUS_INVALID_PARAM, st)
      | Some d \<Rightarrow>
          if \<not> adf_vf2pf_available st then (- EIO, st)
          else let (err, s1) = adf_send_vf2pf_msg bus (Some d) \<lparr>msg_data = 0, msg_type = 0x03\<rparr> (csrs st);
                   st1 = st\<lparr>csrs := s1\<rparr>
               in if err \<noteq> 0 then (- EFAULT, adf_set_vf2pf_available VF2PF_NOT_AVAILABLE st1)
                  else (0, st1\<lparr>pfvf := Some (d\<lparr>pfvf_initialized := 1\<rparr>)\<rparr>))"

text \<open>Both other notifications have the same body but for the type of the message.\<close>

definition notify_end :: "u8 \<Rightarrow> 's csr_bus \<Rightarrow> 's vf_state \<Rightarrow> 's vf_state" where
  "notify_end ty bus st =
     (case pfvf st of
        None \<Rightarrow> st
      | Some d \<Rightarrow>
          if \<not> adf_vf2pf_available st then st
          else if pfvf_initialized d \<noteq> 0
          then let (err, s1) = adf_send_vf2pf_msg bus (Some d) \<lparr>msg_data = 0, msg_type = ty\<rparr> (csrs st);
                   st1 = st\<lparr>csrs := s1\<rparr>
               in if err \<noteq> 0 then adf_set_vf2pf_available VF2PF_NOT_AVAILABLE st1
                  else st1\<lparr>pfvf := Some (d\<lparr>pfvf_initialized := 0\<rparr>)\<rparr>
          else st)"

definition adf_vf2pf_notify_shutdown :: "'s csr_bus \<Rightarrow> 's vf_state \<Rightarrow> 's vf_state" where
  "adf_vf2pf_notify_shutdown = notify_end 0x04"

definition adf_vf2pf_notify_restarting_complete :: "'s csr_bus \<Rightarrow> 's vf_state \<Rightarrow> 's vf_state" where
  "adf_vf2pf_notify_restarting_complete = notify_end 0x0a"

section \<open>Compatibility\<close>

definition compat_resp_version :: "pfvf_message \<Rightarrow> u8" where
  "compat_resp_version m = ucast (msg_data m)"

definition compat_resp_compat :: "pfvf_message \<Rightarrow> 2 word" where
  "compat_resp_compat m = ucast (drop_bit 8 (msg_data m))"

abbreviation ADF_PF2VF_VF_COMPATIBLE :: "2 word" where "ADF_PF2VF_VF_COMPATIBLE \<equiv> 1"
abbreviation ADF_PF2VF_VF_COMPAT_UNKNOWN :: "2 word" where "ADF_PF2VF_VF_COMPAT_UNKNOWN \<equiv> 3"
abbreviation ADF_PFVF_COMPAT_CAPABILITIES :: u32 where "ADF_PFVF_COMPAT_CAPABILITIES \<equiv> 2"
abbreviation ADF_PFVF_COMPAT_RING_TO_SVC_MAP :: u32 where "ADF_PFVF_COMPAT_RING_TO_SVC_MAP \<equiv> 4"
abbreviation ADF_PFVF_COMPAT_THIS_VERSION :: u32 where "ADF_PFVF_COMPAT_THIS_VERSION \<equiv> 5"

definition adf_vf2pf_check_compat_version :: "'s csr_bus \<Rightarrow> 's vf_state \<Rightarrow> int \<times> 's vf_state" where
  "adf_vf2pf_check_compat_version bus st =
     (case pfvf st of
        None \<Rightarrow> (CPA_STATUS_INVALID_PARAM, st)
      | Some d \<Rightarrow>
          if \<not> adf_vf2pf_available st then (- EIO, st)
          else let (ret, resp, s1) = adf_send_vf2pf_req bus (Some d) \<lparr>msg_data = 5, msg_type = 0x06\<rparr> (csrs st);
                   st1 = st\<lparr>csrs := s1\<rparr>
               in if ret \<noteq> 0 then (ret, adf_set_vf2pf_available VF2PF_NOT_AVAILABLE st1)
                  else case resp of
                         None \<Rightarrow> (ret, st1)
                       | Some m \<Rightarrow>
                           let version = ucast (compat_resp_version m) :: u32
                           in if msg_type m \<noteq> 0x02 then (- EFAULT, st1)
                              else if compat_resp_compat m \<noteq> ADF_PF2VF_VF_COMPATIBLE \<and>
                                \<not> (compat_resp_compat m = ADF_PF2VF_VF_COMPAT_UNKNOWN \<and>
                                   version \<ge> ADF_PFVF_COMPAT_RING_TO_SVC_MAP \<and> version < ADF_PFVF_COMPAT_THIS_VERSION)
                              then (- EFAULT, st1)
                              else (0, st1\<lparr>pfvf := Some (d\<lparr>compat_version := version\<rparr>)\<rparr>))"

section \<open>Block messages\<close>

text \<open>Fields of packed structures.\<close>

definition le16 :: "u8 list \<Rightarrow> nat \<Rightarrow> u16" where
  "le16 b i = ucast (b ! i) OR push_bit 8 (ucast (b ! (i + 1)))"

definition le32 :: "u8 list \<Rightarrow> nat \<Rightarrow> u32" where
  "le32 b i = ucast (b ! i) OR push_bit 8 (ucast (b ! (i + 1))) OR
     push_bit 16 (ucast (b ! (i + 2))) OR push_bit 24 (ucast (b ! (i + 3)))"

abbreviation sizeof_ring_to_svc_map_v1 :: u16 where "sizeof_ring_to_svc_map_v1 \<equiv> 4"
abbreviation sizeof_capabilities_v1 :: u16 where "sizeof_capabilities_v1 \<equiv> 6"
abbreviation sizeof_capabilities_v2 :: u16 where "sizeof_capabilities_v2 \<equiv> 10"
abbreviation sizeof_capabilities_v3 :: u16 where "sizeof_capabilities_v3 \<equiv> 14"

definition adf_vf2pf_get_ring_to_svc :: "'s csr_bus \<Rightarrow> 's vf_state \<Rightarrow> (int \<times> 's vf_state) option" where
  "adf_vf2pf_get_ring_to_svc bus st =
     (case pfvf st of
        None \<Rightarrow> Some (CPA_STATUS_INVALID_PARAM, st)
      | Some d \<Rightarrow>
          if \<not> adf_vf2pf_available st then Some (- EIO, st)
          else if compat_version d < ADF_PFVF_COMPAT_RING_TO_SVC_MAP then Some (- EFAULT, st)
          else case adf_send_vf2pf_blkmsg_req bus (Some d) 0x03
                 (replicate (unat sizeof_ring_to_svc_map_v1) 0) sizeof_ring_to_svc_map_v1 (csrs st) of
                 None \<Rightarrow> None
               | Some (ret, msg, len, s1) \<Rightarrow>
                   let st1 = st\<lparr>csrs := s1\<rparr>
                   in if ret \<noteq> 0 then Some (- EFAULT, adf_set_vf2pf_available VF2PF_NOT_AVAILABLE st1)
                      else if len < sizeof_ring_to_svc_map_v1 then Some (- EFAULT, st1)
                      else Some (0, st1\<lparr>pfvf := Some (d\<lparr>ring_to_svc_map := ucast (le16 msg 2)\<rparr>)\<rparr>))"

text \<open>The cases of the switch, each falling through to the next.\<close>

definition cap_v1 :: "u8 list \<Rightarrow> u16 \<Rightarrow> int \<times> adf_pfvf_dev_data \<Rightarrow> int \<times> adf_pfvf_dev_data" where
  "cap_v1 msg len = (\<lambda>(ret, d).
     if len \<ge> sizeof_capabilities_v1 then (ret, d\<lparr>ext_dc_caps := le32 msg 2\<rparr>) else (- EFAULT, d))"

definition cap_v2 :: "u8 list \<Rightarrow> u16 \<Rightarrow> int \<times> adf_pfvf_dev_data \<Rightarrow> int \<times> adf_pfvf_dev_data" where
  "cap_v2 msg len = (\<lambda>(ret, d). cap_v1 msg len
     (if len \<ge> sizeof_capabilities_v2 then (ret, d\<lparr>capabilities := le32 msg 6\<rparr>) else (- EFAULT, d)))"

definition cap_v3 :: "u8 list \<Rightarrow> u16 \<Rightarrow> int \<times> adf_pfvf_dev_data \<Rightarrow> int \<times> adf_pfvf_dev_data" where
  "cap_v3 msg len = (\<lambda>(ret, d). cap_v2 msg len
     (if len \<ge> sizeof_capabilities_v3 then (ret, d\<lparr>frequency := le32 msg 10\<rparr>) else (- EFAULT, d)))"

definition cap_switch :: "u8 list \<Rightarrow> u16 \<Rightarrow> int \<times> adf_pfvf_dev_data \<Rightarrow> int \<times> adf_pfvf_dev_data" where
  "cap_switch msg len =
     (if msg ! 0 = 0x02 then cap_v2 msg len
      else if msg ! 0 = 0x01 then cap_v1 msg len
      else cap_v3 msg len)"

definition adf_vf2pf_get_capabilities :: "'s csr_bus \<Rightarrow> 's vf_state \<Rightarrow> (int \<times> 's vf_state) option" where
  "adf_vf2pf_get_capabilities bus st =
     (case pfvf st of
        None \<Rightarrow> Some (CPA_STATUS_INVALID_PARAM, st)
      | Some d \<Rightarrow>
          if \<not> adf_vf2pf_available st then Some (- EIO, st)
          else if compat_version d < ADF_PFVF_COMPAT_CAPABILITIES then Some (- EFAULT, st)
          else case adf_send_vf2pf_blkmsg_req bus (Some d) 0x02
                 (replicate (unat sizeof_capabilities_v3) 0) sizeof_capabilities_v3 (csrs st) of
                 None \<Rightarrow> None
               | Some (ret, msg, len, s1) \<Rightarrow>
                   let st1 = st\<lparr>csrs := s1\<rparr>
                   in if ret \<noteq> 0 then Some (- EFAULT, adf_set_vf2pf_available VF2PF_NOT_AVAILABLE st1)
                      else let (ret, d1) = cap_switch msg len (0, d)
                           in Some (ret, st1\<lparr>pfvf := Some d1\<rparr>))"

definition adf_check_pf2vf_notification :: "'s csr_bus \<Rightarrow> 's vf_state \<Rightarrow> int \<times> 's vf_state" where
  "adf_check_pf2vf_notification bus st =
     (case pfvf st of
        None \<Rightarrow> (CPA_STATUS_INVALID_PARAM, st)
      | Some d \<Rightarrow> let (m, s1) = adf_recv_pf2vf_msg bus (Some d) (csrs st)
                  in (int (unat (msg_type m)), st\<lparr>csrs := s1\<rparr>))"

section \<open>Operations as steps\<close>

datatype vf_op = NotifyInit | NotifyShutdown | RestartingComplete | CheckCompat | GetRingToSvc | GetCapabilities
  | CheckNotification

inductive vf_step :: "'s csr_bus \<Rightarrow> vf_op \<Rightarrow> 's vf_state \<Rightarrow> 's vf_state \<Rightarrow> bool" for bus where
  init: "adf_vf2pf_notify_init bus st = (ret, st') \<Longrightarrow> vf_step bus NotifyInit st st'"
| shutdown: "vf_step bus NotifyShutdown st (adf_vf2pf_notify_shutdown bus st)"
| restarting: "vf_step bus RestartingComplete st (adf_vf2pf_notify_restarting_complete bus st)"
| compat: "adf_vf2pf_check_compat_version bus st = (ret, st') \<Longrightarrow> vf_step bus CheckCompat st st'"
| ring_to_svc: "adf_vf2pf_get_ring_to_svc bus st = Some (ret, st') \<Longrightarrow> vf_step bus GetRingToSvc st st'"
| get_caps: "adf_vf2pf_get_capabilities bus st = Some (ret, st') \<Longrightarrow> vf_step bus GetCapabilities st st'"
| notification: "adf_check_pf2vf_notification bus st = (ret, st') \<Longrightarrow> vf_step bus CheckNotification st st'"

inductive_cases vf_stepE: "vf_step bus op st st'"

inductive vf_run :: "'s csr_bus \<Rightarrow> 's vf_state \<Rightarrow> 's vf_state \<Rightarrow> bool" for bus where
  vf_refl: "vf_run bus st st"
| vf_next: "\<lbrakk>vf_run bus st st1; vf_step bus op st1 st2\<rbrakk> \<Longrightarrow> vf_run bus st st2"

lemmas vf_ops = adf_vf2pf_notify_init_def adf_vf2pf_notify_shutdown_def adf_vf2pf_notify_restarting_complete_def
  notify_end_def adf_vf2pf_check_compat_version_def adf_vf2pf_get_ring_to_svc_def adf_vf2pf_get_capabilities_def
  adf_check_pf2vf_notification_def adf_set_vf2pf_available_def adf_vf2pf_available_def

text \<open>
  A well-formed state: the flag is one of its three values, the device has the layout of its
  generation, it is initialised or not, and its version fits the field of the message.
\<close>

definition dev_wf :: "adf_pfvf_dev_data \<Rightarrow> bool" where
  "dev_wf d \<longleftrightarrow> gen4_layout d \<and> local_csr_offset d = 0x100C \<and> remote_csr_offset d = 0x1008 \<and>
     (pfvf_initialized d = 0 \<or> pfvf_initialized d = 1) \<and> unat (compat_version d) < 256 \<and>
     unat (ring_to_svc_map d) < 65536"

definition vf_wf :: "'s vf_state \<Rightarrow> bool" where
  "vf_wf st \<longleftrightarrow> vf2pf_available st \<in> {VF2PF_MAYBE_AVAILABLE, VF2PF_NOT_AVAILABLE, VF2PF_AVAILABLE} \<and>
     (case pfvf st of None \<Rightarrow> True | Some d \<Rightarrow> dev_wf d)"

lemma unat_ucast_lt:
  "unat (ucast (x :: u8) :: u32) < 256" "unat (ucast (y :: u16) :: u32) < 65536"
  by (rule le_less_trans [of _ "unat x"], simp add: unsigned_ucast_eq take_bit_nat_less_eq_self,
      use unsigned_less [of x, where ?'a = nat] in simp)
    (rule le_less_trans [of _ "unat y"], simp add: unsigned_ucast_eq take_bit_nat_less_eq_self,
      use unsigned_less [of y, where ?'a = nat] in simp)

lemma cap_switch_keeps:
  assumes "cap_switch msg len (r, d) = (ret, d')"
  shows "\<exists>f c e. d' = d\<lparr>frequency := f, capabilities := c, ext_dc_caps := e\<rparr>"
  using assms
  apply (cases d)
  apply (auto simp: cap_switch_def cap_v1_def cap_v2_def cap_v3_def split: if_splits prod.splits)
  done

lemma dev_wf_keeps:
  "dev_wf d \<Longrightarrow> dev_wf (d\<lparr>frequency := f, capabilities := c, ext_dc_caps := e\<rparr>)"
  by (simp add: dev_wf_def gen4_layout_def)

lemma dev_wf_fields:
  assumes "dev_wf d"
  shows "dev_wf (d\<lparr>pfvf_initialized := 1\<rparr>)" "dev_wf (d\<lparr>pfvf_initialized := 0\<rparr>)"
    "dev_wf (d\<lparr>compat_version := ucast (v :: u8)\<rparr>)" "dev_wf (d\<lparr>ring_to_svc_map := ucast (m :: u16)\<rparr>)"
  using assms unat_ucast_lt by (simp_all add: dev_wf_def gen4_layout_def)

text \<open>What an operation may change.\<close>

definition vf_change :: "'s vf_state \<Rightarrow> 's vf_state \<Rightarrow> bool" where
  "vf_change st st' \<longleftrightarrow> st' = st \<or>
     (\<exists>d s1. pfvf st = Some d \<and> vf2pf_available st \<noteq> 0 \<and>
        (st' = st\<lparr>csrs := s1\<rparr> \<or> st' = st\<lparr>csrs := s1, vf2pf_available := 0\<rparr> \<or>
         (\<exists>d'. (dev_wf d \<longrightarrow> dev_wf d') \<and> st' = st\<lparr>csrs := s1, pfvf := Some d'\<rparr>)))"

lemma vf_changeI:
  assumes "pfvf st = Some d" and "vf2pf_available st \<noteq> 0"
  shows "vf_change st (st\<lparr>csrs := s1\<rparr>)" "vf_change st (st\<lparr>csrs := s1, vf2pf_available := 0\<rparr>)"
    "(dev_wf d \<Longrightarrow> dev_wf d') \<Longrightarrow> vf_change st (st\<lparr>csrs := s1, pfvf := Some d'\<rparr>)"
  unfolding vf_change_def using assms by blast+

lemma caps_change:
  assumes "adf_vf2pf_get_capabilities bus st = Some (ret, st')"
  shows "vf_change st st'"
proof (cases "\<exists>d. pfvf st = Some d \<and> vf2pf_available st \<noteq> 0 \<and> \<not> compat_version d < ADF_PFVF_COMPAT_CAPABILITIES")
  case False
  then have "st' = st" using assms by (auto simp: vf_ops split: option.splits if_splits)
  then show ?thesis by (simp add: vf_change_def)
next
  case True
  then obtain d where d: "pfvf st = Some d" "vf2pf_available st \<noteq> 0" "\<not> compat_version d < ADF_PFVF_COMPAT_CAPABILITIES"
    by blast
  then obtain r msg len s1 where q: "adf_send_vf2pf_blkmsg_req bus (Some d) 0x02
      (replicate 14 0) sizeof_capabilities_v3 (csrs st) = Some (r, msg, len, s1)"
    using assms by (auto simp: vf_ops split: option.splits)
  obtain r2 d1 where sw: "cap_switch msg len (0, d) = (r2, d1)" by (cases rule: prod.exhaust)
  have "st' = st\<lparr>csrs := s1, vf2pf_available := 0\<rparr> \<or> st' = st\<lparr>csrs := s1, pfvf := Some d1\<rparr>"
    using assms d q sw by (auto simp: vf_ops Let_def split: if_splits)
  moreover have "dev_wf d \<Longrightarrow> dev_wf d1" using cap_switch_keeps [OF sw] dev_wf_keeps by auto
  ultimately show ?thesis using vf_changeI [OF d(1,2)] by auto
qed

lemma ring_to_svc_change:
  assumes "adf_vf2pf_get_ring_to_svc bus st = Some (ret, st')"
  shows "vf_change st st'"
proof (cases "\<exists>d. pfvf st = Some d \<and> vf2pf_available st \<noteq> 0 \<and> \<not> compat_version d < ADF_PFVF_COMPAT_RING_TO_SVC_MAP")
  case False
  then have "st' = st" using assms by (auto simp: vf_ops split: option.splits if_splits)
  then show ?thesis by (simp add: vf_change_def)
next
  case True
  then obtain d where d: "pfvf st = Some d" "vf2pf_available st \<noteq> 0" "\<not> compat_version d < ADF_PFVF_COMPAT_RING_TO_SVC_MAP"
    by blast
  then obtain r msg len s1 where q: "adf_send_vf2pf_blkmsg_req bus (Some d) 0x03
      (replicate 4 0) sizeof_ring_to_svc_map_v1 (csrs st) = Some (r, msg, len, s1)"
    using assms by (auto simp: vf_ops split: option.splits)
  have "st' = st\<lparr>csrs := s1, vf2pf_available := 0\<rparr> \<or> st' = st\<lparr>csrs := s1\<rparr> \<or>
      st' = st\<lparr>csrs := s1, pfvf := Some (d\<lparr>ring_to_svc_map := ucast (le16 msg 2)\<rparr>)\<rparr>"
    using assms d q by (auto simp: vf_ops Let_def split: if_splits)
  then show ?thesis using vf_changeI [OF d(1,2)] dev_wf_fields by auto
qed

lemma compat_change:
  assumes "adf_vf2pf_check_compat_version bus st = (ret, st')"
  shows "vf_change st st'"
proof (cases "\<exists>d. pfvf st = Some d \<and> vf2pf_available st \<noteq> 0")
  case False
  then have "st' = st" using assms by (auto simp: vf_ops split: option.splits if_splits)
  then show ?thesis by (simp add: vf_change_def)
next
  case True
  then obtain d where d: "pfvf st = Some d" "vf2pf_available st \<noteq> 0" by blast
  obtain r resp s1 where q: "adf_send_vf2pf_req bus (Some d) \<lparr>msg_data = 5, msg_type = 0x06\<rparr> (csrs st) = (r, resp, s1)"
    by (cases rule: prod_cases3)
  have "st' = st\<lparr>csrs := s1, vf2pf_available := 0\<rparr> \<or> st' = st\<lparr>csrs := s1\<rparr> \<or>
      (\<exists>v :: u8. st' = st\<lparr>csrs := s1, pfvf := Some (d\<lparr>compat_version := ucast v\<rparr>)\<rparr>)"
    using assms d q by (auto simp: vf_ops Let_def split: if_splits option.splits)
  then show ?thesis using vf_changeI [OF d] dev_wf_fields by auto
qed

lemma init_change:
  assumes "adf_vf2pf_notify_init bus st = (ret, st')"
  shows "vf_change st st'"
proof (cases "\<exists>d. pfvf st = Some d \<and> vf2pf_available st \<noteq> 0")
  case False
  then have "st' = st" using assms by (auto simp: vf_ops split: option.splits if_splits)
  then show ?thesis by (simp add: vf_change_def)
next
  case True
  then obtain d where d: "pfvf st = Some d" "vf2pf_available st \<noteq> 0" by blast
  obtain r s1 where q: "adf_send_vf2pf_msg bus (Some d) \<lparr>msg_data = 0, msg_type = 0x03\<rparr> (csrs st) = (r, s1)"
    by (cases rule: prod.exhaust)
  have "st' = st\<lparr>csrs := s1, vf2pf_available := 0\<rparr> \<or> st' = st\<lparr>csrs := s1, pfvf := Some (d\<lparr>pfvf_initialized := 1\<rparr>)\<rparr>"
    using assms d q by (auto simp: vf_ops Let_def split: if_splits)
  then show ?thesis using vf_changeI [OF d] dev_wf_fields by auto
qed

lemma notify_end_change: "vf_change st (notify_end ty bus st)"
proof (cases "\<exists>d. pfvf st = Some d \<and> vf2pf_available st \<noteq> 0 \<and> pfvf_initialized d \<noteq> 0")
  case False
  then have "notify_end ty bus st = st" by (auto simp: vf_ops split: option.splits)
  then show ?thesis by (simp add: vf_change_def)
next
  case True
  then obtain d where d: "pfvf st = Some d" "vf2pf_available st \<noteq> 0" "pfvf_initialized d \<noteq> 0" by blast
  obtain r s1 where q: "adf_send_vf2pf_msg bus (Some d) \<lparr>msg_data = 0, msg_type = ty\<rparr> (csrs st) = (r, s1)"
    by (cases rule: prod.exhaust)
  have "notify_end ty bus st = st\<lparr>csrs := s1, vf2pf_available := 0\<rparr> \<or>
      notify_end ty bus st = st\<lparr>csrs := s1, pfvf := Some (d\<lparr>pfvf_initialized := 0\<rparr>)\<rparr>"
    using d q by (auto simp: vf_ops Let_def)
  then show ?thesis using vf_changeI [OF d(1,2)] dev_wf_fields by auto
qed

lemma vf_step_change:
  assumes "vf_step bus op st st'"
  shows "vf_change st st' \<or> (\<exists>s1. op = CheckNotification \<and> st' = st\<lparr>csrs := s1\<rparr>)"
  using assms
proof (cases rule: vf_step.cases)
  case (notification ret)
  then have "st' = st \<or> (\<exists>s1. st' = st\<lparr>csrs := s1\<rparr>)" by (auto simp: vf_ops split: option.splits prod.splits)
  then show ?thesis using notification(1) by (auto simp: vf_change_def)
qed (auto simp: adf_vf2pf_notify_shutdown_def adf_vf2pf_notify_restarting_complete_def notify_end_change
    intro: caps_change ring_to_svc_change compat_change init_change)

lemma vf_change_wf: "vf_change st st' \<Longrightarrow> vf_wf st \<Longrightarrow> vf_wf st'"
  by (auto simp: vf_change_def vf_wf_def)

lemma vf_step_total: "\<exists>st'. vf_step bus op st st'"
proof (cases op)
  case NotifyInit
  then show ?thesis using vf_step.init by (metis prod.exhaust)
next
  case CheckCompat
  then show ?thesis using vf_step.compat by (metis prod.exhaust)
next
  case CheckNotification
  then show ?thesis using vf_step.notification by (metis prod.exhaust)
next
  case GetRingToSvc
  have len: "unat (4 :: u16) \<le> length (replicate 4 (0 :: u8))" by simp
  have "\<exists>r. adf_vf2pf_get_ring_to_svc bus st = Some r"
    using blkmsg_any [OF len, of bus "pfvf st" 3 "csrs st"]
    by (auto simp: vf_ops Let_def split: option.splits)
  then show ?thesis using GetRingToSvc vf_step.ring_to_svc by fastforce
next
  case GetCapabilities
  have len: "unat (14 :: u16) \<le> length (replicate 14 (0 :: u8))" by simp
  have "\<exists>r. adf_vf2pf_get_capabilities bus st = Some r"
    using blkmsg_any [OF len, of bus "pfvf st" 2 "csrs st"]
    by (auto simp: vf_ops Let_def split: option.splits prod.splits)
  then show ?thesis using GetCapabilities vf_step.get_caps by fastforce
qed (auto intro: vf_step.intros)

section \<open>Reading fields\<close>

lemma le32_take:
  assumes "take n a = take n b" and "i + 4 \<le> n"
  shows "le32 a i = le32 b i"
proof -
  have "a ! j = b ! j" if "j < n" for j using nth_take [OF that, of a] nth_take [OF that, of b] assms(1) by simp
  then show ?thesis using assms(2) by (simp add: le32_def)
qed

text \<open>The device data after the first \<open>n\<close> bytes of a capabilities message have been received.\<close>

definition with_caps :: "u8 list \<Rightarrow> nat \<Rightarrow> adf_pfvf_dev_data \<Rightarrow> adf_pfvf_dev_data" where
  "with_caps blk n d =
     d\<lparr>ext_dc_caps := if 6 \<le> n then le32 blk 2 else ext_dc_caps d,
       capabilities := if 10 \<le> n \<and> blk ! 0 \<noteq> 1 then le32 blk 6 else capabilities d,
       frequency := if 14 \<le> n \<and> blk ! 0 \<noteq> 1 \<and> blk ! 0 \<noteq> 2 then le32 blk 10 else frequency d\<rparr>"

text \<open>The size of the version of a capabilities message that the code knows.\<close>

definition caps_size :: "u8 \<Rightarrow> nat" where
  "caps_size ver = (if ver = 1 then 6 else if ver = 2 then 10 else 14)"

lemma cap_switch_eq:
  assumes t: "take n msg = take n blk" and n: "2 \<le> n" "n \<le> 14" and ver: "blk ! 0 \<noteq> 0"
  shows "cap_switch msg (of_nat n) (0, d) = (if caps_size (blk ! 0) \<le> n then 0 else - EFAULT, with_caps blk n d)"
proof -
  have nn: "unat (of_nat n :: u16) = n" using n by (simp add: unat_of_nat)
  have le: "(6 :: u16) \<le> of_nat n \<longleftrightarrow> 6 \<le> n" "(10 :: u16) \<le> of_nat n \<longleftrightarrow> 10 \<le> n" "(14 :: u16) \<le> of_nat n \<longleftrightarrow> 14 \<le> n"
    by (simp_all add: word_le_nat_alt nn)
  have v: "msg ! 0 = blk ! 0" using n(1) t by (metis nth_take gr0I not_numeral_le_zero)
  have f: "6 \<le> n \<Longrightarrow> le32 msg 2 = le32 blk 2" "10 \<le> n \<Longrightarrow> le32 msg 6 = le32 blk 6" "14 \<le> n \<Longrightarrow> le32 msg 10 = le32 blk 10"
    using le32_take [OF t] by auto
  show ?thesis
    unfolding cap_switch_def cap_v1_def cap_v2_def cap_v3_def v with_caps_def caps_size_def le by (cases d) (auto simp: f)
qed


section \<open>Properties\<close>

text \<open>C26. Every operation on a well-formed state has a result, whatever the physical function answers, and
  leaves a well-formed state.\<close>

theorem vf_step_type:
  assumes "vf_wf st"
  shows "(\<exists>st'. vf_step bus op st st') \<and> (\<forall>st'. vf_step bus op st st' \<longrightarrow> vf_wf st')"
proof (intro conjI allI impI)
  show "\<exists>st'. vf_step bus op st st'" by (rule vf_step_total)
  fix st' assume "vf_step bus op st st'"
  from vf_step_change [OF this] show "vf_wf st'" using assms vf_change_wf by (auto simp: vf_wf_def)
qed

lemma example_wf: "vf_wf \<lparr>vf2pf_available = - 1, pfvf = Some example_dev, csrs = (0, 0)\<rparr>"
  by (simp add: vf_wf_def dev_wf_def example_dev_fields) (simp add: example_dev_def adf_init_pfvf_dev_data_def zero_dev_data_def)

theorem vf_step_type_witness:
  "\<exists>st'. vf_step (example_bus 12 0) GetCapabilities \<lparr>vf2pf_available = - 1, pfvf = Some example_dev, csrs = (0, 0)\<rparr> st' \<and>
     vf_wf st'"
  using vf_step_type [OF example_wf, of "example_bus 12 0" GetCapabilities] by blast

lemma vf_run_flag:
  assumes "vf_run bus st0 st"
  shows "(vf2pf_available st = vf2pf_available st0 \<or> vf2pf_available st = 0) \<and>
    (vf2pf_available st0 = 0 \<longrightarrow> pfvf st = pfvf st0)"
  using assms
proof (induction rule: vf_run.induct)
  case (vf_next st st1 op st2)
  from vf_step_change [OF vf_next.hyps(2)] show ?case using vf_next.IH by (auto simp: vf_change_def)
qed simp

text \<open>C27. The availability flag only ever goes from its initial value to "not available", and stays there:
  in no run of the operations does an acknowledged message mark the channel as available, and after
  one failure no operation but the check for notifications touches the device again.\<close>

theorem vf_availability:
  assumes "vf_run bus st0 st" and "vf2pf_available st0 = VF2PF_MAYBE_AVAILABLE"
  shows "vf2pf_available st \<in> {VF2PF_MAYBE_AVAILABLE, VF2PF_NOT_AVAILABLE} \<and>
    (vf2pf_available st = VF2PF_NOT_AVAILABLE \<longrightarrow>
      (\<forall>st'. vf_run bus st st' \<longrightarrow> vf2pf_available st' = VF2PF_NOT_AVAILABLE \<and> pfvf st' = pfvf st) \<and>
      (\<forall>op st'. vf_step bus op st st' \<longrightarrow> op \<noteq> CheckNotification \<longrightarrow> st' = st))"
proof -
  have quiet: "st' = st" if "vf2pf_available st = 0" "vf_step bus op st st'" "op \<noteq> CheckNotification" for op st'
    using vf_step_change [OF that(2)] that(1,3) by (auto simp: vf_change_def)
  have stays: "vf2pf_available st' = 0 \<and> pfvf st' = pfvf st" if "vf2pf_available st = 0" "vf_run bus st st'" for st'
    using vf_run_flag [OF that(2)] that(1) by auto
  have "vf2pf_available st = -1 \<or> vf2pf_available st = 0" using vf_run_flag [OF assms(1)] assms(2) by simp
  then show ?thesis using quiet stays by simp
qed

theorem vf_availability_witness:
  "\<exists>st'. vf_step (example_bus 1 0) NotifyInit \<lparr>vf2pf_available = - 1, pfvf = Some example_dev, csrs = (0, 0)\<rparr> st' \<and>
     vf2pf_available st' \<in> {VF2PF_MAYBE_AVAILABLE, VF2PF_NOT_AVAILABLE}"
proof -
  let ?st = "\<lparr>vf2pf_available = - 1, pfvf = Some example_dev, csrs = (0, 0)\<rparr> :: (u32 \<times> u32) vf_state"
  obtain st' where s: "vf_step (example_bus 1 0) NotifyInit ?st st'" using vf_step_total by blast
  have "vf_run (example_bus 1 0) ?st st'" by (rule vf_run.vf_next [OF vf_run.vf_refl s])
  from vf_availability [OF this] s show ?thesis by auto
qed

text \<open>C21. The capabilities arrive: if the physical function serves a well-formed capabilities message of any
  version, \<open>adf_vf2pf_get_capabilities\<close> stores exactly the fields the message has, keeps the others, and
  returns 0 if the message is as long as its version says, EFAULT otherwise.\<close>

theorem capabilities_delivered:
  assumes srv: "pf_serves bus d ready serve" and wf: "dev_wf d" and "ready s"
    and blk: "length blk = 2 + unat (blk ! 1)" "blk ! 0 \<noteq> 0" "blk ! 1 \<noteq> 0" "unat (blk ! 1) \<le> 30"
    and data: "\<forall>j < length blk. serve 2 (of_nat j) False = blk ! j"
    and n: "n = min (length blk) 14"
    and crc: "adf_pfvf_calc_blkmsg_crc blk (of_nat n) = Some (serve 2 (of_nat (n - 1)) True)"
    and st: "st = \<lparr>vf2pf_available = VF2PF_MAYBE_AVAILABLE, pfvf = Some d, csrs = s\<rparr>" and ver: "2 \<le> compat_version d"
  shows "\<exists>s'. adf_vf2pf_get_capabilities bus st =
    Some (if caps_size (blk ! 0) \<le> n then 0 else - EFAULT, st\<lparr>pfvf := Some (with_caps blk n d), csrs := s'\<rparr>)"
proof -
  have d: "gen4_layout d" using wf by (simp add: dev_wf_def)
  have mp: "unat (blk ! 1) \<le> max_payload 2" using blk(4) by (simp add: max_payload_def)
  have le: "n \<le> 14" "2 \<le> n" using n blk(1) by auto
  have q: "\<exists>msg s'. adf_send_vf2pf_blkmsg_req bus (Some d) 2 (replicate 14 0) 14 s = Some (0, msg, of_nat n, s') \<and>
      take n msg = take n blk \<and> length msg = length (replicate 14 (0 :: u8)) \<and> ready s'"
    by (rule blkmsg_delivered [OF srv d assms(3) _ blk(1,2,3) mp data _ _ _ crc]) (simp_all add: n)
  then obtain msg s' where q: "take n msg = take n blk"
      "adf_send_vf2pf_blkmsg_req bus (Some d) 2 (replicate 14 0) 14 s = Some (0, msg, of_nat n, s')" by blast
  have nv: "\<not> compat_version d < 2" using ver by simp
  show ?thesis
    using q(2) cap_switch_eq [OF q(1) le(2,1) blk(2), of d] nv
    by (simp add: st adf_vf2pf_get_capabilities_def adf_vf2pf_available_def)
qed

lemma serves_version:
  assumes "pf_serves bus d ready serve"
  shows "pf_serves bus (d\<lparr>compat_version := v\<rparr>) ready serve"
proof -
  have "ack_loop bus (d\<lparr>compat_version := v\<rparr>) b n s = ack_loop bus d b n s" for b n s
    by (induction n arbitrary: s) (simp_all split: prod.splits)
  moreover have "raw_message (d\<lparr>compat_version := v\<rparr>) m = raw_message d m" for m by (simp add: raw_message_def)
  ultimately show ?thesis using assms by (simp add: pf_serves_def adf_pfvf_msg_ack_timed_out_def)
qed

theorem capabilities_delivered_witness:
  "\<exists>k s'. adf_vf2pf_get_capabilities (example_bus 12 k)
       \<lparr>vf2pf_available = -1, pfvf = Some (example_dev\<lparr>compat_version := 5\<rparr>), csrs = (0, 0)\<rparr> =
     Some (0, \<lparr>vf2pf_available = -1, pfvf = Some (example_dev\<lparr>compat_version := 5, ext_dc_caps := 0x0C0C0C0C,
         capabilities := 0x0C0C0C0C, frequency := 0x0C0C0C0C\<rparr>), csrs = s'\<rparr>)"
proof -
  let ?blk = "replicate 14 12 :: u8 list" and ?d = "example_dev\<lparr>compat_version := 5\<rparr>"
  obtain k where k: "adf_pfvf_calc_blkmsg_crc ?blk 14 = Some k"
    using crc8_loop_eq [of 14 ?blk "0xFF"] by (auto simp: adf_pfvf_calc_blkmsg_crc_def adf_pfvf_crc_def)
  have wf: "dev_wf ?d"
    by (simp add: dev_wf_def gen4_layout_def example_dev_def adf_init_pfvf_dev_data_def zero_dev_data_def)
  have blk: "length ?blk = 2 + unat (?blk ! 1)" "?blk ! 0 \<noteq> 0" "?blk ! 1 \<noteq> 0" "unat (?blk ! 1) \<le> 30" "caps_size (?blk ! 0) = 14"
    by (simp_all add: caps_size_def)
  have data: "\<forall>j < length ?blk. (if False then k else 12) = ?blk ! j" by simp
  have f: "le32 ?blk 2 = 0x0C0C0C0C" "le32 ?blk 6 = 0x0C0C0C0C" "le32 ?blk 10 = 0x0C0C0C0C"
    by (simp_all add: le32_def)
  have "\<exists>s'. adf_vf2pf_get_capabilities (example_bus 12 k) \<lparr>vf2pf_available = -1, pfvf = Some ?d, csrs = (0, 0)\<rparr> =
    Some (if caps_size (?blk ! 0) \<le> 14 then 0 else - EFAULT,
      \<lparr>vf2pf_available = -1, pfvf = Some ?d, csrs = (0, 0)\<rparr>\<lparr>pfvf := Some (with_caps ?blk 14 ?d), csrs := s'\<rparr>)"
    by (rule capabilities_delivered [OF serves_version [OF example_serves] wf _ blk(1,2,3,4) data])
      (simp_all add: k)
  moreover have "with_caps ?blk 14 ?d = ?d\<lparr>ext_dc_caps := 0x0C0C0C0C, capabilities := 0x0C0C0C0C, frequency := 0x0C0C0C0C\<rparr>"
    unfolding with_caps_def f by simp
  ultimately show ?thesis unfolding blk(5) by auto
qed

end
