(* ===== verification/Qat_Mgr_Config.thy ===== *)
theory Qat_Mgr_Config
  imports Adf_Pfvf_Vf
begin

text \<open>
  The configuration that the manager builds from the list of virtual functions
  (\<open>vfio/qat_mgr_lib.c\<close>, \<open>qat_mgr.h\<close>): sections for processes, the devices of a section and the
  instances of a device with their banks.  The file system, VFIO and memory allocation are the
  environment, a parameter.  C strings are lists of characters without the final zero; arrays are
  lists, and an access outside an array gives \<open>None\<close>.
\<close>

section \<open>Formatting\<close>

definition digit :: "nat \<Rightarrow> char" where
  "digit n = char_of (if n < 10 then 48 + n else 87 + n)"

fun dec :: "nat \<Rightarrow> string" where
  "dec n = (if n < 10 then [digit n] else dec (n div 10) @ [digit (n mod 10)])"

fun hex :: "nat \<Rightarrow> string" where
  "hex n = (if n < 16 then [digit n] else hex (n div 16) @ [digit (n mod 16)])"

declare dec.simps [simp del] hex.simps [simp del]

definition hex_pad :: "nat \<Rightarrow> nat \<Rightarrow> string" where
  "hex_pad w n = (let s = hex n in replicate (w - length s) (CHR ''0'') @ s)"

definition ICP_STRLCPY :: "string \<Rightarrow> nat \<Rightarrow> string" where
  "ICP_STRLCPY src dstsize = take (dstsize - 1) src"

abbreviation (input) QATMGR_MAX_STRLEN :: nat where "QATMGR_MAX_STRLEN \<equiv> 256"
abbreviation (input) DEVICE_NAME_SIZE :: nat where "DEVICE_NAME_SIZE \<equiv> 64"
abbreviation (input) INSTANCES_PER_DEVICE :: nat where "INSTANCES_PER_DEVICE \<equiv> 4"
abbreviation (input) VM_PACKAGE_ID_NONE :: u16 where "VM_PACKAGE_ID_NONE \<equiv> 0xFFFF"
abbreviation (input) ADF_MAX_DEVICES :: nat where "ADF_MAX_DEVICES \<equiv> 1024"
abbreviation (input) ADF_MAX_PF_DEVICES :: int where "ADF_MAX_PF_DEVICES \<equiv> 32"
abbreviation (input) PF_INFO_UNINITIALISED :: int where "PF_INFO_UNINITIALISED \<equiv> - 1"
abbreviation (input) EAGAIN :: int where "EAGAIN \<equiv> 11"
abbreviation (input) ENOMEM :: int where "ENOMEM \<equiv> 12"

abbreviation (input) SERV_TYPE_DC :: u16 where "SERV_TYPE_DC \<equiv> 1"
abbreviation (input) SERV_TYPE_SYM :: u16 where "SERV_TYPE_SYM \<equiv> 2"
abbreviation (input) SERV_TYPE_ASYM :: u16 where "SERV_TYPE_ASYM \<equiv> 4"
abbreviation (input) SERV_TYPE_CY :: u16 where "SERV_TYPE_CY \<equiv> 6"
abbreviation (input) SERV_TYPE_SYM_DC :: u16 where "SERV_TYPE_SYM_DC \<equiv> 3"
abbreviation (input) SERV_TYPE_ASYM_DC :: u16 where "SERV_TYPE_ASYM_DC \<equiv> 5"

section \<open>Data\<close>

record qatmgr_dev_data =
  bdf :: u32
  vfio_file :: string
  dd_group_fd :: int
  devid :: u32

record qatmgr_instance_data =
  inst_name :: string
  inst_accelid :: nat
  service_type :: u16
  bank_number :: nat
  ring_tx :: nat
  ring_rx :: nat
  is_polled :: nat
  num_concurrent_requests :: nat
  core_affinity :: nat

record qatmgr_cy_instance_data =
  asym :: qatmgr_instance_data
  sym :: qatmgr_instance_data

record qatmgr_device_data =
  device_id :: string
  device_file :: string
  group_fd :: int
  accelid :: nat
  dev_name :: string
  node :: u32
  max_banks :: nat
  max_rings_per_bank :: nat
  dev_arb_mask :: nat
  accel_capabilities :: u64
  extended_capabilities :: u64
  device_type :: nat
  pci_id :: u16
  pkg_id :: u16
  services :: u16
  num_cy_inst :: nat
  num_sym_inst :: nat
  num_asym_inst :: nat
  num_dc_inst :: nat
  dc_instance_data :: "qatmgr_instance_data list"
  cy_instance_data :: "qatmgr_cy_instance_data list"

record qatmgr_section_data =
  section_name :: string
  base_name :: string
  assigned_tid :: u64
  num_devices :: nat
  device_data :: "qatmgr_device_data list"

record pf_capabilities =
  caps_pf :: u32
  caps_ext_dc :: u32
  caps_capabilities :: u32

record accel_pf_info =
  pf_pkg_id :: u32
  pf_domain :: u16
  pf_bdf :: u16
  pf_device_gen :: string

record 's mgr_state =
  section_data :: "qatmgr_section_data list"
  pf_capabilities_head :: "pf_capabilities list"
  num_pfs :: int
  pf_data :: "accel_pf_info list"
  mgr_vf2pf :: int
  mgr_csrs :: 's

definition zero_instance :: qatmgr_instance_data where
  "zero_instance = \<lparr>inst_name = [], inst_accelid = 0, service_type = 0, bank_number = 0, ring_tx = 0, ring_rx = 0,
     is_polled = 0, num_concurrent_requests = 0, core_affinity = 0\<rparr>"

definition zero_cy_instance :: qatmgr_cy_instance_data where
  "zero_cy_instance = \<lparr>asym = zero_instance, sym = zero_instance\<rparr>"

definition zero_device :: qatmgr_device_data where
  "zero_device = \<lparr>device_id = [], device_file = [], group_fd = 0, accelid = 0, dev_name = [], node = 0, max_banks = 0,
     max_rings_per_bank = 0, dev_arb_mask = 0, accel_capabilities = 0, extended_capabilities = 0, device_type = 0,
     pci_id = 0, pkg_id = 0, services = 0, num_cy_inst = 0, num_sym_inst = 0, num_asym_inst = 0, num_dc_inst = 0,
     dc_instance_data = [], cy_instance_data = []\<rparr>"

definition zero_section :: qatmgr_section_data where
  "zero_section = \<lparr>section_name = [], base_name = [], assigned_tid = 0, num_devices = 0, device_data = []\<rparr>"

section \<open>The environment\<close>

text \<open>Where memory is allocated; a section, or a device of a section, is given by its index.\<close>

datatype alloc_site = AllocSections | AllocDevices nat | AllocCaps nat nat | AllocDc nat nat | AllocCy nat nat

text \<open>
  Opening a device gives an error code and the address of its registers; \<open>env_pfs\<close> is what
  \<open>adf_vfio_init_pfs_info\<close> returns and fills in; \<open>env_hcreate\<close> tells whether the n-th hash table can be
  created and \<open>env_room\<close> whether an entry can be added to a table with n entries.
\<close>

record 's mgr_env =
  env_bus :: "'s csr_bus"
  env_open :: "qatmgr_device_data \<Rightarrow> u32 \<Rightarrow> 's \<Rightarrow> (int \<times> u64) \<times> 's"
  env_close :: "'s \<Rightarrow> 's"
  env_pfs :: "int \<times> accel_pf_info list"
  env_nprocs :: nat
  env_hcreate :: "nat \<Rightarrow> bool"
  env_room :: "nat \<Rightarrow> bool"
  env_calloc :: "alloc_site \<Rightarrow> bool"

section \<open>Addresses and device kinds\<close>

definition BDF_NODE :: "u32 \<Rightarrow> u32" where "BDF_NODE b = drop_bit 16 b"
definition BDF_BUS :: "u32 \<Rightarrow> u32" where "BDF_BUS b = drop_bit 8 b AND 0xFF"
definition BDF_DEV :: "u32 \<Rightarrow> u32" where "BDF_DEV b = drop_bit 3 b AND 0x1F"
definition BDF_FUN :: "u32 \<Rightarrow> u32" where "BDF_FUN b = b AND 0x7"
definition BDF_PF :: "u32 \<Rightarrow> u32" where "BDF_PF b = b AND 0xFFFFFF00"
definition PF :: "u32 \<Rightarrow> u32" where "PF b = BDF_BUS b + push_bit 8 (BDF_NODE b)"

definition qat_device_type :: "u32 \<Rightarrow> nat" where
  "qat_device_type pci =
     (if pci = 0x4941 \<or> pci = 0x4943 \<or> pci = 0x4945 then 14
      else if pci = 0x4947 then 16 else 0)"

definition qat_device_name :: "u32 \<Rightarrow> string" where
  "qat_device_name pci =
     (if pci = 0x4941 then ''4xxxvf''
      else if pci = 0x4943 then ''401xxvf''
      else if pci = 0x4945 then ''402xxvf''
      else if pci = 0x4947 then ''420xxvf''
      else ''unknown'')"

section \<open>The cache of capabilities\<close>

definition find_pf_capabilities :: "u32 \<Rightarrow> 's mgr_state \<Rightarrow> pf_capabilities option" where
  "find_pf_capabilities pf st = List.find (\<lambda>c. caps_pf c = pf) (pf_capabilities_head st)"

definition add_pf_capabilities :: "pf_capabilities \<Rightarrow> 's mgr_state \<Rightarrow> 's mgr_state" where
  "add_pf_capabilities caps st = st\<lparr>pf_capabilities_head := caps # pf_capabilities_head st\<rparr>"

definition cleanup_capabilities_cache :: "'s mgr_state \<Rightarrow> 's mgr_state" where
  "cleanup_capabilities_cache st = st\<lparr>pf_capabilities_head := []\<rparr>"

definition qat_mgr_cleanup_cfg :: "'s mgr_state \<Rightarrow> 's mgr_state" where
  "qat_mgr_cleanup_cfg st = cleanup_capabilities_cache (st\<lparr>section_data := []\<rparr>)"

text \<open>
  Asking a device for its capabilities.  The result has the error code, whether the versions are
  compatible, both capability words, the device (its group descriptor is consumed) and the state.
\<close>

definition qat_mgr_get_device_capabilities ::
  "'s mgr_env \<Rightarrow> qatmgr_device_data \<Rightarrow> u32 \<Rightarrow> 's mgr_state \<Rightarrow>
   (int \<times> bool \<times> u32 \<times> u32 \<times> qatmgr_device_data \<times> 's mgr_state) option" where
  "qat_mgr_get_device_capabilities env d pci st =
     (let ((ret, addr), s1) = env_open env d pci (mgr_csrs st)
      in if ret \<noteq> 0 then Some (ret, True, 0, 0, d, st\<lparr>mgr_csrs := s1\<rparr>)
         else
           let vf = \<lparr>vf2pf_available = mgr_vf2pf st, pfvf = Some (adf_init_pfvf_dev_data addr pci), csrs = s1\<rparr>;
               (ret, vf1) = adf_vf2pf_check_compat_version (env_bus env) vf;
               d1 = d\<lparr>group_fd := - 1\<rparr>;
               closed = (\<lambda>v. st\<lparr>mgr_vf2pf := vf2pf_available v, mgr_csrs := env_close env (csrs v)\<rparr>)
           in if ret \<noteq> 0 then Some (ret, \<not> adf_vf2pf_available vf1, 0, 0, d1, closed vf1)
              else case adf_vf2pf_get_capabilities (env_bus env) vf1 of
                     None \<Rightarrow> None
                   | Some (ret, vf2) \<Rightarrow>
                       if ret \<noteq> 0 then Some (ret, True, 0, 0, d1, closed vf2)
                       else case pfvf vf2 of
                              None \<Rightarrow> None
                            | Some p \<Rightarrow> Some (0, True, ext_dc_caps p, capabilities p, d1, closed vf2))"

section \<open>Banks\<close>

definition calculate_bank_number :: "qatmgr_device_data \<Rightarrow> u16 \<Rightarrow> nat \<Rightarrow> nat" where
  "calculate_bank_number device instance_service inst_idx =
     (if services device = SERV_TYPE_CY
      then (if instance_service = SERV_TYPE_ASYM then (inst_idx mod num_cy_inst device) * 2
            else (inst_idx mod num_cy_inst device) * 2 + 1)
      else if services device = SERV_TYPE_SYM then inst_idx mod num_sym_inst device
      else if services device = SERV_TYPE_ASYM then inst_idx mod num_asym_inst device
      else if services device = SERV_TYPE_DC then inst_idx mod num_dc_inst device
      else if services device = SERV_TYPE_ASYM_DC
      then (if instance_service = SERV_TYPE_ASYM then (inst_idx mod num_asym_inst device) * 2 + 1
            else (inst_idx mod num_dc_inst device) * 2)
      else if services device = SERV_TYPE_SYM_DC
      then (if instance_service = SERV_TYPE_SYM then (inst_idx mod num_sym_inst device) * 2 + 1
            else (inst_idx mod num_dc_inst device) * 2)
      else inst_idx mod INSTANCES_PER_DEVICE)"

text \<open>The array of physical functions; entries not filled in are zero.\<close>

definition pf_at :: "'s mgr_state \<Rightarrow> nat \<Rightarrow> accel_pf_info" where
  "pf_at st i =
     (if i < length (pf_data st) then pf_data st ! i
      else \<lparr>pf_pkg_id = 0, pf_domain = 0, pf_bdf = 0, pf_device_gen = []\<rparr>)"

definition get_pkg_id :: "u32 \<Rightarrow> 's mgr_state \<Rightarrow> u16 option" where
  "get_pkg_id vf_bdf st =
     (if num_pfs st = 0 then Some VM_PACKAGE_ID_NONE
      else map_option (\<lambda>i. of_nat i)
        (List.find (\<lambda>i. pf_bdf (pf_at st i) = ucast (BDF_PF vf_bdf)) [0..<nat (num_pfs st)]))"

section \<open>A device\<close>

definition device_services :: "u64 \<Rightarrow> u16" where
  "device_services caps =
     (if caps AND 0x01 \<noteq> 0 then SERV_TYPE_SYM else 0) OR
     (if caps AND 0x02 \<noteq> 0 then SERV_TYPE_ASYM else 0) OR
     (if caps AND 0x20 \<noteq> 0 then SERV_TYPE_DC else 0)"

text \<open>The numbers of instances; \<open>None\<close> for an unknown configuration.\<close>

definition device_instances :: "qatmgr_device_data \<Rightarrow> qatmgr_device_data option" where
  "device_instances d =
     (if services d = SERV_TYPE_CY
      then Some (d\<lparr>num_sym_inst := INSTANCES_PER_DEVICE div 2, num_asym_inst := INSTANCES_PER_DEVICE div 2,
                   num_cy_inst := INSTANCES_PER_DEVICE div 2\<rparr>)
      else if services d = SERV_TYPE_SYM
      then Some (d\<lparr>num_sym_inst := INSTANCES_PER_DEVICE, num_cy_inst := INSTANCES_PER_DEVICE\<rparr>)
      else if services d = SERV_TYPE_ASYM
      then Some (d\<lparr>num_asym_inst := INSTANCES_PER_DEVICE, num_cy_inst := INSTANCES_PER_DEVICE\<rparr>)
      else if services d = SERV_TYPE_DC
      then Some (d\<lparr>num_dc_inst := INSTANCES_PER_DEVICE\<rparr>)
      else if services d = SERV_TYPE_ASYM_DC
      then Some (d\<lparr>num_dc_inst := INSTANCES_PER_DEVICE div 2, num_asym_inst := INSTANCES_PER_DEVICE div 2,
                   num_cy_inst := INSTANCES_PER_DEVICE div 2\<rparr>)
      else if services d = SERV_TYPE_SYM_DC
      then Some (d\<lparr>num_dc_inst := INSTANCES_PER_DEVICE div 2, num_sym_inst := INSTANCES_PER_DEVICE div 2,
                   num_cy_inst := INSTANCES_PER_DEVICE div 2\<rparr>)
      else None)"

definition new_instance :: "qatmgr_device_data \<Rightarrow> string \<Rightarrow> u16 \<Rightarrow> nat \<Rightarrow> nat \<Rightarrow> nat \<Rightarrow> qatmgr_instance_data" where
  "new_instance d nm ty k conc core =
     \<lparr>inst_name = ICP_STRLCPY nm QATMGR_MAX_STRLEN, inst_accelid = accelid d, service_type = ty,
      bank_number = calculate_bank_number d ty k, ring_tx = 0, ring_rx = 1, is_polled = 1,
      num_concurrent_requests = conc, core_affinity = core\<rparr>"

text \<open>The three loops that fill the instances, with the number of rounds left.\<close>

fun asym_loop ::
  "nat \<Rightarrow> qatmgr_device_data \<Rightarrow> nat \<Rightarrow> nat \<Rightarrow> nat \<times> nat \<Rightarrow> qatmgr_cy_instance_data list \<Rightarrow>
   ((nat \<times> nat) \<times> qatmgr_cy_instance_data list) option" where
  "asym_loop procs d 0 k (cnt, core) cy = Some ((cnt, core), cy)"
| "asym_loop procs d (Suc n) k (cnt, core) cy =
     (if k < length cy
      then asym_loop procs d n (Suc k) (Suc cnt, (core + 1) mod procs)
             (cy[k := (cy ! k)\<lparr>asym := new_instance d (''asym'' @ dec cnt) SERV_TYPE_ASYM k 64 core\<rparr>])
      else None)"

fun sym_loop ::
  "nat \<Rightarrow> qatmgr_device_data \<Rightarrow> nat \<Rightarrow> nat \<Rightarrow> nat \<times> nat \<Rightarrow> qatmgr_cy_instance_data list \<Rightarrow>
   ((nat \<times> nat) \<times> qatmgr_cy_instance_data list) option" where
  "sym_loop procs d 0 k (cnt, core) cy = Some ((cnt, core), cy)"
| "sym_loop procs d (Suc n) k (cnt, core) cy =
     (if k < length cy
      then sym_loop procs d n (Suc k) (Suc cnt, (core + 1) mod procs)
             (cy[k := (cy ! k)\<lparr>sym := new_instance d (''sym'' @ dec cnt) SERV_TYPE_SYM k 512 core\<rparr>])
      else None)"

fun dc_loop ::
  "nat \<Rightarrow> qatmgr_device_data \<Rightarrow> nat \<Rightarrow> nat \<Rightarrow> nat \<times> nat \<Rightarrow> qatmgr_instance_data list \<Rightarrow>
   ((nat \<times> nat) \<times> qatmgr_instance_data list) option" where
  "dc_loop procs d 0 k (cnt, core) dc = Some ((cnt, core), dc)"
| "dc_loop procs d (Suc n) k (cnt, core) dc =
     (if k < length dc
      then dc_loop procs d n (Suc k) (Suc cnt, (core + 1) mod procs)
             (dc[k := new_instance d (''dc'' @ dec cnt) SERV_TYPE_DC k 512 core])
      else None)"

text \<open>The counters of a section and the next core.\<close>

record counters =
  section_num_sym_inst :: nat
  section_num_asym_inst :: nat
  section_num_dc_inst :: nat
  next_core :: nat

definition fill_instances ::
  "nat \<Rightarrow> qatmgr_device_data \<Rightarrow> counters \<Rightarrow> (qatmgr_device_data \<times> counters) option" where
  "fill_instances procs d c =
     (case asym_loop procs d (num_asym_inst d) 0 (section_num_asym_inst c, next_core c) (cy_instance_data d) of
        None \<Rightarrow> None
      | Some ((na, core1), cy1) \<Rightarrow>
          (case sym_loop procs d (num_sym_inst d) 0 (section_num_sym_inst c, core1) cy1 of
             None \<Rightarrow> None
           | Some ((ns, core2), cy2) \<Rightarrow>
               (case dc_loop procs d (num_dc_inst d) 0 (section_num_dc_inst c, core2) (dc_instance_data d) of
                  None \<Rightarrow> None
                | Some ((nd, core3), dc) \<Rightarrow>
                    Some (d\<lparr>cy_instance_data := cy2, dc_instance_data := dc\<rparr>,
                          \<lparr>section_num_sym_inst = ns, section_num_asym_inst = na, section_num_dc_inst = nd,
                           next_core = core3\<rparr>))))"

text \<open>
  How a step ends: it goes on, it returns an error after the clean-up, or it returns an error and
  leaves what has been built.
\<close>

datatype build_status = Done | Failed int | Left int

definition bdf_string :: "u32 \<Rightarrow> string" where
  "bdf_string b = hex_pad 4 (unat (BDF_NODE b)) @ '':'' @ hex_pad 2 (unat (BDF_BUS b)) @ '':'' @
     hex_pad 2 (unat (BDF_DEV b)) @ ''.'' @ hex_pad 1 (unat (BDF_FUN b))"

definition device_base :: "nat \<Rightarrow> qatmgr_dev_data \<Rightarrow> u16 \<Rightarrow> qatmgr_device_data" where
  "device_base j dd pkg =
     zero_device
       \<lparr>device_id := ICP_STRLCPY (bdf_string (bdf dd)) DEVICE_NAME_SIZE,
        device_file := ICP_STRLCPY (vfio_file dd) DEVICE_NAME_SIZE,
        group_fd := dd_group_fd dd, accelid := j, node := BDF_NODE (bdf dd),
        pkg_id := if pkg = VM_PACKAGE_ID_NONE then of_nat j else pkg,
        max_banks := 4, max_rings_per_bank := 2, dev_arb_mask := 1,
        accel_capabilities := 0x01 OR 0x02 OR 0x04 OR 0x08 OR 0x200 OR 0x8000 OR 0x1000 OR 0x2000 OR 0x20000 OR
          0x10000 OR 0x4000000,
        extended_capabilities := 0\<rparr>"

text \<open>The capabilities of a device: from the cache, from the device, or the default ones.\<close>

definition device_caps ::
  "'s mgr_env \<Rightarrow> bool \<Rightarrow> nat \<Rightarrow> nat \<Rightarrow> qatmgr_dev_data \<Rightarrow> qatmgr_device_data \<Rightarrow> 's mgr_state \<Rightarrow>
   (build_status \<times> qatmgr_device_data \<times> 's mgr_state) option" where
  "device_caps env vm i j dd d st =
     (case (if vm then None else find_pf_capabilities (PF (bdf dd)) st) of
        Some c \<Rightarrow>
          Some (Done, d\<lparr>accel_capabilities := ucast (caps_capabilities c), extended_capabilities := ucast (caps_ext_dc c)\<rparr>, st)
      | None \<Rightarrow>
          if mgr_vf2pf st = VF2PF_NOT_AVAILABLE then Some (Done, d, st)
          else
            case qat_mgr_get_device_capabilities env d (devid dd) st of
              None \<Rightarrow> None
            | Some (ret, compatible, ext, caps, d1, st1) \<Rightarrow>
                if ret = 0
                then let d2 = d1\<lparr>accel_capabilities := ucast caps, extended_capabilities := ucast ext\<rparr>
                     in if vm then Some (Done, d2, st1)
                        else if env_calloc env (AllocCaps i j)
                        then Some (Done, d2, add_pf_capabilities
                               \<lparr>caps_pf = PF (bdf dd), caps_ext_dc = ext, caps_capabilities = caps\<rparr> st1)
                        else Some (Failed (- EAGAIN), d2, st1)
                else if \<not> compatible then Some (Failed ret, d1, st1)
                else Some (Done, d1, st1))"

text \<open>The services, the numbers of instances, their memory and their data.\<close>

definition device_config ::
  "'s mgr_env \<Rightarrow> nat \<Rightarrow> nat \<Rightarrow> qatmgr_dev_data \<Rightarrow> qatmgr_device_data \<Rightarrow> counters \<Rightarrow>
   (build_status \<times> qatmgr_device_data \<times> counters) option" where
  "device_config env i j dd d c =
     (let d1 = d\<lparr>dev_name := ICP_STRLCPY (qat_device_name (devid dd)) DEVICE_NAME_SIZE,
                 device_type := qat_device_type (devid dd), pci_id := ucast (devid dd),
                 services := device_services (accel_capabilities d)\<rparr>
      in case device_instances d1 of
           None \<Rightarrow> Some (Left (- 1), d1, c)
         | Some d2 \<Rightarrow>
             if num_dc_inst d2 \<noteq> 0 \<and> \<not> env_calloc env (AllocDc i j) then Some (Failed (- EAGAIN), d2, c)
             else if num_cy_inst d2 \<noteq> 0 \<and> \<not> env_calloc env (AllocCy i j) then Some (Failed (- EAGAIN), d2, c)
             else
               case fill_instances (env_nprocs env)
                 (d2\<lparr>dc_instance_data := replicate (num_dc_inst d2) zero_instance,
                     cy_instance_data := replicate (num_cy_inst d2) zero_cy_instance\<rparr>) c of
                 None \<Rightarrow> None
               | Some (d3, c1) \<Rightarrow> Some (Done, d3, c1))"

definition build_device ::
  "'s mgr_env \<Rightarrow> bool \<Rightarrow> nat \<Rightarrow> nat \<Rightarrow> qatmgr_dev_data \<Rightarrow> counters \<Rightarrow> 's mgr_state \<Rightarrow>
   (build_status \<times> qatmgr_device_data \<times> counters \<times> 's mgr_state) option" where
  "build_device env vm i j dd c st =
     (case get_pkg_id (bdf dd) st of
        None \<Rightarrow> Some (Failed (- EAGAIN), device_base j dd 0, c, st)
      | Some pkg \<Rightarrow>
          (case device_caps env vm i j dd (device_base j dd pkg) st of
             None \<Rightarrow> None
           | Some (r, d, st1) \<Rightarrow>
               if r \<noteq> Done then Some (r, d, c, st1)
               else case device_config env i j dd d c of
                      None \<Rightarrow> None
                    | Some (r, d1, c1) \<Rightarrow> Some (r, d1, c1, st1)))"

section \<open>A section\<close>

text \<open>The device loop, with the number of devices left and the part of the list not yet used.\<close>

fun device_loop ::
  "'s mgr_env \<Rightarrow> bool \<Rightarrow> nat \<Rightarrow> nat \<Rightarrow> nat \<Rightarrow> qatmgr_dev_data list \<Rightarrow> counters \<Rightarrow> 's mgr_state \<Rightarrow>
   (build_status \<times> qatmgr_device_data list \<times> qatmgr_dev_data list \<times> counters \<times> 's mgr_state) option" where
  "device_loop env vm i 0 j dds c st = Some (Done, [], dds, c, st)"
| "device_loop env vm i (Suc n) j [] c st = None"
| "device_loop env vm i (Suc n) j (dd # dds) c st =
     (case build_device env vm i j dd c st of
        None \<Rightarrow> None
      | Some (r, d, c1, st1) \<Rightarrow>
          if r \<noteq> Done then Some (r, d # replicate n zero_device, dds, c1, st1)
          else case device_loop env vm i n (Suc j) dds c1 st1 of
                 None \<Rightarrow> None
               | Some (r, ds, rest, c2, st2) \<Rightarrow> Some (r, d # ds, rest, c2, st2))"

definition arr_get :: "nat list \<Rightarrow> nat \<Rightarrow> nat" where
  "arr_get xs i = (if i < length xs then xs ! i else 0)"

definition num_vfs_this_section :: "int \<Rightarrow> nat list \<Rightarrow> nat \<Rightarrow> nat \<Rightarrow> int" where
  "num_vfs_this_section policy groups i left =
     (if policy \<noteq> 0 then (if policy > int left then int left else policy) else int (arr_get groups i))"

definition build_section ::
  "'s mgr_env \<Rightarrow> bool \<Rightarrow> int \<Rightarrow> nat list \<Rightarrow> nat \<Rightarrow> qatmgr_dev_data list \<Rightarrow> nat \<Rightarrow> 's mgr_state \<Rightarrow>
   (build_status \<times> qatmgr_section_data \<times> qatmgr_dev_data list \<times> nat \<times> 's mgr_state) option" where
  "build_section env vm policy groups i dds core st =
     (let n = num_vfs_this_section policy groups i (length dds);
          sec = \<lparr>section_name = ICP_STRLCPY (''SSL_INT_'' @ dec i) QATMGR_MAX_STRLEN,
                 base_name = ICP_STRLCPY ''SSL'' QATMGR_MAX_STRLEN, assigned_tid = 0, num_devices = nat n,
                 device_data = []\<rparr>
      in if n < 0 \<or> \<not> env_calloc env (AllocDevices i) then Some (Failed (- EAGAIN), sec, dds, core, st)
         else case device_loop env vm i (nat n) 0 dds
                \<lparr>section_num_sym_inst = 0, section_num_asym_inst = 0, section_num_dc_inst = 0, next_core = core\<rparr> st of
                None \<Rightarrow> None
              | Some (r, ds, rest, c, st1) \<Rightarrow> Some (r, sec\<lparr>device_data := ds\<rparr>, rest, next_core c, st1))"

fun section_loop ::
  "'s mgr_env \<Rightarrow> bool \<Rightarrow> int \<Rightarrow> nat list \<Rightarrow> nat \<Rightarrow> nat \<Rightarrow> qatmgr_dev_data list \<Rightarrow> nat \<Rightarrow> 's mgr_state \<Rightarrow>
   (build_status \<times> qatmgr_section_data list \<times> 's mgr_state) option" where
  "section_loop env vm policy groups 0 i dds core st = Some (Done, [], st)"
| "section_loop env vm policy groups (Suc n) i dds core st =
     (case build_section env vm policy groups i dds core st of
        None \<Rightarrow> None
      | Some (r, sec, rest, core1, st1) \<Rightarrow>
          if r \<noteq> Done then Some (r, sec # replicate n zero_section, st1)
          else case section_loop env vm policy groups n (Suc i) rest core1 st1 of
                 None \<Rightarrow> None
               | Some (r, secs, st2) \<Rightarrow> Some (r, sec # secs, st2))"

section \<open>The configuration\<close>

text \<open>
  Counting the groups of virtual functions: the hash table is the list of its keys, and the counts of
  the groups come in reverse, the current group first.  The array of counts has
  \<open>ADF_MAX_DEVICES\<close> entries.
\<close>

fun group_loop :: "'s mgr_env \<Rightarrow> u32 list \<Rightarrow> u32 list \<Rightarrow> nat list \<Rightarrow> (int + nat list) option" where
  "group_loop env [] tbl counts = Some (Inr (rev counts))"
| "group_loop env (b # bs) tbl counts =
     (let pf = PF b
      in if pf \<in> set tbl
         then (if \<not> env_hcreate env (length counts) then Some (Inl (- ENOMEM))
               else if length counts \<ge> ADF_MAX_DEVICES then None
               else if \<not> env_room env 0 then Some (Inl (- ENOMEM))
               else group_loop env bs [pf] (1 # counts))
         else (if \<not> env_room env (length tbl) then Some (Inl (- ENOMEM))
               else group_loop env bs (pf # tbl) (case counts of [] \<Rightarrow> [] | c # cs \<Rightarrow> Suc c # cs)))"

definition count_groups :: "'s mgr_env \<Rightarrow> u32 list \<Rightarrow> (int + nat list) option" where
  "count_groups env bdfs = (if \<not> env_hcreate env 0 then Some (Inl (- ENOMEM)) else group_loop env bdfs [] [0])"

text \<open>The number of sections and the sizes of the groups, or an error.\<close>

definition num_sections :: "'s mgr_env \<Rightarrow> qatmgr_dev_data list \<Rightarrow> int \<Rightarrow> bool \<Rightarrow> (int + nat \<times> nat list) option" where
  "num_sections env dev_list policy static_cfg =
     (if \<not> static_cfg
      then case count_groups env (map bdf dev_list) of
             None \<Rightarrow> None
           | Some (Inl e) \<Rightarrow> Some (Inl e)
           | Some (Inr groups) \<Rightarrow>
               let n = (if policy = 0 then int (length groups) else int (length dev_list) div policy)
               in if n \<le> 0 then Some (Inl (- EINVAL)) else Some (Inr (nat n, groups))
      else if int (length dev_list) \<ge> policy then Some (Inr (1, []))
      else Some (Inl (- EINVAL)))"

definition init_pfs :: "'s mgr_env \<Rightarrow> 's mgr_state \<Rightarrow> 's mgr_state" where
  "init_pfs env st =
     (if num_pfs st = PF_INFO_UNINITIALISED then st\<lparr>num_pfs := fst (env_pfs env), pf_data := snd (env_pfs env)\<rparr> else st)"

definition qat_mgr_build_data ::
  "'s mgr_env \<Rightarrow> qatmgr_dev_data list \<Rightarrow> int \<Rightarrow> bool \<Rightarrow> 's mgr_state \<Rightarrow> (int \<times> 's mgr_state) option" where
  "qat_mgr_build_data env dev_list policy static_cfg st =
     (if dev_list = [] then Some (- EINVAL, st)
      else
        let st1 = init_pfs env st
        in if num_pfs st1 < 0 \<or> num_pfs st1 > ADF_MAX_PF_DEVICES then Some (- 1, st1)
           else
             case num_sections env dev_list policy static_cfg of
               None \<Rightarrow> None
             | Some (Inl e) \<Rightarrow>
                 Some (e, if \<not> static_cfg \<and> e = - EINVAL then st1\<lparr>section_data := []\<rparr> else st1)
             | Some (Inr (n, groups)) \<Rightarrow>
                 if \<not> env_calloc env AllocSections then Some (- EAGAIN, qat_mgr_cleanup_cfg st1)
                 else
                   case section_loop env (num_pfs st1 = 0) policy groups n 0 dev_list 0 st1 of
                     None \<Rightarrow> None
                   | Some (Done, secs, st2) \<Rightarrow> Some (0, st2\<lparr>section_data := secs\<rparr>)
                   | Some (Left e, secs, st2) \<Rightarrow> Some (e, st2\<lparr>section_data := secs\<rparr>)
                   | Some (Failed e, secs, st2) \<Rightarrow> Some (e, qat_mgr_cleanup_cfg st2))"

section \<open>Banks are shared out without overlap\<close>

lemma asym_loop_spec:
  assumes "k + n \<le> length cy"
  shows "\<exists>core' cy'. asym_loop procs d n k (cnt, core) cy = Some ((cnt + n, core'), cy') \<and> length cy' = length cy \<and>
    (\<forall>m < length cy. sym (cy' ! m) = sym (cy ! m) \<and>
      (if k \<le> m \<and> m < k + n then bank_number (asym (cy' ! m)) = calculate_bank_number d 4 m
       else asym (cy' ! m) = asym (cy ! m)))"
  using assms
proof (induction n arbitrary: k cnt core cy)
  case (Suc n)
  let ?cy1 = "cy[k := (cy ! k)\<lparr>asym := new_instance d (''asym'' @ dec cnt) 4 k 64 core\<rparr>]"
  have "Suc k + n \<le> length ?cy1" using Suc.prems by simp
  from Suc.IH [OF this, of "Suc cnt" "(core + 1) mod procs"] obtain core' cy' where
    l: "asym_loop procs d n (Suc k) (Suc cnt, (core + 1) mod procs) ?cy1 = Some ((Suc cnt + n, core'), cy')"
       "length cy' = length ?cy1" and
    m: "\<forall>m < length ?cy1. sym (cy' ! m) = sym (?cy1 ! m) \<and>
      (if Suc k \<le> m \<and> m < Suc k + n then bank_number (asym (cy' ! m)) = calculate_bank_number d 4 m
       else asym (cy' ! m) = asym (?cy1 ! m))"
    by blast
  have "sym (cy' ! m) = sym (cy ! m) \<and>
      (if k \<le> m \<and> m < k + Suc n then bank_number (asym (cy' ! m)) = calculate_bank_number d 4 m
       else asym (cy' ! m) = asym (cy ! m))" if "m < length cy" for m
    using m [rule_format, of m] that Suc.prems by (cases "m = k") (auto simp: new_instance_def nth_list_update)
  then show ?case using l Suc.prems by auto
qed auto

lemma sym_loop_spec:
  assumes "k + n \<le> length cy"
  shows "\<exists>core' cy'. sym_loop procs d n k (cnt, core) cy = Some ((cnt + n, core'), cy') \<and> length cy' = length cy \<and>
    (\<forall>m < length cy. asym (cy' ! m) = asym (cy ! m) \<and>
      (if k \<le> m \<and> m < k + n then bank_number (sym (cy' ! m)) = calculate_bank_number d 2 m
       else sym (cy' ! m) = sym (cy ! m)))"
  using assms
proof (induction n arbitrary: k cnt core cy)
  case (Suc n)
  let ?cy1 = "cy[k := (cy ! k)\<lparr>sym := new_instance d (''sym'' @ dec cnt) 2 k 512 core\<rparr>]"
  have "Suc k + n \<le> length ?cy1" using Suc.prems by simp
  from Suc.IH [OF this, of "Suc cnt" "(core + 1) mod procs"] obtain core' cy' where
    l: "sym_loop procs d n (Suc k) (Suc cnt, (core + 1) mod procs) ?cy1 = Some ((Suc cnt + n, core'), cy')"
       "length cy' = length ?cy1" and
    m: "\<forall>m < length ?cy1. asym (cy' ! m) = asym (?cy1 ! m) \<and>
      (if Suc k \<le> m \<and> m < Suc k + n then bank_number (sym (cy' ! m)) = calculate_bank_number d 2 m
       else sym (cy' ! m) = sym (?cy1 ! m))"
    by blast
  have "asym (cy' ! m) = asym (cy ! m) \<and>
      (if k \<le> m \<and> m < k + Suc n then bank_number (sym (cy' ! m)) = calculate_bank_number d 2 m
       else sym (cy' ! m) = sym (cy ! m))" if "m < length cy" for m
    using m [rule_format, of m] that Suc.prems by (cases "m = k") (auto simp: new_instance_def nth_list_update)
  then show ?case using l Suc.prems by auto
qed auto

lemma dc_loop_spec:
  assumes "k + n \<le> length dc"
  shows "\<exists>core' dc'. dc_loop procs d n k (cnt, core) dc = Some ((cnt + n, core'), dc') \<and> length dc' = length dc \<and>
    (\<forall>m < length dc.
      (if k \<le> m \<and> m < k + n then bank_number (dc' ! m) = calculate_bank_number d 1 m else dc' ! m = dc ! m))"
  using assms
proof (induction n arbitrary: k cnt core dc)
  case (Suc n)
  let ?dc1 = "dc[k := new_instance d (''dc'' @ dec cnt) 1 k 512 core]"
  have "Suc k + n \<le> length ?dc1" using Suc.prems by simp
  from Suc.IH [OF this, of "Suc cnt" "(core + 1) mod procs"] obtain core' dc' where
    l: "dc_loop procs d n (Suc k) (Suc cnt, (core + 1) mod procs) ?dc1 = Some ((Suc cnt + n, core'), dc')"
       "length dc' = length ?dc1" and
    m: "\<forall>m < length ?dc1. (if Suc k \<le> m \<and> m < Suc k + n then bank_number (dc' ! m) = calculate_bank_number d 1 m
       else dc' ! m = ?dc1 ! m)"
    by blast
  have "if k \<le> m \<and> m < k + Suc n then bank_number (dc' ! m) = calculate_bank_number d 1 m else dc' ! m = dc ! m"
    if "m < length dc" for m
    using m [rule_format, of m] that Suc.prems by (cases "m = k") (auto simp: new_instance_def nth_list_update)
  then show ?case using l Suc.prems by auto
qed auto

text \<open>The instances of a device, in the order they are made.\<close>

definition device_insts :: "qatmgr_device_data \<Rightarrow> qatmgr_instance_data list" where
  "device_insts d =
     map asym (take (num_asym_inst d) (cy_instance_data d)) @ map sym (take (num_sym_inst d) (cy_instance_data d)) @
     take (num_dc_inst d) (dc_instance_data d)"

text \<open>What the sizes of the arrays of a device have to be.\<close>

definition device_wf :: "qatmgr_device_data \<Rightarrow> bool" where
  "device_wf d \<longleftrightarrow> length (cy_instance_data d) = num_cy_inst d \<and> length (dc_instance_data d) = num_dc_inst d \<and>
     num_sym_inst d \<le> num_cy_inst d \<and> num_asym_inst d \<le> num_cy_inst d"

lemma fill_instances_spec:
  assumes wf: "device_wf d"
  shows "\<exists>d' c'. fill_instances procs d c = Some (d', c') \<and>
    (\<exists>cy dc. d' = d\<lparr>cy_instance_data := cy, dc_instance_data := dc\<rparr>) \<and> device_wf d' \<and>
    map bank_number (device_insts d') =
      map (calculate_bank_number d 4) [0..<num_asym_inst d] @ map (calculate_bank_number d 2) [0..<num_sym_inst d] @
      map (calculate_bank_number d 1) [0..<num_dc_inst d]"
proof -
  have len: "0 + num_asym_inst d \<le> length (cy_instance_data d)" using wf by (simp add: device_wf_def)
  obtain core1 cy1 where a: "asym_loop procs d (num_asym_inst d) 0 (section_num_asym_inst c, next_core c) (cy_instance_data d) =
      Some ((section_num_asym_inst c + num_asym_inst d, core1), cy1)" "length cy1 = length (cy_instance_data d)"
      "\<forall>m < num_asym_inst d. bank_number (asym (cy1 ! m)) = calculate_bank_number d 4 m"
    using asym_loop_spec [OF len, of procs d "section_num_asym_inst c" "next_core c"] len by fastforce
  have len: "0 + num_sym_inst d \<le> length cy1" using wf a(2) by (simp add: device_wf_def)
  obtain core2 cy2 where s: "sym_loop procs d (num_sym_inst d) 0 (section_num_sym_inst c, core1) cy1 =
      Some ((section_num_sym_inst c + num_sym_inst d, core2), cy2)" "length cy2 = length cy1"
      "\<forall>m < num_sym_inst d. bank_number (sym (cy2 ! m)) = calculate_bank_number d 2 m"
      "\<forall>m < length cy1. asym (cy2 ! m) = asym (cy1 ! m)"
    using sym_loop_spec [OF len, of procs d "section_num_sym_inst c" core1] len by fastforce
  have len: "0 + num_dc_inst d \<le> length (dc_instance_data d)" using wf by (simp add: device_wf_def)
  obtain core3 dc where dc: "dc_loop procs d (num_dc_inst d) 0 (section_num_dc_inst c, core2) (dc_instance_data d) =
      Some ((section_num_dc_inst c + num_dc_inst d, core3), dc)" "length dc = length (dc_instance_data d)"
      "\<forall>m < num_dc_inst d. bank_number (dc ! m) = calculate_bank_number d 1 m"
    using dc_loop_spec [OF len, of procs d "section_num_dc_inst c" core2] len by fastforce
  let ?d' = "d\<lparr>cy_instance_data := cy2, dc_instance_data := dc\<rparr>"
  have le: "num_asym_inst d \<le> length cy1" "num_sym_inst d \<le> length cy2" "num_dc_inst d \<le> length dc"
    using wf a(2) s(2) dc(2) by (simp_all add: device_wf_def)
  have "map bank_number (map asym (take (num_asym_inst d) cy2)) = map (calculate_bank_number d 4) [0..<num_asym_inst d]"
    "map bank_number (map sym (take (num_sym_inst d) cy2)) = map (calculate_bank_number d 2) [0..<num_sym_inst d]"
    "map bank_number (take (num_dc_inst d) dc) = map (calculate_bank_number d 1) [0..<num_dc_inst d]"
    using a(3) s(2,3,4) dc(3) le by (auto intro!: nth_equalityI)
  then have "map bank_number (device_insts ?d') =
      map (calculate_bank_number d 4) [0..<num_asym_inst d] @ map (calculate_bank_number d 2) [0..<num_sym_inst d] @
      map (calculate_bank_number d 1) [0..<num_dc_inst d]"
    by (simp add: device_insts_def)
  moreover have "device_wf ?d'" using wf a(2) s(2) dc(2) by (simp add: device_wf_def)
  moreover have "\<exists>c'. fill_instances procs d c = Some (?d', c')" by (simp add: fill_instances_def a(1) s(1) dc(1))
  ultimately show ?thesis by blast
qed

definition no_insts :: "qatmgr_device_data \<Rightarrow> bool" where
  "no_insts d \<longleftrightarrow> num_cy_inst d = 0 \<and> num_sym_inst d = 0 \<and> num_asym_inst d = 0 \<and> num_dc_inst d = 0 \<and>
     cy_instance_data d = [] \<and> dc_instance_data d = []"

lemma no_insts_wf: "no_insts d \<Longrightarrow> device_wf d"
  by (simp add: no_insts_def device_wf_def)

lemma device_instances_cases:
  assumes e: "device_instances d = Some d2" and n: "no_insts d"
  shows "(services d2, num_asym_inst d2, num_sym_inst d2, num_dc_inst d2, num_cy_inst d2) \<in>
    {(6, 2, 2, 0, 2), (2, 0, 4, 0, 4), (4, 4, 0, 0, 4), (1, 0, 0, 4, 0), (5, 2, 0, 2, 2), (3, 0, 2, 2, 2)}"
proof -
  have d2: "d2 = the (device_instances d)" using e by simp
  have z: "num_cy_inst d = 0" "num_sym_inst d = 0" "num_asym_inst d = 0" "num_dc_inst d = 0"
    using n by (simp_all add: no_insts_def)
  have "services d = 6 \<or> services d = 2 \<or> services d = 4 \<or> services d = 1 \<or> services d = 5 \<or> services d = 3"
    using e unfolding device_instances_def by (metis option.distinct(1))
  then show ?thesis unfolding d2 by (elim disjE) (simp_all add: device_instances_def z)
qed

lemma device_instances_frame:
  assumes "device_instances d = Some d2"
  shows "\<exists>a b c e. d2 = d\<lparr>num_sym_inst := a, num_asym_inst := b, num_cy_inst := c, num_dc_inst := e\<rparr>"
proof -
  have "d = d\<lparr>num_sym_inst := num_sym_inst d, num_asym_inst := num_asym_inst d, num_cy_inst := num_cy_inst d,
      num_dc_inst := num_dc_inst d\<rparr>" by simp
  then show ?thesis using assms by (cases d) (auto simp: device_instances_def split: if_splits)
qed

lemma bank_lists:
  assumes "(services d, num_asym_inst d, num_sym_inst d, num_dc_inst d, num_cy_inst d) \<in>
    {(6, 2, 2, 0, 2), (2, 0, 4, 0, 4), (4, 4, 0, 0, 4), (1, 0, 0, 4, 0), (5, 2, 0, 2, 2), (3, 0, 2, 2, 2)}"
  shows "map (calculate_bank_number d 4) [0..<num_asym_inst d] @ map (calculate_bank_number d 2) [0..<num_sym_inst d] @
    map (calculate_bank_number d 1) [0..<num_dc_inst d] \<in>
    {[0, 2, 1, 3], [0, 1, 2, 3], [1, 3, 0, 2]}"
proof -
  have u: "[0..<4] = [0, 1, 2, 3]" "[0..<2] = [0, 1]" by (simp_all add: upt_rec)
  show ?thesis using assms by (elim insertE emptyE) (simp_all add: u calculate_bank_number_def)
qed

text \<open>An error code is never 0.\<close>

fun status_ok :: "build_status \<Rightarrow> bool" where
  "status_ok Done \<longleftrightarrow> True"
| "status_ok (Failed e) \<longleftrightarrow> e \<noteq> 0"
| "status_ok (Left e) \<longleftrightarrow> e \<noteq> 0"

lemma device_config_spec:
  assumes "no_insts d"
  shows "\<exists>r d' c'. device_config env i j dd d c = Some (r, d', c') \<and> status_ok r \<and>
    device_file d' = device_file d \<and> device_id d' = device_id d \<and> accelid d' = accelid d \<and> max_banks d' = max_banks d \<and>
    ((\<forall>e. r \<noteq> Failed e) \<longrightarrow> device_wf d') \<and>
    (r = Done \<longrightarrow> distinct (map bank_number (device_insts d')) \<and> set (map bank_number (device_insts d')) = {0..<4} \<and>
      pci_id d' = ucast (devid dd))"
proof -
  let ?d1 = "d\<lparr>dev_name := ICP_STRLCPY (qat_device_name (devid dd)) 64,
     device_type := qat_device_type (devid dd), pci_id := ucast (devid dd), services := device_services (accel_capabilities d)\<rparr>"
  have n1: "no_insts ?d1" using assms by (simp add: no_insts_def)
  show ?thesis
  proof (cases "device_instances ?d1")
    case None
    then have e: "device_config env i j dd d c = Some (Left (- 1), ?d1, c)" by (simp add: device_config_def)
    then show ?thesis using no_insts_wf [OF n1] by simp
  next
    case (Some d2)
    let ?d3 = "d2\<lparr>dc_instance_data := replicate (num_dc_inst d2) zero_instance,
       cy_instance_data := replicate (num_cy_inst d2) zero_cy_instance\<rparr>"
    obtain n1 n2 n3 n4 where d2: "d2 = ?d1\<lparr>num_sym_inst := n1, num_asym_inst := n2, num_cy_inst := n3, num_dc_inst := n4\<rparr>"
      using device_instances_frame [OF Some] by blast
    have f: "device_file d2 = device_file d" "device_id d2 = device_id d" "accelid d2 = accelid d" "max_banks d2 = max_banks d"
        "pci_id d2 = ucast (devid dd)"
      by (simp_all add: d2)
    have sizes: "num_sym_inst d2 \<le> num_cy_inst d2" "num_asym_inst d2 \<le> num_cy_inst d2"
      using device_instances_cases [OF Some n1] by auto
    have b: "calculate_bank_number ?d3 = calculate_bank_number d2" by (intro ext) (simp add: calculate_bank_number_def)
    have wf3: "device_wf ?d3" using sizes by (simp add: device_wf_def)
    from fill_instances_spec [OF wf3, of "env_nprocs env" c] obtain d4 c4 cy dc where fi:
      "fill_instances (env_nprocs env) ?d3 c = Some (d4, c4)" "d4 = ?d3\<lparr>cy_instance_data := cy, dc_instance_data := dc\<rparr>"
      "device_wf d4" and banks: "map bank_number (device_insts d4) = map (calculate_bank_number d2 4) [0..<num_asym_inst d2] @
        map (calculate_bank_number d2 2) [0..<num_sym_inst d2] @ map (calculate_bank_number d2 1) [0..<num_dc_inst d2]"
      unfolding b by auto
    have "map bank_number (device_insts d4) \<in> {[0, 2, 1, 3], [0, 1, 2, 3], [1, 3, 0, 2]}"
      unfolding banks by (rule bank_lists [OF device_instances_cases [OF Some n1]])
    then have ok: "distinct (map bank_number (device_insts d4)) \<and> set (map bank_number (device_insts d4)) = {0..<4}"
      by (elim insertE emptyE; simp only:) (auto simp: atLeast0_lessThan_Suc numeral_eq_Suc)
    have f4: "device_file d4 = device_file d" "device_id d4 = device_id d" "accelid d4 = accelid d" "max_banks d4 = max_banks d"
        "pci_id d4 = ucast (devid dd)"
      unfolding fi(2) using f by simp_all
    have "device_config env i j dd d c = Some (Failed (- 11), d2, c) \<or> device_config env i j dd d c = Some (Done, d4, c4)"
      using Some fi(1) by (auto simp: device_config_def)
    then show ?thesis using f f4 ok fi(3) by auto
  qed
qed

section \<open>Building in bounds\<close>

lemma get_capabilities_total: "\<exists>ret st'. adf_vf2pf_get_capabilities bus st = Some (ret, st')"
proof -
  obtain st' where "vf_step bus GetCapabilities st st'" using vf_step_total by blast
  then show ?thesis by cases auto
qed

lemma vf_change_some: "vf_change st st' \<Longrightarrow> pfvf st = Some d \<Longrightarrow> \<exists>d'. pfvf st' = Some d'"
  by (auto simp: vf_change_def)

lemma self_fd: "\<exists>fd. d = d\<lparr>group_fd := fd\<rparr>"
  by (rule exI [of _ "group_fd d"]) simp

lemma self_vf: "\<exists>v. st\<lparr>mgr_csrs := s\<rparr> = st\<lparr>mgr_vf2pf := v, mgr_csrs := s\<rparr>"
  by (rule exI [of _ "mgr_vf2pf st"]) simp

lemma query_spec:
  "\<exists>ret co ext caps fd v s. qat_mgr_get_device_capabilities env d pci st =
     Some (ret, co, ext, caps, d\<lparr>group_fd := fd\<rparr>, st\<lparr>mgr_vf2pf := v, mgr_csrs := s\<rparr>)"
proof -
  obtain ret addr s1 where o: "env_open env d pci (mgr_csrs st) = ((ret, addr), s1)" by (metis prod.exhaust)
  let ?vf = "\<lparr>vf2pf_available = mgr_vf2pf st, pfvf = Some (adf_init_pfvf_dev_data addr pci), csrs = s1\<rparr>"
  obtain r1 vf1 where c: "adf_vf2pf_check_compat_version (env_bus env) ?vf = (r1, vf1)" by (cases rule: prod.exhaust)
  obtain r2 vf2 where g: "adf_vf2pf_get_capabilities (env_bus env) vf1 = Some (r2, vf2)"
    using get_capabilities_total by blast
  obtain p1 where p1: "pfvf vf1 = Some p1" using vf_change_some [OF compat_change [OF c]] by auto
  obtain p2 where p2: "pfvf vf2 = Some p2" using vf_change_some [OF caps_change [OF g] p1] by auto
  show ?thesis
  proof (cases "ret = 0")
    case True
    let ?closed = "\<lambda>v. st\<lparr>mgr_vf2pf := vf2pf_available v, mgr_csrs := env_close env (csrs v)\<rparr>"
    have "qat_mgr_get_device_capabilities env d pci st =
      Some (if r1 \<noteq> 0 then (r1, \<not> adf_vf2pf_available vf1, 0, 0, d\<lparr>group_fd := - 1\<rparr>, ?closed vf1)
            else if r2 \<noteq> 0 then (r2, True, 0, 0, d\<lparr>group_fd := - 1\<rparr>, ?closed vf2)
            else (0, True, ext_dc_caps p2, capabilities p2, d\<lparr>group_fd := - 1\<rparr>, ?closed vf2))"
      unfolding qat_mgr_get_device_capabilities_def by (simp add: True o c g p2)
    then show ?thesis by (cases "r1 = 0"; cases "r2 = 0") (simp; blast)+
  next
    case False
    then have "qat_mgr_get_device_capabilities env d pci st = Some (ret, True, 0, 0, d, st\<lparr>mgr_csrs := s1\<rparr>)"
      using o by (simp add: qat_mgr_get_device_capabilities_def)
    then show ?thesis using self_fd [of d] self_vf [of s1 st] by metis
  qed
qed

definition same_cfg :: "'s mgr_state \<Rightarrow> 's mgr_state \<Rightarrow> bool" where
  "same_cfg st st' \<longleftrightarrow> section_data st' = section_data st \<and> num_pfs st' = num_pfs st \<and> pf_data st' = pf_data st"

lemma same_cfg_trans: "same_cfg a b \<Longrightarrow> same_cfg b c \<Longrightarrow> same_cfg a c"
  by (simp add: same_cfg_def)

lemma device_caps_result:
  assumes "device_caps env vm i j dd d st = Some (r, d\<lparr>accel_capabilities := a, extended_capabilities := e, group_fd := fd\<rparr>, st')"
    and "same_cfg st st'" and "\<And>e. r \<noteq> Left e" and "status_ok r"
  shows "\<exists>r a e fd st'. device_caps env vm i j dd d st =
     Some (r, d\<lparr>accel_capabilities := a, extended_capabilities := e, group_fd := fd\<rparr>, st') \<and> same_cfg st st' \<and>
     (\<forall>e. r \<noteq> Left e) \<and> status_ok r"
  using assms by blast

lemma device_caps_spec:
  "\<exists>r a e fd st'. device_caps env vm i j dd d st =
     Some (r, d\<lparr>accel_capabilities := a, extended_capabilities := e, group_fd := fd\<rparr>, st') \<and> same_cfg st st' \<and>
     (\<forall>e. r \<noteq> Left e) \<and> status_ok r"
proof (cases "if vm then None else find_pf_capabilities (PF (bdf dd)) st")
  case (Some c)
  have e: "device_caps env vm i j dd d st = Some (Done, d\<lparr>accel_capabilities := ucast (caps_capabilities c),
      extended_capabilities := ucast (caps_ext_dc c), group_fd := group_fd d\<rparr>, st)"
    unfolding device_caps_def Some by simp
  show ?thesis by (rule device_caps_result [OF e]) (simp_all add: same_cfg_def)
next
  case None
  obtain ret co ext caps fd v s where q: "qat_mgr_get_device_capabilities env d (devid dd) st =
     Some (ret, co, ext, caps, d\<lparr>group_fd := fd\<rparr>, st\<lparr>mgr_vf2pf := v, mgr_csrs := s\<rparr>)"
    using query_spec [of env d "devid dd" st] by auto
  show ?thesis
  proof (cases "mgr_vf2pf st = 0")
    case True
    have e: "device_caps env vm i j dd d st = Some (Done,
        d\<lparr>accel_capabilities := accel_capabilities d, extended_capabilities := extended_capabilities d, group_fd := group_fd d\<rparr>, st)"
      using True unfolding device_caps_def None by simp
    show ?thesis by (rule device_caps_result [OF e]) (simp_all add: same_cfg_def)
  next
    case False
    let ?st1 = "st\<lparr>mgr_vf2pf := v, mgr_csrs := s\<rparr>"
    let ?new = "\<lparr>caps_pf = PF (bdf dd), caps_ext_dc = ext, caps_capabilities = caps\<rparr>"
    have same: "same_cfg st ?st1" "same_cfg st (add_pf_capabilities ?new ?st1)"
      by (simp_all add: same_cfg_def add_pf_capabilities_def)
    show ?thesis
    proof (cases "ret = 0")
      case True
      have swap2: "d\<lparr>group_fd := fd, accel_capabilities := ucast caps, extended_capabilities := ucast ext\<rparr> =
          d\<lparr>accel_capabilities := ucast caps, extended_capabilities := ucast ext, group_fd := fd\<rparr>" by simp
      have e: "device_caps env vm i j dd d st =
          Some (if vm \<or> env_calloc env (AllocCaps i j) then Done else Failed (- 11),
            d\<lparr>accel_capabilities := ucast caps, extended_capabilities := ucast ext, group_fd := fd\<rparr>,
            if \<not> vm \<and> env_calloc env (AllocCaps i j) then add_pf_capabilities ?new ?st1 else ?st1)"
        using q False True swap2 unfolding device_caps_def None by simp
      show ?thesis by (rule device_caps_result [OF e]) (simp_all add: same)
    next
      case bad: False
      have e: "device_caps env vm i j dd d st = Some (if co then Done else Failed ret,
          d\<lparr>accel_capabilities := accel_capabilities d, extended_capabilities := extended_capabilities d, group_fd := fd\<rparr>, ?st1)"
        using q False bad unfolding device_caps_def None by simp
      show ?thesis using bad by (intro device_caps_result [OF e]) (simp_all add: same)
    qed
  qed
qed

text \<open>A device made from the entry \<open>dd\<close> as the j-th of its section.\<close>

definition built_from :: "nat \<Rightarrow> qatmgr_dev_data \<Rightarrow> qatmgr_device_data \<Rightarrow> bool" where
  "built_from j dd d \<longleftrightarrow> device_file d = ICP_STRLCPY (vfio_file dd) 64 \<and> device_id d = ICP_STRLCPY (bdf_string (bdf dd)) 64 \<and>
     accelid d = j \<and> pci_id d = ucast (devid dd) \<and> max_banks d = 4 \<and>
     distinct (map bank_number (device_insts d)) \<and> set (map bank_number (device_insts d)) = {0..<max_banks d}"

lemma build_device_spec:
  "\<exists>r d c' st'. build_device env vm i j dd c st = Some (r, d, c', st') \<and> same_cfg st st' \<and> status_ok r \<and>
     ((\<forall>e. r \<noteq> Failed e) \<longrightarrow> device_wf d) \<and> (r = Done \<longrightarrow> built_from j dd d)"
proof (cases "get_pkg_id (bdf dd) st")
  case None
  then show ?thesis by (simp add: build_device_def same_cfg_def)
next
  case (Some pkg)
  obtain r a e fd st1 where q: "device_caps env vm i j dd (device_base j dd pkg) st =
     Some (r, (device_base j dd pkg)\<lparr>accel_capabilities := a, extended_capabilities := e, group_fd := fd\<rparr>, st1)"
     "same_cfg st st1" "\<forall>e. r \<noteq> Left e" "status_ok r"
    using device_caps_spec [of env vm i j dd "device_base j dd pkg" st] by auto
  let ?d = "(device_base j dd pkg)\<lparr>accel_capabilities := a, extended_capabilities := e, group_fd := fd\<rparr>"
  have n: "no_insts ?d" by (simp add: no_insts_def device_base_def zero_device_def)
  obtain r2 d2 c2 where k: "device_config env i j dd ?d c = Some (r2, d2, c2)" "status_ok r2" "device_file d2 = device_file ?d"
      "device_id d2 = device_id ?d" "accelid d2 = accelid ?d" "max_banks d2 = max_banks ?d"
      "(\<forall>e. r2 \<noteq> Failed e) \<longrightarrow> device_wf d2"
      "r2 = Done \<longrightarrow> distinct (map bank_number (device_insts d2)) \<and> set (map bank_number (device_insts d2)) = {0..<4} \<and>
        pci_id d2 = ucast (devid dd)"
    using device_config_spec [OF n, of env i j dd c] by blast
  have b: "device_file ?d = ICP_STRLCPY (vfio_file dd) 64" "device_id ?d = ICP_STRLCPY (bdf_string (bdf dd)) 64" "accelid ?d = j"
      "max_banks ?d = 4"
    by (simp_all add: device_base_def)
  show ?thesis
  proof (cases "r = Done")
    case True
    then have "build_device env vm i j dd c st = Some (r2, d2, c2, st1)" using Some q(1) k(1) by (simp add: build_device_def)
    moreover have "r2 = Done \<longrightarrow> built_from j dd d2" using k b by (auto simp: built_from_def)
    ultimately show ?thesis using q(2) k(2,7) by blast
  next
    case False
    then obtain e where "r = Failed e" using q(3) by (cases r) auto
    moreover have "build_device env vm i j dd c st = Some (r, ?d, c, st1)" using False Some q(1) by (simp add: build_device_def)
    ultimately show ?thesis using q(2,4) by auto
  qed
qed

lemma device_loop_spec:
  assumes "n \<le> length dds"
  shows "\<exists>r ds rest c' st'. device_loop env vm i n j dds c st = Some (r, ds, rest, c', st') \<and> same_cfg st st' \<and> status_ok r \<and>
    length ds = n \<and> ((\<forall>e. r \<noteq> Failed e) \<longrightarrow> (\<forall>d \<in> set ds. device_wf d)) \<and>
    (r = Done \<longrightarrow> rest = drop n dds \<and> (\<forall>k < n. built_from (j + k) (dds ! k) (ds ! k)))"
  using assms
proof (induction n arbitrary: j dds c st)
  case 0
  then show ?case by (simp add: same_cfg_def)
next
  case (Suc n)
  then obtain dd dds' where dds: "dds = dd # dds'" by (cases dds) auto
  obtain r d c1 st1 where b: "build_device env vm i j dd c st = Some (r, d, c1, st1)" "same_cfg st st1"
      "(\<forall>e. r \<noteq> Failed e) \<longrightarrow> device_wf d" "r = Done \<longrightarrow> built_from j dd d" "status_ok r"
    using build_device_spec by blast
  show ?case
  proof (cases "r = Done")
    case False
    have "device_wf zero_device" by (simp add: device_wf_def zero_device_def)
    then show ?thesis using b False by (simp add: dds)
  next
    case True
    have "n \<le> length dds'" using Suc.prems dds by simp
    from Suc.IH [OF this, of "Suc j" c1 st1] obtain r2 ds rest c2 st2 where
      l: "device_loop env vm i n (Suc j) dds' c1 st1 = Some (r2, ds, rest, c2, st2)" "same_cfg st1 st2" "length ds = n"
        "(\<forall>e. r2 \<noteq> Failed e) \<longrightarrow> (\<forall>d \<in> set ds. device_wf d)"
        "r2 = Done \<longrightarrow> rest = drop n dds' \<and> (\<forall>k < n. built_from (Suc j + k) (dds' ! k) (ds ! k))" "status_ok r2"
      by blast
    have eq: "device_loop env vm i (Suc n) j dds c st = Some (r2, d # ds, rest, c2, st2)" using b(1) True l(1) by (simp add: dds)
    have "built_from (j + k) (dds ! k) ((d # ds) ! k)" if "r2 = Done" "k < Suc n" for k
      using that b(4) True l(5) by (cases k) (auto simp: dds)
    moreover have "(\<forall>e. r2 \<noteq> Failed e) \<longrightarrow> (\<forall>d' \<in> set (d # ds). device_wf d')" using b(3) True l(4) by simp
    moreover have "r2 = Done \<longrightarrow> rest = drop (Suc n) dds" using l(5) by (simp add: dds)
    ultimately show ?thesis unfolding eq using same_cfg_trans [OF b(2) l(2)] l(3,6) by simp
  qed
qed

definition section_wf :: "qatmgr_section_data \<Rightarrow> bool" where
  "section_wf sec \<longleftrightarrow> length (device_data sec) = num_devices sec \<and> (\<forall>d \<in> set (device_data sec). device_wf d)"

text \<open>A section that holds exactly the devices made from a part of the list.\<close>

definition section_of :: "qatmgr_dev_data list \<Rightarrow> qatmgr_section_data \<Rightarrow> bool" where
  "section_of sl sec \<longleftrightarrow> num_devices sec = length sl \<and> length (device_data sec) = length sl \<and> assigned_tid sec = 0 \<and>
     (\<forall>k < length sl. built_from k (sl ! k) (device_data sec ! k))"

lemma build_section_spec:
  assumes n: "n = num_vfs_this_section policy groups i (length dds)" and fits: "n \<le> int (length dds)"
  shows "\<exists>r sec rest core' st'. build_section env vm policy groups i dds core st = Some (r, sec, rest, core', st') \<and>
    same_cfg st st' \<and> status_ok r \<and> ((\<forall>e. r \<noteq> Failed e) \<longrightarrow> section_wf sec) \<and>
    (r = Done \<longrightarrow> 0 \<le> n \<and> rest = drop (nat n) dds \<and> section_of (take (nat n) dds) sec \<and>
      section_name sec = ICP_STRLCPY (''SSL_INT_'' @ dec i) 256)"
proof (cases "n < 0 \<or> \<not> env_calloc env (AllocDevices i)")
  case True
  then show ?thesis using n by (auto simp: build_section_def same_cfg_def)
next
  case False
  then have le: "nat n \<le> length dds" using fits by linarith
  let ?c = "\<lparr>section_num_sym_inst = 0, section_num_asym_inst = 0, section_num_dc_inst = 0, next_core = core\<rparr>"
  obtain r ds rest c' st' where l: "device_loop env vm i (nat n) 0 dds ?c st = Some (r, ds, rest, c', st')" "same_cfg st st'"
      "length ds = nat n" "(\<forall>e. r \<noteq> Failed e) \<longrightarrow> (\<forall>d \<in> set ds. device_wf d)"
      "r = Done \<longrightarrow> rest = drop (nat n) dds \<and> (\<forall>k < nat n. built_from (0 + k) (dds ! k) (ds ! k))" "status_ok r"
    using device_loop_spec [OF le, of env vm i 0 ?c st] by blast
  let ?sec = "\<lparr>section_name = ICP_STRLCPY (''SSL_INT_'' @ dec i) 256, base_name = ICP_STRLCPY ''SSL'' 256,
     assigned_tid = 0, num_devices = nat n, device_data = ds\<rparr>"
  have e: "build_section env vm policy groups i dds core st = Some (r, ?sec, rest, next_core c', st')"
    using False l(1) n by (simp add: build_section_def Let_def)
  have "r = Done \<longrightarrow> section_of (take (nat n) dds) ?sec" using l(3,5) le by (simp add: section_of_def)
  then show ?thesis unfolding e using l False by (simp add: section_wf_def)
qed

section \<open>Shares of the device list\<close>

fun section_sizes :: "int \<Rightarrow> nat list \<Rightarrow> nat \<Rightarrow> nat \<Rightarrow> nat \<Rightarrow> nat list" where
  "section_sizes policy groups 0 i len = []"
| "section_sizes policy groups (Suc n) i len =
     (let m = nat (num_vfs_this_section policy groups i len) in m # section_sizes policy groups n (Suc i) (len - m))"

lemma section_loop_spec:
  assumes "sum_list (section_sizes policy groups n i (length dds)) \<le> length dds"
  shows "\<exists>r secs st'. section_loop env vm policy groups n i dds core st = Some (r, secs, st') \<and> same_cfg st st' \<and> status_ok r \<and>
    ((\<forall>e. r \<noteq> Failed e) \<longrightarrow> length secs = n \<and> (\<forall>sec \<in> set secs. section_wf sec)) \<and>
    (r = Done \<longrightarrow> (\<exists>sls rest. concat sls @ rest = dds \<and> map length sls = section_sizes policy groups n i (length dds) \<and>
       list_all2 section_of sls secs \<and> map section_name secs = map (\<lambda>k. ICP_STRLCPY (''SSL_INT_'' @ dec k) 256) [i..<i + n]))"
  using assms
proof (induction n arbitrary: i dds core st)
  case 0
  then show ?case by (simp add: same_cfg_def)
next
  case (Suc n)
  let ?m = "num_vfs_this_section policy groups i (length dds)"
  have fits: "?m \<le> int (length dds)" using Suc.prems by (simp add: Let_def)
  obtain r sec rest core1 st1 where b: "build_section env vm policy groups i dds core st = Some (r, sec, rest, core1, st1)"
      "same_cfg st st1" "(\<forall>e. r \<noteq> Failed e) \<longrightarrow> section_wf sec"
      "r = Done \<longrightarrow> 0 \<le> ?m \<and> rest = drop (nat ?m) dds \<and> section_of (take (nat ?m) dds) sec \<and>
        section_name sec = ICP_STRLCPY (''SSL_INT_'' @ dec i) 256" "status_ok r"
    using build_section_spec [OF refl fits] by blast
  show ?case
  proof (cases "r = Done")
    case False
    have "section_wf zero_section" by (simp add: section_wf_def zero_section_def)
    then show ?thesis using b False by simp
  next
    case True
    then have rest: "rest = drop (nat ?m) dds" "section_of (take (nat ?m) dds) sec"
        "section_name sec = ICP_STRLCPY (''SSL_INT_'' @ dec i) 256" using b(4) by auto
    have len: "length rest = length dds - nat ?m" using rest(1) by simp
    have "sum_list (section_sizes policy groups n (Suc i) (length rest)) \<le> length rest"
      using Suc.prems unfolding len by (simp add: Let_def)
    from Suc.IH [OF this, of core1 st1] obtain r2 secs st2 where
      l: "section_loop env vm policy groups n (Suc i) rest core1 st1 = Some (r2, secs, st2)" "same_cfg st1 st2"
        "(\<forall>e. r2 \<noteq> Failed e) \<longrightarrow> length secs = n \<and> (\<forall>sec \<in> set secs. section_wf sec)"
        "r2 = Done \<longrightarrow> (\<exists>sls rest'. concat sls @ rest' = rest \<and> map length sls = section_sizes policy groups n (Suc i) (length rest) \<and>
           list_all2 section_of sls secs \<and>
           map section_name secs = map (\<lambda>k. ICP_STRLCPY (''SSL_INT_'' @ dec k) 256) [Suc i..<Suc i + n])" "status_ok r2"
      by blast
    have eq: "section_loop env vm policy groups (Suc n) i dds core st = Some (r2, sec # secs, st2)"
      using b(1) True l(1) by simp
    have wf: "(\<forall>e. r2 \<noteq> Failed e) \<longrightarrow> length (sec # secs) = Suc n \<and> (\<forall>s \<in> set (sec # secs). section_wf s)"
      using l(3) b(3) True by auto
    have "\<exists>sls rest'. concat sls @ rest' = dds \<and> map length sls = section_sizes policy groups (Suc n) i (length dds) \<and>
        list_all2 section_of sls (sec # secs) \<and>
        map section_name (sec # secs) = map (\<lambda>k. ICP_STRLCPY (''SSL_INT_'' @ dec k) 256) [i..<i + Suc n]" if fin: "r2 = Done"
    proof -
      obtain sls rest' where s: "concat sls @ rest' = rest" "map length sls = section_sizes policy groups n (Suc i) (length rest)"
          "list_all2 section_of sls secs" "map section_name secs = map (\<lambda>k. ICP_STRLCPY (''SSL_INT_'' @ dec k) 256) [Suc i..<Suc i + n]"
        using l(4) fin by blast
      have "concat (take (nat ?m) dds # sls) @ rest' = dds" using s(1) rest(1) by simp
      moreover have "map length (take (nat ?m) dds # sls) = section_sizes policy groups (Suc n) i (length dds)"
        using s(2) len fits by (simp add: Let_def)
      moreover have "[i..<i + Suc n] = i # [Suc i..<Suc i + n]" by (simp add: upt_rec)
      ultimately show ?thesis using s(3,4) rest(2,3) by (intro exI [of _ "take (nat ?m) dds # sls"] exI [of _ rest']) simp
    qed
    then show ?thesis unfolding eq using wf same_cfg_trans [OF b(2) l(2)] l(5) by blast
  qed
qed

lemma group_loop_total:
  "length bs + length counts \<le> 1024 \<Longrightarrow> \<exists>r. group_loop env bs tbl counts = Some r"
proof (induction bs arbitrary: tbl counts)
  case (Cons b bs)
  have lt: "\<not> 1024 \<le> length counts" using Cons.prems by simp
  have "\<exists>r. group_loop env bs [PF b] (1 # counts) = Some r" using Cons.IH Cons.prems by simp
  moreover have "\<exists>r. group_loop env bs (PF b # tbl) (case counts of [] \<Rightarrow> [] | c # cs \<Rightarrow> Suc c # cs) = Some r"
    using Cons.IH Cons.prems by (cases counts) simp_all
  ultimately show ?case using lt by (simp add: Let_def)
qed simp

text \<open>The groups cut the list into parts in which no two functions have the same physical function.\<close>

lemma group_loop_spec:
  assumes "group_loop env bs tbl (c # cs) = Some (Inr gs)" and "distinct (map PF cur)" and "set tbl = PF ` set cur"
    and "length cur = c" and "cur @ bs \<noteq> []"
  shows "\<exists>sls. gs = rev cs @ map length sls \<and> concat sls = cur @ bs \<and> (\<forall>sl \<in> set sls. distinct (map PF sl) \<and> sl \<noteq> [])"
  using assms
proof (induction bs arbitrary: tbl c cs cur)
  case Nil
  then show ?case by (intro exI [of _ "[cur]"]) auto
next
  case (Cons b bs)
  show ?case
  proof (cases "PF b \<in> set tbl")
    case True
    then have "group_loop env bs [PF b] (1 # c # cs) = Some (Inr gs)"
      using Cons.prems(1) by (auto simp: Let_def split: if_splits)
    from Cons.IH [OF this, of "[b]"] obtain sls where
      s: "gs = rev (c # cs) @ map length sls" "concat sls = [b] @ bs" "\<forall>sl \<in> set sls. distinct (map PF sl) \<and> sl \<noteq> []"
      by auto
    have "cur \<noteq> []" using True Cons.prems(3) by auto
    then show ?thesis using s Cons.prems(2,4) by (intro exI [of _ "cur # sls"]) auto
  next
    case False
    then have "group_loop env bs (PF b # tbl) (Suc c # cs) = Some (Inr gs)"
      using Cons.prems(1) by (auto simp: Let_def split: if_splits)
    from Cons.IH [OF this, of "cur @ [b]"] show ?thesis using False Cons.prems(2,3,4) by auto
  qed
qed

lemma count_groups_spec:
  assumes "count_groups env bdfs = Some (Inr gs)" and "bdfs \<noteq> []"
  shows "\<exists>sls. gs = map length sls \<and> concat sls = bdfs \<and> (\<forall>sl \<in> set sls. distinct (map PF sl) \<and> sl \<noteq> [])"
  using assms group_loop_spec [of env bdfs "[]" 0 "[]" gs "[]"]
  by (auto simp: count_groups_def split: if_splits)

lemma section_sizes_groups: "section_sizes 0 groups n i len = map (arr_get groups) [i..<i + n]"
  by (induction n arbitrary: i len) (simp_all add: Let_def num_vfs_this_section_def upt_rec)

lemma section_sizes_policy:
  assumes "0 < p" and "n * p \<le> len"
  shows "section_sizes (int p) groups n i len = replicate n p"
  using assms(2)
proof (induction n arbitrary: i len)
  case (Suc n)
  have m: "num_vfs_this_section (int p) groups i len = int p" using Suc.prems assms(1) by (simp add: num_vfs_this_section_def)
  have "n * p \<le> len - p" using Suc.prems by simp
  then show ?case using Suc.IH m by (simp add: Let_def)
qed simp

lemma arr_get_all: "map (arr_get groups) [0..<length groups] = groups"
  by (intro nth_equalityI) (simp_all add: arr_get_def)

text \<open>The shares for each kind of configuration.\<close>

lemma num_sections_policy:
  assumes "num_sections env dl policy False = Some (Inr (n, groups))" and "policy \<noteq> 0"
  shows "0 < policy" and "n = length dl div nat policy" and "section_sizes policy groups n 0 (length dl) = replicate n (nat policy)"
proof -
  have pos: "int (length dl) div policy > 0" "n = nat (int (length dl) div policy)"
    using assms by (auto simp: num_sections_def Let_def split: option.splits sum.splits if_splits)
  then show p: "0 < policy" using assms(2) div_nonneg_neg_le0 [of "int (length dl)" policy] by fastforce
  then obtain k where k: "policy = int k" "0 < k" by (metis zero_less_imp_eq_int)
  show n: "n = length dl div nat policy" using pos(2) k by (simp add: zdiv_int [symmetric])
  have "n * k \<le> length dl" unfolding n k(1) by simp
  then show "section_sizes policy groups n 0 (length dl) = replicate n (nat policy)"
    using section_sizes_policy [OF k(2)] k(1) by simp
qed

lemma num_sections_groups:
  assumes "num_sections env dl 0 False = Some (Inr (n, groups))" and "dl \<noteq> []"
  shows "section_sizes 0 groups n 0 (length dl) = groups" and "sum_list groups = length dl"
    and "\<exists>sls. groups = map length sls \<and> concat sls = map bdf dl \<and> (\<forall>sl \<in> set sls. distinct (map PF sl) \<and> sl \<noteq> [])"
proof -
  have c: "count_groups env (map bdf dl) = Some (Inr groups)" "n = length groups"
    using assms(1) by (auto simp: num_sections_def Let_def split: option.splits sum.splits if_splits)
  have "map bdf dl \<noteq> []" using assms(2) by simp
  from count_groups_spec [OF c(1) this] show s: "\<exists>sls. groups = map length sls \<and> concat sls = map bdf dl \<and>
      (\<forall>sl \<in> set sls. distinct (map PF sl) \<and> sl \<noteq> [])" .
  then obtain sls where "groups = map length sls" "concat sls = map bdf dl" by blast
  then show "sum_list groups = length dl" by (metis length_concat length_map)
  show "section_sizes 0 groups n 0 (length dl) = groups" by (simp add: section_sizes_groups c(2) arr_get_all)
qed

lemma num_sections_fit:
  assumes "num_sections env dl policy static_cfg = Some (Inr (n, groups))" and "dl \<noteq> []"
  shows "sum_list (section_sizes policy groups n 0 (length dl)) \<le> length dl"
proof (cases static_cfg)
  case True
  then have "n = 1" "policy \<le> int (length dl)" "groups = []"
    using assms(1) by (auto simp: num_sections_def split: if_splits)
  then show ?thesis by (simp add: num_vfs_this_section_def arr_get_def Let_def nat_le_iff)
next
  case False
  show ?thesis
  proof (cases "policy = 0")
    case True
    then show ?thesis using num_sections_groups [of env dl n groups] assms False by simp
  next
    case p: False
    have ns: "num_sections env dl policy False = Some (Inr (n, groups))" using assms(1) False by simp
    have "n * nat policy \<le> length dl" using num_sections_policy(2) [OF ns p] by simp
    then show ?thesis using num_sections_policy(3) [OF ns p] by (simp add: sum_list_replicate)
  qed
qed

lemma num_sections_total:
  assumes "length dl \<le> 512"
  shows "\<exists>r. num_sections env dl policy static_cfg = Some r"
proof -
  have "\<exists>r. count_groups env (map bdf dl) = Some r"
    using assms group_loop_total [of "map bdf dl" "[0]" env "[]"] by (simp add: count_groups_def)
  then show ?thesis by (auto simp: num_sections_def Let_def split: sum.splits)
qed

definition cfg_wf :: "'s mgr_state \<Rightarrow> bool" where
  "cfg_wf st \<longleftrightarrow> (\<forall>sec \<in> set (section_data st). section_wf sec)"

lemma build_cases:
  assumes ok: "dl \<noteq> []" "0 \<le> num_pfs (init_pfs env st)" "num_pfs (init_pfs env st) \<le> 32"
    and ns: "num_sections env dl policy static_cfg = Some (Inr (n, groups))" and mem: "env_calloc env AllocSections"
  obtains r secs st2 where "section_loop env (num_pfs (init_pfs env st) = 0) policy groups n 0 dl 0 (init_pfs env st) = Some (r, secs, st2)"
    "status_ok r" "(\<forall>e. r \<noteq> Failed e) \<longrightarrow> length secs = n \<and> (\<forall>sec \<in> set secs. section_wf sec)"
    "r = Done \<longrightarrow> (\<exists>sls rest. concat sls @ rest = dl \<and> map length sls = section_sizes policy groups n 0 (length dl) \<and>
       list_all2 section_of sls secs \<and> map section_name secs = map (\<lambda>k. ICP_STRLCPY (''SSL_INT_'' @ dec k) 256) [0..<n])"
    "qat_mgr_build_data env dl policy static_cfg st = Some (case r of Done \<Rightarrow> (0, st2\<lparr>section_data := secs\<rparr>)
       | Left e \<Rightarrow> (e, st2\<lparr>section_data := secs\<rparr>) | Failed e \<Rightarrow> (e, qat_mgr_cleanup_cfg st2))"
proof -
  obtain r secs st2 where l: "section_loop env (num_pfs (init_pfs env st) = 0) policy groups n 0 dl 0 (init_pfs env st) = Some (r, secs, st2)"
    "status_ok r" "(\<forall>e. r \<noteq> Failed e) \<longrightarrow> length secs = n \<and> (\<forall>sec \<in> set secs. section_wf sec)"
    "r = Done \<longrightarrow> (\<exists>sls rest. concat sls @ rest = dl \<and> map length sls = section_sizes policy groups n 0 (length dl) \<and>
       list_all2 section_of sls secs \<and> map section_name secs = map (\<lambda>k. ICP_STRLCPY (''SSL_INT_'' @ dec k) 256) [0..<0 + n])"
    using section_loop_spec [OF num_sections_fit [OF ns ok(1)], of env "num_pfs (init_pfs env st) = 0" 0 "init_pfs env st"]
    by blast
  have "qat_mgr_build_data env dl policy static_cfg st = Some (case r of Done \<Rightarrow> (0, st2\<lparr>section_data := secs\<rparr>)
       | Left e \<Rightarrow> (e, st2\<lparr>section_data := secs\<rparr>) | Failed e \<Rightarrow> (e, qat_mgr_cleanup_cfg st2))"
    using ok ns mem l(1) by (cases r) (simp_all add: qat_mgr_build_data_def Let_def)
  then show thesis using that l by simp
qed

lemma build_total:
  assumes "length dl \<le> 512" and "cfg_wf st"
  shows "\<exists>r st'. qat_mgr_build_data env dl policy static_cfg st = Some (r, st') \<and> cfg_wf st'"
proof -
  let ?st1 = "init_pfs env st"
  have wf1: "cfg_wf ?st1" using assms(2) by (simp add: cfg_wf_def init_pfs_def)
  obtain x where x: "num_sections env dl policy static_cfg = Some x" using num_sections_total [OF assms(1)] by blast
  have clean: "cfg_wf (qat_mgr_cleanup_cfg s)" "cfg_wf (s\<lparr>section_data := []\<rparr>)" for s :: "'a mgr_state"
    by (simp_all add: cfg_wf_def qat_mgr_cleanup_cfg_def cleanup_capabilities_cache_def)
  show ?thesis
  proof (cases "dl = [] \<or> num_pfs ?st1 < 0 \<or> num_pfs ?st1 > 32")
    case True
    then show ?thesis using assms(2) wf1 by (auto simp: qat_mgr_build_data_def Let_def)
  next
    case go: False
    show ?thesis
    proof (cases x)
      case (Inl e)
      then show ?thesis using go x wf1 clean by (auto simp: qat_mgr_build_data_def Let_def)
    next
      case (Inr p)
      then obtain n groups where ns: "num_sections env dl policy static_cfg = Some (Inr (n, groups))" using x by (cases p) auto
      show ?thesis
      proof (cases "env_calloc env AllocSections")
        case False
        then show ?thesis using go ns clean by (simp add: qat_mgr_build_data_def Let_def)
      next
        case True
        have ok: "dl \<noteq> []" "0 \<le> num_pfs ?st1" "num_pfs ?st1 \<le> 32" using go by auto
        obtain r secs st2 where b: "(\<forall>e. r \<noteq> Failed e) \<longrightarrow> length secs = n \<and> (\<forall>sec \<in> set secs. section_wf sec)"
          "qat_mgr_build_data env dl policy static_cfg st = Some (case r of Done \<Rightarrow> (0, st2\<lparr>section_data := secs\<rparr>)
             | Left e \<Rightarrow> (e, st2\<lparr>section_data := secs\<rparr>) | Failed e \<Rightarrow> (e, qat_mgr_cleanup_cfg st2))"
          using build_cases [OF ok ns True] by metis
        show ?thesis using b clean by (cases r) (auto simp: cfg_wf_def)
      qed
    qed
  qed
qed

lemma group_loop_error: "group_loop env bs tbl counts = Some (Inl e) \<Longrightarrow> e \<noteq> 0"
  by (induction env bs tbl counts rule: group_loop.induct) (auto simp: Let_def split: if_splits)

lemma num_sections_error:
  assumes "num_sections env dl policy static_cfg = Some (Inl e)"
  shows "e \<noteq> 0"
  using assms group_loop_error [of env "map bdf dl" "[]" "[0]" e]
  by (auto simp: num_sections_def count_groups_def Let_def split: option.splits sum.splits if_splits)

text \<open>The outcome 0 comes only from a complete run.\<close>

lemma build_ok:
  assumes b: "qat_mgr_build_data env dl policy static_cfg st = Some (0, st')"
  shows "\<exists>n groups sls rest. num_sections env dl policy static_cfg = Some (Inr (n, groups)) \<and> dl \<noteq> [] \<and>
    concat sls @ rest = dl \<and> map length sls = section_sizes policy groups n 0 (length dl) \<and>
    list_all2 section_of sls (section_data st') \<and> length (section_data st') = n \<and>
    map section_name (section_data st') = map (\<lambda>k. ICP_STRLCPY (''SSL_INT_'' @ dec k) 256) [0..<n]"
proof -
  have ok: "dl \<noteq> []" "0 \<le> num_pfs (init_pfs env st)" "num_pfs (init_pfs env st) \<le> 32"
    using b by (auto simp: qat_mgr_build_data_def Let_def split: if_splits)
  obtain n groups where ns: "num_sections env dl policy static_cfg = Some (Inr (n, groups))"
    using b ok num_sections_error [of env dl policy static_cfg]
    by (auto simp: qat_mgr_build_data_def Let_def split: option.splits sum.splits)
  have mem: "env_calloc env AllocSections" using b ok ns by (auto simp: qat_mgr_build_data_def Let_def split: if_splits)
  obtain r secs st2 where l: "status_ok r" "(\<forall>e. r \<noteq> Failed e) \<longrightarrow> length secs = n \<and> (\<forall>sec \<in> set secs. section_wf sec)"
    "r = Done \<longrightarrow> (\<exists>sls rest. concat sls @ rest = dl \<and> map length sls = section_sizes policy groups n 0 (length dl) \<and>
       list_all2 section_of sls secs \<and> map section_name secs = map (\<lambda>k. ICP_STRLCPY (''SSL_INT_'' @ dec k) 256) [0..<n])"
    "qat_mgr_build_data env dl policy static_cfg st = Some (case r of Done \<Rightarrow> (0, st2\<lparr>section_data := secs\<rparr>)
       | Left e \<Rightarrow> (e, st2\<lparr>section_data := secs\<rparr>) | Failed e \<Rightarrow> (e, qat_mgr_cleanup_cfg st2))"
    by (rule build_cases [OF ok ns mem])
  have "r = Done" using l(1,4) b by (cases r) simp_all
  moreover then have "section_data st' = secs" using l(4) b by simp
  ultimately show ?thesis using l(2,3) ns ok(1) by blast
qed

lemma slices_distinct:
  assumes "concat sls = dl" and "concat bs = map bdf dl" and "map length sls = map length bs"
    and "\<forall>b \<in> set bs. distinct (map PF b) \<and> b \<noteq> []" and "sl \<in> set sls"
  shows "sl \<noteq> [] \<and> distinct (map (PF \<circ> bdf) sl)"
proof -
  have len: "length bs = length (map (map bdf) sls)" using assms(3) by (metis length_map)
  have "map (map bdf) sls = bs"
  proof (rule concat_injective [OF _ len [symmetric]])
    show "concat (map (map bdf) sls) = concat bs" using assms(1,2) by (simp add: map_concat [symmetric])
    show "\<forall>(x, y) \<in> set (zip (map (map bdf) sls) bs). length x = length y"
      using assms(3) len by (auto simp: set_zip list_eq_iff_nth_eq [of "map length sls"])
  qed
  then have "map bdf sl \<in> set bs" using assms(5) by auto
  then show ?thesis using assms(4) by auto
qed

section \<open>A concrete environment for the witnesses\<close>

text \<open>A virtual machine without physical functions, whose devices cannot be opened.\<close>

definition example_env :: "unit mgr_env" where
  "example_env = \<lparr>env_bus = \<lparr>csr_rd = \<lambda>s off. (0, s), csr_wr = \<lambda>s off v. s\<rparr>, env_open = \<lambda>d pci s. ((- 1, 0), s),
     env_close = \<lambda>s. s, env_pfs = (0, []), env_nprocs = 2, env_hcreate = \<lambda>n. True, env_room = \<lambda>n. True,
     env_calloc = \<lambda>a. True\<rparr>"

definition example_state :: "unit mgr_state" where
  "example_state = \<lparr>section_data = [], pf_capabilities_head = [], num_pfs = - 1, pf_data = [], mgr_vf2pf = - 1, mgr_csrs = ()\<rparr>"

definition example_devs :: "qatmgr_dev_data list" where
  "example_devs = map (\<lambda>(b, f). \<lparr>bdf = b, vfio_file = f, dd_group_fd = - 1, devid = 0x4941\<rparr>)
     [(0x3D08, ''/dev/vfio/1''), (0x3F08, ''/dev/vfio/2''), (0x3D09, ''/dev/vfio/3'')]"

lemma example_builds: "map_option fst (qat_mgr_build_data example_env example_devs 0 False example_state) = Some 0"
  by code_simp
section \<open>Properties\<close>

text \<open>C9. The manager shares out the virtual functions: the sections hold consecutive parts of the device list,
  device by device, and in every device the instances use each bank exactly once.  With policy 0 all
  functions are used and no section has two functions of the same physical function; with policy n there
  are as many sections as fit, each with n functions.\<close>

theorem sections_partition:
  assumes "qat_mgr_build_data env dl policy False st = Some (0, st')"
  shows "\<exists>sls rest. concat sls @ rest = dl \<and> list_all2 section_of sls (section_data st') \<and>
    (if policy = 0 then rest = [] \<and> (\<forall>sl \<in> set sls. sl \<noteq> [] \<and> distinct (map (PF \<circ> bdf) sl))
     else length sls = length dl div nat policy \<and> (\<forall>sl \<in> set sls. length sl = nat policy))"
proof -
  obtain n groups sls rest where ns: "num_sections env dl policy False = Some (Inr (n, groups))" "dl \<noteq> []"
    and s: "concat sls @ rest = dl" "map length sls = section_sizes policy groups n 0 (length dl)"
      "list_all2 section_of sls (section_data st')"
    using build_ok [OF assms] by blast
  show ?thesis
  proof (cases "policy = 0")
    case True
    have ns0: "num_sections env dl 0 False = Some (Inr (n, groups))" using ns(1) True by simp
    have g: "map length sls = groups" "sum_list groups = length dl"
      using s(2) True num_sections_groups(1,2) [OF ns0 ns(2)] by simp_all
    then have "length (concat sls) = length dl" by (simp add: length_concat)
    then have r: "rest = []" "concat sls = dl" using s(1) by (metis append_eq_conv_conj append_Nil2 drop_all order_refl, metis s(1) append_eq_conv_conj take_all order_refl)
    obtain bs where bs: "groups = map length bs" "concat bs = map bdf dl" "\<forall>b \<in> set bs. distinct (map PF b) \<and> b \<noteq> []"
      using num_sections_groups(3) [OF ns0 ns(2)] by blast
    have "\<forall>sl \<in> set sls. sl \<noteq> [] \<and> distinct (map (PF \<circ> bdf) sl)"
      using slices_distinct [OF r(2) bs(2) _ bs(3)] g(1) bs(1) by simp
    then show ?thesis using True r s(1,3) by auto
  next
    case False
    have l: "map length sls = replicate n (nat policy)" "n = length dl div nat policy"
      using s(2) num_sections_policy [OF ns(1) False] by simp_all
    then have "length sls = length dl div nat policy" by (metis length_map length_replicate)
    moreover have "\<forall>sl \<in> set sls. length sl = nat policy" using l(1) by (metis image_eqI in_set_replicate list.set_map)
    ultimately show ?thesis using False s(1,3) by auto
  qed
qed

theorem sections_partition_witness:
  "\<exists>st' sls rest. qat_mgr_build_data example_env example_devs 0 False example_state = Some (0, st') \<and>
     concat sls = example_devs \<and> list_all2 section_of sls (section_data st')"
proof -
  obtain st' where b: "qat_mgr_build_data example_env example_devs 0 False example_state = Some (0, st')"
    using example_builds by auto
  from sections_partition [OF b] show ?thesis using b by auto
qed

text \<open>C39. A static configuration with policy 0 has no devices: \<open>qat_mgr_build_data\<close> succeeds, but the single
  section it makes is empty, because the groups are only counted when the configuration is not static.\<close>

theorem static_policy_0_empty:
  assumes "dl \<noteq> []" and "0 \<le> num_pfs (init_pfs env st)" "num_pfs (init_pfs env st) \<le> 32"
    and "env_calloc env AllocSections" "env_calloc env (AllocDevices 0)"
  shows "\<exists>st' sec. qat_mgr_build_data env dl 0 True st = Some (0, st') \<and> section_data st' = [sec] \<and>
    num_devices sec = 0 \<and> device_data sec = []"
  using assms
  by (simp add: qat_mgr_build_data_def num_sections_def build_section_def num_vfs_this_section_def arr_get_def Let_def)

theorem static_policy_0_empty_witness:
  "\<exists>st' sec. qat_mgr_build_data example_env example_devs 0 True example_state = Some (0, st') \<and>
     section_data st' = [sec] \<and> device_data sec = []"
  using static_policy_0_empty [of example_devs example_env example_state]
  by (auto simp: example_devs_def example_env_def example_state_def init_pfs_def)

end
