(* ===== verification/Qat_Mgr.thy ===== *)
theory Qat_Mgr
  imports Qat_Mgr_Config
begin

text \<open>
  The messages of the manager (\<open>vfio/qat_mgr_lib.c\<close>, \<open>qat_mgr.h\<close>) and its clients
  (\<open>qat_mgr/qat_mgr.c\<close>).  The payload of a request is the 256 bytes of its union; the payload of a
  response is a value per message.  A message is handled in one step: the only shared data it
  writes is the owner of a section, under the mutex or by the owner itself.
\<close>

section \<open>Requests and responses\<close>

record qatmgr_msg_req =
  req_len :: u16
  req_version :: u16
  req_type :: u16
  req_payload :: "u8 list"

definition req_name :: "qatmgr_msg_req \<Rightarrow> string" where
  "req_name req = map (\<lambda>b. char_of (unat b)) (takeWhile (\<lambda>b. b \<noteq> 0) (take 255 (req_payload req)))"

definition req_device_num :: "qatmgr_msg_req \<Rightarrow> u16" where
  "req_device_num req = le16 (req_payload req) 0"

definition inst_type :: "qatmgr_msg_req \<Rightarrow> u32" where
  "inst_type req = le32 (req_payload req) 0"

definition inst_num :: "qatmgr_msg_req \<Rightarrow> u16" where
  "inst_num req = le16 (req_payload req) 4"

definition inst_device_num :: "qatmgr_msg_req \<Rightarrow> u16" where
  "inst_device_num req = le16 (req_payload req) 6"

record ring_info =
  ri_accelid :: u16
  ri_bank_number :: u16
  ri_is_polled :: u16
  ri_core_affinity :: u16
  ri_num_concurrent_requests :: u16
  ri_ring_tx :: u16
  ri_ring_rx :: u16

record device_info =
  di_device_num :: u16
  di_device_type :: u16
  di_device_pci_id :: u16
  di_capability_mask :: u32
  di_extended_capabilities :: u32
  di_max_banks :: u16
  di_max_rings_per_bank :: u16
  di_arb_mask :: u16
  di_services :: u16
  di_pkg_id :: u16
  di_node_id :: u16
  di_num_cy_instances :: u16
  di_num_dc_instances :: u16
  di_device_name :: string

datatype rsp_payload =
    NoData
  | ErrorText string
  | Name string
  | VfioFile "16 word" string
  | NumDevices u16
  | DeviceInfo device_info
  | DeviceId string
  | InstanceCy ring_info ring_info nat
  | InstanceSym ring_info
  | InstanceAsym ring_info
  | InstanceDc ring_info
  | PfInfo accel_pf_info

record qatmgr_msg_rsp =
  rsp_len :: u16
  rsp_version :: u16
  rsp_type :: u16
  rsp_payload :: rsp_payload

abbreviation (input) THIS_LIB_VERSION :: u16 where "THIS_LIB_VERSION \<equiv> 0x1802"
abbreviation (input) QATMGR_MSGTYPE_BAD :: u16 where "QATMGR_MSGTYPE_BAD \<equiv> 999"
abbreviation (input) sizeof_hdr :: nat where "sizeof_hdr \<equiv> 8"

definition err_msg :: "string \<Rightarrow> qatmgr_msg_rsp" where
  "err_msg txt =
     (let t = ICP_STRLCPY txt QATMGR_MAX_STRLEN
      in \<lparr>rsp_len = of_nat (sizeof_hdr + length t + 1), rsp_version = THIS_LIB_VERSION, rsp_type = QATMGR_MSGTYPE_BAD,
          rsp_payload = ErrorText t\<rparr>)"

definition build_msg_header :: "u16 \<Rightarrow> nat \<Rightarrow> rsp_payload \<Rightarrow> qatmgr_msg_rsp" where
  "build_msg_header ty payload_size payload =
     \<lparr>rsp_len = of_nat (sizeof_hdr + payload_size), rsp_version = THIS_LIB_VERSION, rsp_type = ty, rsp_payload = payload\<rparr>"

definition nth_opt :: "'a list \<Rightarrow> nat \<Rightarrow> 'a option" where
  "nth_opt xs i = (if i < length xs then Some (xs ! i) else None)"

section \<open>Reading the configuration\<close>

text \<open>The checks that the handlers share: the length of the message, the section and the device.\<close>

definition with_section ::
  "nat \<Rightarrow> qatmgr_msg_req \<Rightarrow> int \<Rightarrow> 's mgr_state \<Rightarrow> (qatmgr_section_data \<Rightarrow> (int \<times> qatmgr_msg_rsp) option) \<Rightarrow>
   (int \<times> qatmgr_msg_rsp) option" where
  "with_section sz req index st k =
     (if unat (req_len req) \<noteq> sizeof_hdr + sz then Some (- 1, err_msg ''Inconsistent length'')
      else if index < 0 \<or> index \<ge> int (length (section_data st)) then Some (- 1, err_msg ''Invalid index'')
      else k (section_data st ! nat index))"

definition with_device ::
  "u16 \<Rightarrow> qatmgr_section_data \<Rightarrow> (qatmgr_device_data \<Rightarrow> (int \<times> qatmgr_msg_rsp) option) \<Rightarrow>
   (int \<times> qatmgr_msg_rsp) option" where
  "with_device device_num section k =
     (if unat device_num \<ge> num_devices section then Some (- 1, err_msg ''Invalid device number'')
      else case nth_opt (device_data section) (unat device_num) of None \<Rightarrow> None | Some d \<Rightarrow> k d)"

definition handle_get_num_devices ::
  "qatmgr_msg_req \<Rightarrow> int \<Rightarrow> 's mgr_state \<Rightarrow> (int \<times> qatmgr_msg_rsp) option" where
  "handle_get_num_devices req index st =
     with_section 0 req index st (\<lambda>section.
       Some (0, build_msg_header 3 2 (NumDevices (of_nat (num_devices section)))))"

definition handle_get_device_info ::
  "qatmgr_msg_req \<Rightarrow> int \<Rightarrow> 's mgr_state \<Rightarrow> (int \<times> qatmgr_msg_rsp) option" where
  "handle_get_device_info req index st =
     with_section 2 req index st (\<lambda>section.
       with_device (req_device_num req) section (\<lambda>d.
         Some (0, build_msg_header 4 96 (DeviceInfo
           \<lparr>di_device_num = req_device_num req, di_device_type = of_nat (device_type d), di_device_pci_id = pci_id d,
            di_capability_mask = ucast (accel_capabilities d), di_extended_capabilities = ucast (extended_capabilities d),
            di_max_banks = of_nat (max_banks d), di_max_rings_per_bank = of_nat (max_rings_per_bank d),
            di_arb_mask = of_nat (dev_arb_mask d), di_services = services d, di_pkg_id = pkg_id d, di_node_id = ucast (node d),
            di_num_cy_instances = of_nat (num_cy_inst d), di_num_dc_instances = of_nat (num_dc_inst d),
            di_device_name = ICP_STRLCPY (dev_name d) DEVICE_NAME_SIZE\<rparr>))))"

definition handle_get_device_id ::
  "qatmgr_msg_req \<Rightarrow> int \<Rightarrow> 's mgr_state \<Rightarrow> (int \<times> qatmgr_msg_rsp) option" where
  "handle_get_device_id req index st =
     with_section 2 req index st (\<lambda>section.
       with_device (req_device_num req) section (\<lambda>d.
         let s = ICP_STRLCPY (device_id d) QATMGR_MAX_STRLEN in Some (0, build_msg_header 5 (length s + 1) (DeviceId s))))"

definition handle_get_vfio_name ::
  "qatmgr_msg_req \<Rightarrow> int \<Rightarrow> 's mgr_state \<Rightarrow> (int \<times> qatmgr_msg_rsp) option" where
  "handle_get_vfio_name req index st =
     with_section 2 req index st (\<lambda>section.
       with_device (req_device_num req) section (\<lambda>d.
         let s = ICP_STRLCPY (device_file d) QATMGR_MAX_STRLEN
         in Some (0, build_msg_header 9 (2 + length s + 1) (VfioFile (of_int (group_fd d)) s))))"

definition name_rsp :: "string \<Rightarrow> int \<times> qatmgr_msg_rsp" where
  "name_rsp nm = (let s = ICP_STRLCPY nm QATMGR_MAX_STRLEN in (0, build_msg_header 8 (length s + 1) (Name s)))"

definition instance_name :: "qatmgr_msg_req \<Rightarrow> qatmgr_device_data \<Rightarrow> (int \<times> qatmgr_msg_rsp) option" where
  "instance_name req d =
     (let num = unat (inst_num req)
     in if inst_type req = 1
        then (if num \<ge> num_dc_inst d then Some (- 1, err_msg ''Invalid DC instance number'')
              else map_option (\<lambda>i. name_rsp (inst_name i)) (nth_opt (dc_instance_data d) num))
        else if inst_type req = 6
        then (if num \<ge> num_cy_inst d then Some (- 1, err_msg ''Invalid CY instance number'')
              else map_option (\<lambda>i. name_rsp (inst_name
                     (if services d = SERV_TYPE_ASYM \<or> services d = SERV_TYPE_ASYM_DC then asym i else sym i)))
                   (nth_opt (cy_instance_data d) num))
        else if inst_type req = 2
        then (if num \<ge> num_sym_inst d then Some (- 1, err_msg ''Invalid SYM instance number'')
              else map_option (\<lambda>i. name_rsp (inst_name (sym i))) (nth_opt (cy_instance_data d) num))
        else if inst_type req = 4
        then (if num \<ge> num_asym_inst d then Some (- 1, err_msg ''Invalid ASYM instance number'')
              else map_option (\<lambda>i. name_rsp (inst_name (asym i))) (nth_opt (cy_instance_data d) num))
        else Some (- 1, err_msg ''Unknown instance type''))"

definition handle_get_instance_name ::
  "qatmgr_msg_req \<Rightarrow> int \<Rightarrow> 's mgr_state \<Rightarrow> (int \<times> qatmgr_msg_rsp) option" where
  "handle_get_instance_name req index st =
     with_section 8 req index st (\<lambda>section. with_device (inst_device_num req) section (instance_name req))"

definition ring_info_of :: "qatmgr_instance_data \<Rightarrow> ring_info" where
  "ring_info_of i =
     \<lparr>ri_accelid = of_nat (inst_accelid i), ri_bank_number = of_nat (bank_number i), ri_is_polled = of_nat (is_polled i),
      ri_core_affinity = of_nat (core_affinity i), ri_num_concurrent_requests = of_nat (num_concurrent_requests i),
      ri_ring_tx = of_nat (ring_tx i), ri_ring_rx = of_nat (ring_rx i)\<rparr>"

definition info_rsp :: "rsp_payload \<Rightarrow> int \<times> qatmgr_msg_rsp" where
  "info_rsp p = (0, build_msg_header 7 32 p)"

definition instance_info :: "qatmgr_msg_req \<Rightarrow> qatmgr_device_data \<Rightarrow> (int \<times> qatmgr_msg_rsp) option" where
  "instance_info req d =
     (let num = unat (inst_num req)
     in if inst_type req = 1
        then (if num \<ge> num_dc_inst d then Some (- 1, err_msg ''Invalid DC instance number'')
              else map_option (\<lambda>i. info_rsp (InstanceDc (ring_info_of i))) (nth_opt (dc_instance_data d) num))
        else if inst_type req = 6
        then (if num \<ge> num_cy_inst d then Some (- 1, err_msg ''Invalid CY instance number'')
              else map_option (\<lambda>i. info_rsp (InstanceCy (ring_info_of (sym i)) (ring_info_of (asym i))
                     (is_polled (if services d = SERV_TYPE_ASYM \<or> services d = SERV_TYPE_ASYM_DC then asym i else sym i))))
                   (nth_opt (cy_instance_data d) num))
        else if inst_type req = 2
        then (if num \<ge> num_sym_inst d then Some (- 1, err_msg ''Invalid SYM instance number'')
              else map_option (\<lambda>i. info_rsp (InstanceSym (ring_info_of (sym i)))) (nth_opt (cy_instance_data d) num))
        else if inst_type req = 4
        then (if num \<ge> num_asym_inst d then Some (- 1, err_msg ''Invalid ASYM instance number'')
              else map_option (\<lambda>i. info_rsp (InstanceAsym (ring_info_of (asym i)))) (nth_opt (cy_instance_data d) num))
        else Some (- 1, err_msg ''Unknown instance type''))"

definition handle_get_instance_info ::
  "qatmgr_msg_req \<Rightarrow> int \<Rightarrow> 's mgr_state \<Rightarrow> (int \<times> qatmgr_msg_rsp) option" where
  "handle_get_instance_info req index st =
     with_section 8 req index st (\<lambda>section. with_device (inst_device_num req) section (instance_info req))"

section \<open>Physical functions\<close>

definition handle_get_num_pf_devices ::
  "'s mgr_env \<Rightarrow> qatmgr_msg_req \<Rightarrow> 's mgr_state \<Rightarrow> int \<times> qatmgr_msg_rsp \<times> 's mgr_state" where
  "handle_get_num_pf_devices env req st =
     (if unat (req_len req) \<noteq> sizeof_hdr then (- 1, err_msg ''Inconsistent length'', st)
      else let st1 = init_pfs env st
           in if num_pfs st1 < 0 \<or> num_pfs st1 > ADF_MAX_PF_DEVICES then (- 1, err_msg ''Unable to init pfs info'', st1)
              else (0, build_msg_header 10 2 (NumDevices (of_int (num_pfs st1))), st1))"

definition handle_get_pf_device_info ::
  "'s mgr_env \<Rightarrow> qatmgr_msg_req \<Rightarrow> 's mgr_state \<Rightarrow> int \<times> qatmgr_msg_rsp \<times> 's mgr_state" where
  "handle_get_pf_device_info env req st =
     (if unat (req_len req) \<noteq> sizeof_hdr + 2 then (- 1, err_msg ''Inconsistent length'', st)
      else let st1 = init_pfs env st
           in if num_pfs st1 < 0 \<or> num_pfs st1 > ADF_MAX_PF_DEVICES then (- 1, err_msg ''Unable to init pfs info'', st1)
              else if uint (req_device_num req) \<ge> num_pfs st1 then (- 1, err_msg ''Invalid device number'', st1)
              else (0, build_msg_header 11 28 (PfInfo (pf_at st1 (unat (req_device_num req)))), st1))"

section \<open>Owning sections\<close>

text \<open>What a client thread keeps: the name and the index of its section.\<close>

record session =
  sess_name :: "string option"
  sess_index :: int

text \<open>What the system calls of a message do.\<close>

record call_env =
  getpid :: int
  malloc_ok :: bool
  lock_ok :: bool
  unlock_ok :: bool

definition release_section :: "int \<Rightarrow> u64 \<Rightarrow> string \<Rightarrow> 's mgr_state \<Rightarrow> int \<times> 's mgr_state" where
  "release_section index tid name st =
     (if index < 0 \<or> index \<ge> int (length (section_data st)) then (- 1, st)
      else let sec = section_data st ! nat index
           in if name \<noteq> section_name sec then (- 1, st)
              else if assigned_tid sec \<noteq> tid then (- 1, st)
              else (0, st\<lparr>section_data := (section_data st)[nat index := sec\<lparr>assigned_tid := 0\<rparr>]\<rparr>))"

definition get_section :: "call_env \<Rightarrow> u64 \<Rightarrow> 's mgr_state \<Rightarrow> nat option \<times> 's mgr_state" where
  "get_section ce tid st =
     (if \<not> lock_ok ce then (None, st)
      else case List.find (\<lambda>i. assigned_tid (section_data st ! i) = 0) [0..<length (section_data st)] of
             None \<Rightarrow> (None, st)
           | Some i \<Rightarrow>
               (if unlock_ok ce then Some i else None,
                st\<lparr>section_data := (section_data st)[i := (section_data st ! i)\<lparr>assigned_tid := tid\<rparr>]\<rparr>))"

text \<open>The state of the manager process: the configuration and the static process id of the handler.\<close>

record 's server =
  srv_mgr :: "'s mgr_state"
  srv_pid :: int

definition handle_section_request ::
  "call_env \<Rightarrow> qatmgr_msg_req \<Rightarrow> u64 \<Rightarrow> 's server \<Rightarrow> session \<Rightarrow> int \<times> qatmgr_msg_rsp \<times> 's server \<times> session" where
  "handle_section_request ce req tid srv sess =
     (if unat (req_len req) \<noteq> sizeof_hdr + length (req_name req) + 1 then (- 1, err_msg ''Inconsistent length'', srv, sess)
      else
        let (srv1, sess1) = (if srv_pid srv \<noteq> getpid ce
                             then (srv\<lparr>srv_pid := getpid ce\<rparr>, \<lparr>sess_name = None, sess_index = - 1\<rparr>)
                             else (srv, sess))
        in if sess_name sess1 \<noteq> None \<or> sess_index sess1 \<noteq> - 1
           then (- 1, err_msg ''Section already allocated'', srv1, sess1)
           else case get_section ce tid (srv_mgr srv1) of
                  (None, m) \<Rightarrow> (- 1, err_msg ''No section available'', srv1\<lparr>srv_mgr := m\<rparr>, sess1)
                | (Some i, m) \<Rightarrow>
                    let nm = ICP_STRLCPY (section_name (section_data m ! i)) QATMGR_MAX_STRLEN;
                        srv2 = srv1\<lparr>srv_mgr := m\<rparr>
                    in if \<not> malloc_ok ce then (- 1, err_msg ''malloc failed'', srv2, sess1\<lparr>sess_index := int i\<rparr>)
                       else (0, build_msg_header 1 (length nm + 1) (Name nm), srv2,
                             \<lparr>sess_name = Some nm, sess_index = int i\<rparr>))"

definition handle_section_release ::
  "qatmgr_msg_req \<Rightarrow> u64 \<Rightarrow> 's server \<Rightarrow> session \<Rightarrow> int \<times> qatmgr_msg_rsp \<times> 's server \<times> session" where
  "handle_section_release req tid srv sess =
     (if unat (req_len req) \<noteq> sizeof_hdr + length (req_name req) + 1 then (- 1, err_msg ''Inconsistent length'', srv, sess)
      else if sess_name sess = None then (- 1, err_msg ''Section not allocated'', srv, sess)
      else let (r, m) = release_section (sess_index sess) tid (req_name req) (srv_mgr srv)
           in if r \<noteq> 0 then (0, err_msg ''Failed to release section'', srv\<lparr>srv_mgr := m\<rparr>, sess)
              else (0, build_msg_header 2 0 NoData, srv\<lparr>srv_mgr := m\<rparr>, \<lparr>sess_name = None, sess_index = - 1\<rparr>))"

text \<open>Handlers that only read the configuration leave the server and the session alone.\<close>

definition reading ::
  "(int \<times> qatmgr_msg_rsp) option \<Rightarrow> 's server \<Rightarrow> session \<Rightarrow> (int \<times> qatmgr_msg_rsp \<times> 's server \<times> session) option" where
  "reading r srv sess = map_option (\<lambda>(ret, rsp). (ret, rsp, srv, sess)) r"

definition handle_message ::
  "'s mgr_env \<Rightarrow> call_env \<Rightarrow> qatmgr_msg_req \<Rightarrow> u64 \<Rightarrow> 's server \<Rightarrow> session \<Rightarrow>
   (int \<times> qatmgr_msg_rsp \<times> 's server \<times> session) option" where
  "handle_message env ce req tid srv sess =
     (let m = srv_mgr srv; index = sess_index sess
      in if req_version req \<noteq> THIS_LIB_VERSION
         then Some (- 1, err_msg (''Incompatible. qatmgr received msg vX from qatlib vY'' @ [CHR 0x0A]), srv, sess)
         else if req_type req = 1 then Some (handle_section_request ce req tid srv sess)
         else if req_type req = 2 then Some (handle_section_release req tid srv sess)
         else if req_type req = 3 then reading (handle_get_num_devices req index m) srv sess
         else if req_type req = 4 then reading (handle_get_device_info req index m) srv sess
         else if req_type req = 5 then reading (handle_get_device_id req index m) srv sess
         else if req_type req = 7 then reading (handle_get_instance_info req index m) srv sess
         else if req_type req = 8 then reading (handle_get_instance_name req index m) srv sess
         else if req_type req = 9 then reading (handle_get_vfio_name req index m) srv sess
         else if req_type req = 10
         then (let (ret, rsp, m1) = handle_get_num_pf_devices env req m in Some (ret, rsp, srv\<lparr>srv_mgr := m1\<rparr>, sess))
         else if req_type req = 11
         then (let (ret, rsp, m1) = handle_get_pf_device_info env req m in Some (ret, rsp, srv\<lparr>srv_mgr := m1\<rparr>, sess))
         else Some (- 1, err_msg ''Unknown message'', srv, sess))"

section \<open>Clients\<close>

text \<open>\<open>handle_client\<close> keeps the thread identity in a \<open>pid_t\<close>, so only its low 32 bits count.\<close>

definition client_tid :: "u64 \<Rightarrow> u64" where
  "client_tid self = scast (ucast self :: 32 word)"

text \<open>The end of a connection: a section that is still held is released.\<close>

definition client_close :: "u64 \<Rightarrow> 's server \<Rightarrow> session \<Rightarrow> 's server" where
  "client_close tid srv sess =
     (case sess_name sess of
        None \<Rightarrow> srv
      | Some nm \<Rightarrow> if sess_index sess \<ge> 0 then srv\<lparr>srv_mgr := snd (release_section (sess_index sess) tid nm (srv_mgr srv))\<rparr>
                   else srv)"

section \<open>Messages stay within the configuration\<close>

lemma with_section_total:
  assumes "\<And>sec. sec \<in> set (section_data st) \<Longrightarrow> \<exists>r. k sec = Some r"
  shows "\<exists>r. with_section sz req index st k = Some r"
  using assms by (auto simp: with_section_def)

lemma with_device_total:
  assumes "section_wf sec" and "\<And>d. device_wf d \<Longrightarrow> \<exists>r. k d = Some r"
  shows "\<exists>r. with_device n sec k = Some r"
proof (cases "unat n < num_devices sec")
  case True
  then have "unat n < length (device_data sec)" using assms(1) by (simp add: section_wf_def)
  then have "nth_opt (device_data sec) (unat n) = Some (device_data sec ! unat n)" "device_wf (device_data sec ! unat n)"
    using assms(1) by (auto simp: nth_opt_def section_wf_def)
  then show ?thesis using assms(2) True by (simp add: with_device_def)
qed (simp add: with_device_def)

lemma insts_total:
  assumes "device_wf d"
  shows "k < num_dc_inst d \<Longrightarrow> \<exists>i. nth_opt (dc_instance_data d) k = Some i"
    and "k < num_cy_inst d \<Longrightarrow> \<exists>i. nth_opt (cy_instance_data d) k = Some i"
    and "k < num_sym_inst d \<Longrightarrow> \<exists>i. nth_opt (cy_instance_data d) k = Some i"
    and "k < num_asym_inst d \<Longrightarrow> \<exists>i. nth_opt (cy_instance_data d) k = Some i"
  using assms by (auto simp: device_wf_def nth_opt_def)

lemma instance_total:
  assumes "device_wf d"
  shows "\<exists>r. instance_name req d = Some r" and "\<exists>r. instance_info req d = Some r"
proof -
  have n: "unat (inst_num req) < num_dc_inst d \<Longrightarrow> nth_opt (dc_instance_data d) (unat (inst_num req)) \<noteq> None"
    "unat (inst_num req) < num_cy_inst d \<Longrightarrow> nth_opt (cy_instance_data d) (unat (inst_num req)) \<noteq> None"
    "unat (inst_num req) < num_sym_inst d \<Longrightarrow> nth_opt (cy_instance_data d) (unat (inst_num req)) \<noteq> None"
    "unat (inst_num req) < num_asym_inst d \<Longrightarrow> nth_opt (cy_instance_data d) (unat (inst_num req)) \<noteq> None"
    using insts_total [OF assms, of "unat (inst_num req)"] by auto
  have "instance_name req d \<noteq> None" "instance_info req d \<noteq> None"
    using n unfolding instance_name_def instance_info_def Let_def by (simp_all add: not_le del: not_None_eq)
  then show "\<exists>r. instance_name req d = Some r" "\<exists>r. instance_info req d = Some r" by auto
qed

lemma reads_total:
  assumes "cfg_wf m"
  shows "\<exists>r. handle_get_num_devices req index m = Some r" "\<exists>r. handle_get_device_info req index m = Some r"
    "\<exists>r. handle_get_device_id req index m = Some r" "\<exists>r. handle_get_vfio_name req index m = Some r"
    "\<exists>r. handle_get_instance_name req index m = Some r" "\<exists>r. handle_get_instance_info req index m = Some r"
proof -
  have wf: "section_wf sec" if "sec \<in> set (section_data m)" for sec using assms that by (simp add: cfg_wf_def)
  note total = with_section_total with_device_total [OF wf]
  show "\<exists>r. handle_get_num_devices req index m = Some r"
    unfolding handle_get_num_devices_def by (rule with_section_total) simp
  show "\<exists>r. handle_get_device_info req index m = Some r"
    unfolding handle_get_device_info_def by (intro total) simp_all
  show "\<exists>r. handle_get_device_id req index m = Some r"
    unfolding handle_get_device_id_def by (intro total) (simp_all add: Let_def)
  show "\<exists>r. handle_get_vfio_name req index m = Some r"
    unfolding handle_get_vfio_name_def by (intro total) (simp_all add: Let_def)
  show "\<exists>r. handle_get_instance_name req index m = Some r"
    unfolding handle_get_instance_name_def by (intro total instance_total)
  show "\<exists>r. handle_get_instance_info req index m = Some r"
    unfolding handle_get_instance_info_def by (intro total instance_total)
qed

lemma handle_message_total:
  assumes "cfg_wf (srv_mgr srv)"
  shows "\<exists>r. handle_message env ce req tid srv sess = Some r"
proof -
  let ?i = "sess_index sess" and ?m = "srv_mgr srv"
  have r: "handle_get_num_devices req ?i ?m \<noteq> None" "handle_get_device_info req ?i ?m \<noteq> None"
    "handle_get_device_id req ?i ?m \<noteq> None" "handle_get_vfio_name req ?i ?m \<noteq> None"
    "handle_get_instance_name req ?i ?m \<noteq> None" "handle_get_instance_info req ?i ?m \<noteq> None"
    using reads_total [OF assms, of req ?i] by auto
  have "handle_message env ce req tid srv sess \<noteq> None"
    using r by (simp add: handle_message_def reading_def Let_def del: not_None_eq split: prod.splits)
  then show ?thesis by blast
qed

section \<open>What a message changes\<close>

text \<open>
  The effect of a message on the owners of the sections and on the session: nothing, a fresh section
  taken (and remembered, or lost after a failed unlock), or the own section given back.
\<close>

definition idle :: session where
  "idle = \<lparr>sess_name = None, sess_index = - 1\<rparr>"

definition takes :: "nat \<Rightarrow> u64 \<Rightarrow> qatmgr_section_data list \<Rightarrow> qatmgr_section_data list \<Rightarrow> bool" where
  "takes i tid secs secs' \<longleftrightarrow> i < length secs \<and> assigned_tid (secs ! i) = 0 \<and>
     secs' = secs[i := (secs ! i)\<lparr>assigned_tid := tid\<rparr>]"

definition gives :: "nat \<Rightarrow> u64 \<Rightarrow> qatmgr_section_data list \<Rightarrow> qatmgr_section_data list \<Rightarrow> bool" where
  "gives i tid secs secs' \<longleftrightarrow> i < length secs \<and> assigned_tid (secs ! i) = tid \<and>
     secs' = secs[i := (secs ! i)\<lparr>assigned_tid := 0\<rparr>]"

lemma get_section_effect:
  assumes "get_section ce tid m = (r, m')"
  shows "(r = None \<and> m' = m) \<or>
    (\<exists>i. takes i tid (section_data m) (section_data m') \<and> (r = None \<or> r = Some i))"
proof (cases "lock_ok ce")
  case False
  then show ?thesis using assms by (simp add: get_section_def)
next
  case lock: True
  show ?thesis
  proof (cases "List.find (\<lambda>i. assigned_tid (section_data m ! i) = 0) [0..<length (section_data m)]")
    case None
    then show ?thesis using assms lock by (simp add: get_section_def)
  next
    case (Some i)
    then have "i < length (section_data m)" "assigned_tid (section_data m ! i) = 0" by (auto simp: find_Some_iff)
    then have "takes i tid (section_data m) (section_data m')" "r = None \<or> r = Some i"
      using assms lock Some by (auto simp: get_section_def takes_def)
    then show ?thesis by blast
  qed
qed

lemma release_effect:
  assumes "release_section i tid nm m = (r, m')"
  shows "(r = - 1 \<and> m' = m) \<or> (r = 0 \<and> 0 \<le> i \<and> gives (nat i) tid (section_data m) (section_data m'))"
  using assms by (auto simp: release_section_def gives_def Let_def split: if_splits)

lemma request_effect:
  assumes r: "handle_section_request ce req tid srv sess = (ret, rsp, srv', sess')"
  shows "(srv' = srv \<and> sess' = sess) \<or>
    (srv_pid srv' = getpid ce \<and>
     (\<exists>sess1. (sess1 = idle \<or> srv_pid srv = getpid ce \<and> sess1 = sess) \<and>
       (section_data (srv_mgr srv') = section_data (srv_mgr srv) \<and> sess' = sess1 \<or>
        sess1 = idle \<and>
        (\<exists>i. takes i tid (section_data (srv_mgr srv)) (section_data (srv_mgr srv')) \<and>
           (sess' = idle \<or> sess_index sess' = int i)))))"
proof (cases "unat (req_len req) \<noteq> 8 + length (req_name req) + 1")
  case True
  then show ?thesis using r by (simp add: handle_section_request_def)
next
  case len: False
  define srv1 where "srv1 = (if srv_pid srv \<noteq> getpid ce then srv\<lparr>srv_pid := getpid ce\<rparr> else srv)"
  define sess1 where "sess1 = (if srv_pid srv \<noteq> getpid ce then idle else sess)"
  have s1: "srv_pid srv1 = getpid ce" "srv_mgr srv1 = srv_mgr srv" "sess1 = idle \<or> srv_pid srv = getpid ce \<and> sess1 = sess"
    by (auto simp: srv1_def sess1_def)
  have pair: "(if srv_pid srv \<noteq> getpid ce then (srv\<lparr>srv_pid := getpid ce\<rparr>, \<lparr>sess_name = None, sess_index = - 1\<rparr>)
      else (srv, sess)) = (srv1, sess1)" by (simp add: srv1_def sess1_def idle_def)
  show ?thesis
  proof (cases "sess_name sess1 \<noteq> None \<or> sess_index sess1 \<noteq> - 1")
    case True
    then have "srv' = srv1" "sess' = sess1" using r len unfolding handle_section_request_def pair by auto
    then show ?thesis using s1 by auto
  next
    case False
    then have i1: "sess1 = idle" by (cases sess1) (auto simp: idle_def)
    obtain o' m where g: "get_section ce tid (srv_mgr srv1) = (o', m)" by (cases rule: prod.exhaust)
    have "srv' = srv1\<lparr>srv_mgr := m\<rparr> \<and> (case o' of None \<Rightarrow> sess' = sess1 | Some i \<Rightarrow> sess_index sess' = int i)"
      using r len False g unfolding handle_section_request_def pair
      by (auto simp: Let_def split: option.splits if_splits)
    then show ?thesis using get_section_effect [OF g] s1 i1 by (cases o') auto
  qed
qed

lemma put_effect:
  assumes r: "handle_section_release req tid srv sess = (ret, rsp, srv', sess')"
  shows "srv_pid srv' = srv_pid srv \<and>
    (section_data (srv_mgr srv') = section_data (srv_mgr srv) \<and> sess' = sess \<or>
     sess' = idle \<and> 0 \<le> sess_index sess \<and>
       gives (nat (sess_index sess)) tid (section_data (srv_mgr srv)) (section_data (srv_mgr srv')))"
proof -
  obtain e m where g: "release_section (sess_index sess) tid (req_name req) (srv_mgr srv) = (e, m)" by (cases rule: prod.exhaust)
  show ?thesis using r g release_effect [OF g]
    by (auto simp: handle_section_release_def idle_def split: if_splits)
qed

lemma message_effect:
  assumes "handle_message env ce req tid srv sess = Some (ret, rsp, srv', sess')"
  shows "(section_data (srv_mgr srv') = section_data (srv_mgr srv) \<and> sess' = sess \<and> srv_pid srv' = srv_pid srv) \<or>
    handle_section_request ce req tid srv sess = (ret, rsp, srv', sess') \<or>
    handle_section_release req tid srv sess = (ret, rsp, srv', sess')"
proof -
  have pf: "section_data m1 = section_data m" if "handle_get_num_pf_devices env req m = (a, b, m1)" for a b m m1
    using that by (auto simp: handle_get_num_pf_devices_def init_pfs_def Let_def split: if_splits)
  have pf2: "section_data m1 = section_data m" if "handle_get_pf_device_info env req m = (a, b, m1)" for a b m m1
    using that by (auto simp: handle_get_pf_device_info_def init_pfs_def Let_def split: if_splits)
  show ?thesis
    using assms unfolding handle_message_def reading_def Let_def
    by (auto dest: pf pf2 split: if_splits prod.splits option.splits)
qed

section \<open>Clients of the manager\<close>

text \<open>
  The manager process with its connections, one thread each.  Steps of different clients
  interleave freely; the process id is that of the manager.
\<close>

record client =
  cl_tid :: u64
  cl_sess :: session

record 's system =
  sys_server :: "'s server"
  sys_clients :: "nat \<Rightarrow> client option"

inductive sys_step :: "'s mgr_env \<Rightarrow> int \<Rightarrow> 's system \<Rightarrow> 's system \<Rightarrow> bool" for env pid where
  sys_connect: "\<lbrakk>sys_clients s c = None; client_tid self \<noteq> 0\<rbrakk> \<Longrightarrow>
    sys_step env pid s (s\<lparr>sys_clients := (sys_clients s)(c \<mapsto> \<lparr>cl_tid = client_tid self, cl_sess = idle\<rparr>)\<rparr>)"
| sys_message: "\<lbrakk>sys_clients s c = Some cl; getpid ce = pid;
    handle_message env ce req (cl_tid cl) (sys_server s) (cl_sess cl) = Some (ret, rsp, srv', sess')\<rbrakk> \<Longrightarrow>
    sys_step env pid s (s\<lparr>sys_server := srv', sys_clients := (sys_clients s)(c \<mapsto> cl\<lparr>cl_sess := sess'\<rparr>)\<rparr>)"
| sys_close: "sys_clients s c = Some cl \<Longrightarrow>
    sys_step env pid s (s\<lparr>sys_server := client_close (cl_tid cl) (sys_server s) (cl_sess cl),
      sys_clients := (sys_clients s)(c := None)\<rparr>)"

inductive sys_run :: "'s mgr_env \<Rightarrow> int \<Rightarrow> 's mgr_state \<Rightarrow> 's system \<Rightarrow> bool" for env pid m where
  sys_start: "pid \<noteq> 0 \<Longrightarrow>
    sys_run env pid m \<lparr>sys_server = \<lparr>srv_mgr = m, srv_pid = 0\<rparr>, sys_clients = (\<lambda>c. None)\<rparr>"
| sys_next: "\<lbrakk>sys_run env pid m s; sys_step env pid s s'\<rbrakk> \<Longrightarrow> sys_run env pid m s'"

abbreviation sys_secs :: "'s system \<Rightarrow> qatmgr_section_data list" where
  "sys_secs s \<equiv> section_data (srv_mgr (sys_server s))"

text \<open>A client that holds a section is its owner, and no two clients hold the same section.\<close>

definition client_ok :: "qatmgr_section_data list \<Rightarrow> client \<Rightarrow> bool" where
  "client_ok secs cl \<longleftrightarrow> cl_tid cl \<noteq> 0 \<and>
     (cl_sess cl = idle \<or>
      (\<exists>i < length secs. sess_index (cl_sess cl) = int i \<and> assigned_tid (secs ! i) = cl_tid cl))"

definition sys_inv :: "int \<Rightarrow> 's system \<Rightarrow> bool" where
  "sys_inv pid s \<longleftrightarrow>
     (\<forall>c cl. sys_clients s c = Some cl \<longrightarrow> client_ok (sys_secs s) cl) \<and>
     (\<forall>c cl d dl i. sys_clients s c = Some cl \<longrightarrow> sys_clients s d = Some dl \<longrightarrow> c \<noteq> d \<longrightarrow>
        sess_index (cl_sess cl) = int i \<longrightarrow> sess_index (cl_sess dl) \<noteq> int i) \<and>
     (srv_pid (sys_server s) \<noteq> pid \<longrightarrow> (\<forall>c cl. sys_clients s c = Some cl \<longrightarrow> cl_sess cl = idle))"

lemma idle_index: "sess_index idle \<noteq> int i"
  by (simp add: idle_def)

lemma client_ok_takes:
  assumes "client_ok secs cl" and "takes i tid secs secs'"
  shows "client_ok secs' cl" and "cl_sess cl = idle \<or> sess_index (cl_sess cl) \<noteq> int i"
  using assms by (auto simp: client_ok_def takes_def nth_list_update)

lemma client_ok_gives:
  assumes "client_ok secs cl" and "gives i tid secs secs'" and "sess_index (cl_sess cl) \<noteq> int i"
  shows "client_ok secs' cl"
  using assms by (auto simp: client_ok_def gives_def nth_list_update)

lemma sys_invD:
  assumes "sys_inv pid s"
  shows "\<And>c cl. sys_clients s c = Some cl \<Longrightarrow> client_ok (sys_secs s) cl"
    and "\<And>c cl d dl i. \<lbrakk>sys_clients s c = Some cl; sys_clients s d = Some dl; c \<noteq> d; sess_index (cl_sess cl) = int i\<rbrakk> \<Longrightarrow>
      sess_index (cl_sess dl) \<noteq> int i"
    and "\<And>c cl. \<lbrakk>srv_pid (sys_server s) \<noteq> pid; sys_clients s c = Some cl\<rbrakk> \<Longrightarrow> cl_sess cl = idle"
  using assms unfolding sys_inv_def by blast+

text \<open>Replacing one client.\<close>

lemma sys_inv_upd:
  assumes inv: "sys_inv pid s"
    and others: "\<And>d x. \<lbrakk>sys_clients s d = Some x; d \<noteq> c\<rbrakk> \<Longrightarrow> client_ok (section_data (srv_mgr srv')) x"
    and mine: "\<And>x. new = Some x \<Longrightarrow> client_ok (section_data (srv_mgr srv')) x"
    and excl: "\<And>x d y i. \<lbrakk>new = Some x; sys_clients s d = Some y; d \<noteq> c; sess_index (cl_sess x) = int i\<rbrakk> \<Longrightarrow>
      sess_index (cl_sess y) \<noteq> int i"
    and pid: "srv_pid srv' = pid \<or> srv_pid srv' = srv_pid (sys_server s) \<and> (\<forall>x. new = Some x \<longrightarrow> cl_sess x = idle)"
  shows "sys_inv pid (s\<lparr>sys_server := srv', sys_clients := (sys_clients s)(c := new)\<rparr>)"
proof -
  let ?f = "(sys_clients s)(c := new)"
  have "client_ok (section_data (srv_mgr srv')) x" if "?f d = Some x" for d x
    using that others mine by (cases "d = c") auto
  moreover have "sess_index (cl_sess y) \<noteq> int i"
    if f: "?f d = Some x" "?f e = Some y" "d \<noteq> e" "sess_index (cl_sess x) = int i" for d e x y i
  proof -
    consider "d = c" | "e = c" | "d \<noteq> c" "e \<noteq> c" by blast
    then show ?thesis
    proof cases
      case 1
      then show ?thesis using f excl [of x e y i] by auto
    next
      case 2
      then show ?thesis using f excl [of y d x i] by auto
    next
      case 3
      then show ?thesis using f sys_invD(2) [OF inv, of d x e y i] by auto
    qed
  qed
  moreover have "cl_sess x = idle" if "srv_pid srv' \<noteq> pid" "?f d = Some x" for d x
    using that pid sys_invD(3) [OF inv, of d x] by (cases "d = c") auto
  ultimately show ?thesis unfolding sys_inv_def by simp
qed

lemma sys_inv_start: "sys_inv pid \<lparr>sys_server = srv, sys_clients = (\<lambda>c. None)\<rparr>"
  by (simp add: sys_inv_def)

text \<open>Updating one client, with the owners unchanged, one section taken, or one given back.\<close>

lemma sys_inv_same:
  assumes inv: "sys_inv pid s" and cl: "sys_clients s c = Some cl" and secs: "section_data (srv_mgr srv') = sys_secs s"
    and sess: "sess' = cl_sess cl \<or> sess' = idle" and pid: "srv_pid srv' = srv_pid (sys_server s) \<or> srv_pid srv' = pid"
  shows "sys_inv pid (s\<lparr>sys_server := srv', sys_clients := (sys_clients s)(c \<mapsto> cl\<lparr>cl_sess := sess'\<rparr>)\<rparr>)"
proof (rule sys_inv_upd [OF inv])
  show "client_ok (section_data (srv_mgr srv')) x" if "sys_clients s d = Some x" "d \<noteq> c" for d x
    unfolding secs by (rule sys_invD(1) [OF inv that(1)])
  show "client_ok (section_data (srv_mgr srv')) x" if "Some (cl\<lparr>cl_sess := sess'\<rparr>) = Some x" for x
    using that sys_invD(1) [OF inv cl] sess unfolding secs by (auto simp: client_ok_def)
  show "sess_index (cl_sess y) \<noteq> int i"
    if "Some (cl\<lparr>cl_sess := sess'\<rparr>) = Some x" "sys_clients s d = Some y" "d \<noteq> c" "sess_index (cl_sess x) = int i" for x d y i
    using that sys_invD(2) [OF inv cl that(2), of i] sess idle_index by auto
  show "srv_pid srv' = pid \<or> srv_pid srv' = srv_pid (sys_server s) \<and> (\<forall>x. Some (cl\<lparr>cl_sess := sess'\<rparr>) = Some x \<longrightarrow> cl_sess x = idle)"
    using pid sess sys_invD(3) [OF inv _ cl] by auto
qed

lemma sys_inv_takes:
  assumes inv: "sys_inv pid s" and cl: "sys_clients s c = Some cl"
    and t: "takes i (cl_tid cl) (sys_secs s) (section_data (srv_mgr srv'))"
    and sess: "sess' = idle \<or> sess_index sess' = int i" and pid: "srv_pid srv' = pid"
  shows "sys_inv pid (s\<lparr>sys_server := srv', sys_clients := (sys_clients s)(c \<mapsto> cl\<lparr>cl_sess := sess'\<rparr>)\<rparr>)"
proof (rule sys_inv_upd [OF inv])
  show "client_ok (section_data (srv_mgr srv')) x" if "sys_clients s d = Some x" "d \<noteq> c" for d x
    by (rule client_ok_takes(1) [OF sys_invD(1) [OF inv that(1)] t])
  show "client_ok (section_data (srv_mgr srv')) x" if "Some (cl\<lparr>cl_sess := sess'\<rparr>) = Some x" for x
    using that sys_invD(1) [OF inv cl] t sess by (auto simp: client_ok_def takes_def)
  show "sess_index (cl_sess y) \<noteq> int k"
    if "Some (cl\<lparr>cl_sess := sess'\<rparr>) = Some x" "sys_clients s d = Some y" "d \<noteq> c" "sess_index (cl_sess x) = int k" for x d y k
    using that client_ok_takes(2) [OF sys_invD(1) [OF inv that(2)] t] sess idle_index by auto
qed (use pid in simp)

lemma sys_inv_gives:
  assumes inv: "sys_inv pid s" and cl: "sys_clients s c = Some cl" "sess_index (cl_sess cl) = int i"
    and g: "gives i (cl_tid cl) (sys_secs s) (section_data (srv_mgr srv'))"
    and pid: "srv_pid srv' = srv_pid (sys_server s)"
    and new: "new = None \<or> new = Some (cl\<lparr>cl_sess := idle\<rparr>)"
  shows "sys_inv pid (s\<lparr>sys_server := srv', sys_clients := (sys_clients s)(c := new)\<rparr>)"
proof (rule sys_inv_upd [OF inv])
  show "client_ok (section_data (srv_mgr srv')) x" if "sys_clients s d = Some x" "d \<noteq> c" for d x
    using client_ok_gives [OF sys_invD(1) [OF inv that(1)] g] sys_invD(2) [OF inv cl(1) that(1) _ cl(2)] that(2) by simp
  show "client_ok (section_data (srv_mgr srv')) x" if "new = Some x" for x
    using that new sys_invD(1) [OF inv cl(1)] by (auto simp: client_ok_def)
  show "sess_index (cl_sess y) \<noteq> int k"
    if "new = Some x" "sys_clients s d = Some y" "d \<noteq> c" "sess_index (cl_sess x) = int k" for x d y k
    using that new idle_index by auto
qed (use pid new in auto)

lemma sys_step_inv:
  assumes "sys_step env pid s s'" and inv: "sys_inv pid s"
  shows "sys_inv pid s'"
  using assms(1)
proof cases
  case (sys_connect c self)
  have "sys_inv pid (s\<lparr>sys_server := sys_server s, sys_clients := (sys_clients s)(c := Some \<lparr>cl_tid = client_tid self, cl_sess = idle\<rparr>)\<rparr>)"
  proof (rule sys_inv_upd [OF inv])
    show "client_ok (sys_secs s) x" if "sys_clients s d = Some x" "d \<noteq> c" for d x by (rule sys_invD(1) [OF inv that(1)])
  qed (use sys_connect idle_index in \<open>auto simp: client_ok_def\<close>)
  then show ?thesis using sys_connect(1) by simp
next
  case (sys_message c cl ce req ret rsp srv' sess')
  from message_effect [OF sys_message(4)] consider
      (same) "section_data (srv_mgr srv') = sys_secs s" "sess' = cl_sess cl" "srv_pid srv' = srv_pid (sys_server s)"
    | (request) "handle_section_request ce req (cl_tid cl) (sys_server s) (cl_sess cl) = (ret, rsp, srv', sess')"
    | (release) "handle_section_release req (cl_tid cl) (sys_server s) (cl_sess cl) = (ret, rsp, srv', sess')" by blast
  then have "sys_inv pid (s\<lparr>sys_server := srv', sys_clients := (sys_clients s)(c \<mapsto> cl\<lparr>cl_sess := sess'\<rparr>)\<rparr>)"
  proof cases
    case same
    then show ?thesis by (intro sys_inv_same [OF inv sys_message(2)]) auto
  next
    case request
    from request_effect [OF request] show ?thesis
      using sys_inv_same [OF inv sys_message(2), of srv' sess'] sys_inv_takes [OF inv sys_message(2), of _ srv' sess'] sys_message(3)
      by auto
  next
    case release
    from put_effect [OF release] show ?thesis
      using sys_inv_same [OF inv sys_message(2), of srv' sess']
        sys_inv_gives [OF inv sys_message(2), of "nat (sess_index (cl_sess cl))" srv' "Some (cl\<lparr>cl_sess := idle\<rparr>)"] by auto
  qed
  then show ?thesis using sys_message(1) by simp
next
  case (sys_close c cl)
  let ?srv = "client_close (cl_tid cl) (sys_server s) (cl_sess cl)"
  have "section_data (srv_mgr ?srv) = sys_secs s \<or> 0 \<le> sess_index (cl_sess cl) \<and>
      gives (nat (sess_index (cl_sess cl))) (cl_tid cl) (sys_secs s) (section_data (srv_mgr ?srv))"
    using release_effect [of "sess_index (cl_sess cl)" "cl_tid cl" _ "srv_mgr (sys_server s)"]
    by (auto simp: client_close_def split: option.splits) (metis prod.collapse)+
  moreover have pid: "srv_pid ?srv = srv_pid (sys_server s)" by (auto simp: client_close_def split: option.splits)
  moreover have "sys_inv pid (s\<lparr>sys_server := ?srv, sys_clients := (sys_clients s)(c := None)\<rparr>)"
    if "section_data (srv_mgr ?srv) = sys_secs s"
  proof (rule sys_inv_upd [OF inv])
    show "client_ok (section_data (srv_mgr ?srv)) x" if "sys_clients s d = Some x" "d \<noteq> c" for d x
      using sys_invD(1) [OF inv that(1)] \<open>section_data (srv_mgr ?srv) = sys_secs s\<close> by simp
  qed (use pid in auto)
  ultimately have "sys_inv pid (s\<lparr>sys_server := ?srv, sys_clients := (sys_clients s)(c := None)\<rparr>)"
    using sys_inv_gives [OF inv sys_close(2), of "nat (sess_index (cl_sess cl))" ?srv None] by auto
  then show ?thesis using sys_close(1) by simp
qed

lemma sys_run_inv: "sys_run env pid m s \<Longrightarrow> sys_inv pid s"
  by (induction rule: sys_run.induct) (auto intro: sys_inv_start sys_step_inv)

section \<open>The configuration does not change\<close>

definition strip :: "qatmgr_section_data list \<Rightarrow> qatmgr_section_data list" where
  "strip secs = map (\<lambda>sec. sec\<lparr>assigned_tid := 0\<rparr>) secs"

lemma strip_upd: "i < length secs \<Longrightarrow> strip (secs[i := (secs ! i)\<lparr>assigned_tid := t\<rparr>]) = strip secs"
  by (simp add: strip_def list_eq_iff_nth_eq nth_list_update)

lemma strip_takes: "takes i t secs secs' \<Longrightarrow> strip secs' = strip secs"
  by (simp add: takes_def strip_upd)

lemma strip_gives: "gives i t secs secs' \<Longrightarrow> strip secs' = strip secs"
  by (simp add: gives_def strip_upd)

lemma sys_step_strip:
  assumes "sys_step env pid s s'"
  shows "strip (sys_secs s') = strip (sys_secs s)"
  using assms
proof cases
  case (sys_message c cl ce req ret rsp srv' sess')
  from message_effect [OF sys_message(4)] have "strip (section_data (srv_mgr srv')) = strip (sys_secs s)"
    using request_effect [of ce req "cl_tid cl" "sys_server s" "cl_sess cl" ret rsp srv' sess']
      put_effect [of req "cl_tid cl" "sys_server s" "cl_sess cl" ret rsp srv' sess'] strip_takes strip_gives by metis
  then show ?thesis using sys_message(1) by simp
next
  case (sys_close c cl)
  have "strip (section_data (snd (release_section i t nm m))) = strip (section_data m)" for i t nm and m :: "'a mgr_state"
    using release_effect [of i t nm m] strip_gives by (cases "release_section i t nm m") auto
  then show ?thesis using sys_close(1) by (auto simp: client_close_def split: option.splits)
qed simp

lemma sys_run_strip: "sys_run env pid m s \<Longrightarrow> strip (sys_secs s) = strip (section_data m)"
  by (induction rule: sys_run.induct) (auto dest: sys_step_strip)

lemma cfg_wf_strip: "cfg_wf m \<longleftrightarrow> (\<forall>sec \<in> set (strip (section_data m)). section_wf sec)"
  by (simp add: cfg_wf_def strip_def section_wf_def)

lemma distinct_parts:
  assumes "distinct (concat xss)" and "i < length xss" and "j < length xss" and "i \<noteq> j"
  shows "set (xss ! i) \<inter> set (xss ! j) = {}"
  using assms
proof (induction xss arbitrary: i j)
  case (Cons xs xss)
  have "set xs \<inter> set (xss ! k) = {}" if "k < length xss" for k using Cons.prems(1) nth_mem [OF that] by auto
  then show ?case using Cons by (cases i; cases j) auto
qed simp

lemma section_files:
  assumes "section_of sl sec" and "\<forall>dd \<in> set sl. length (vfio_file dd) < 64"
  shows "map device_file (device_data sec) = map vfio_file sl"
proof (rule nth_equalityI)
  show len: "length (map device_file (device_data sec)) = length (map vfio_file sl)"
    using assms(1) by (simp add: section_of_def)
  fix k assume "k < length (map device_file (device_data sec))"
  then have k: "k < length sl" using len by simp
  have "device_file (device_data sec ! k) = ICP_STRLCPY (vfio_file (sl ! k)) 64"
    using assms(1) k by (simp add: section_of_def built_from_def)
  moreover have "length (vfio_file (sl ! k)) \<le> 63" using assms(2) nth_mem [OF k] by fastforce
  ultimately show "map device_file (device_data sec) ! k = map vfio_file sl ! k"
    using k len by (simp add: ICP_STRLCPY_def)
qed

lemma sections_files:
  assumes "list_all2 section_of sls secs" and "\<forall>sl \<in> set sls. \<forall>dd \<in> set sl. length (vfio_file dd) < 64"
  shows "map (\<lambda>sec. map device_file (device_data sec)) secs = map (map vfio_file) sls"
  using assms by (induction rule: list_all2_induct) (simp_all add: section_files)

lemma files_strip: "map (\<lambda>sec. map device_file (device_data sec)) (strip secs) = map (\<lambda>sec. map device_file (device_data sec)) secs"
  by (simp add: strip_def)

lemma run_files:
  assumes "sys_run env pid m s"
  shows "map (\<lambda>sec. map device_file (device_data sec)) (sys_secs s) = map (\<lambda>sec. map device_file (device_data sec)) (section_data m)"
  using sys_run_strip [OF assms] files_strip by metis

section \<open>A concrete run for the witnesses\<close>

definition example_mgr :: "unit mgr_state" where
  "example_mgr = snd (the (qat_mgr_build_data example_env example_devs 0 False example_state))"

definition get_req :: qatmgr_msg_req where
  "get_req = \<lparr>req_len = 9, req_version = 0x1802, req_type = 1, req_payload = replicate 256 0\<rparr>"

definition example_call :: call_env where
  "example_call = \<lparr>getpid = 77, malloc_ok = True, lock_ok = True, unlock_ok = True\<rparr>"

text \<open>Two clients ask for a section each.\<close>

definition example_first :: "(int \<times> qatmgr_msg_rsp \<times> unit server \<times> session) option" where
  "example_first = handle_message example_env example_call get_req (client_tid 0x700) \<lparr>srv_mgr = example_mgr, srv_pid = 0\<rparr> idle"

definition example_second :: "(int \<times> qatmgr_msg_rsp \<times> unit server \<times> session) option" where
  "example_second = (case example_first of None \<Rightarrow> None
     | Some (ret, rsp, srv, sess) \<Rightarrow> handle_message example_env example_call get_req (client_tid 0x1700) srv idle)"

lemma example_answers:
  "map_option (\<lambda>(ret, rsp, srv, sess). (ret, sess_index sess)) example_first = Some (0, 0)"
  "map_option (\<lambda>(ret, rsp, srv, sess). (ret, sess_index sess)) example_second = Some (0, 1)"
  by code_simp+

lemma example_run:
  "\<exists>s cl cl'. sys_run example_env 77 example_mgr s \<and> sys_clients s 0 = Some cl \<and> sys_clients s 1 = Some cl' \<and>
     sess_index (cl_sess cl) = int 0 \<and> sess_index (cl_sess cl') = int 1"
proof -
  let ?srv0 = "\<lparr>srv_mgr = example_mgr, srv_pid = 0\<rparr>"
  let ?c0 = "\<lparr>cl_tid = client_tid 0x700, cl_sess = idle\<rparr>" and ?c1 = "\<lparr>cl_tid = client_tid 0x1700, cl_sess = idle\<rparr>"
  obtain r1 p1 srv1 sess1 where m1: "handle_message example_env example_call get_req (client_tid 0x700) ?srv0 idle =
      Some (r1, p1, srv1, sess1)" "sess_index sess1 = 0"
    using example_answers(1) unfolding example_first_def by auto
  obtain r2 p2 srv2 sess2 where m2: "handle_message example_env example_call get_req (client_tid 0x1700) srv1 idle =
      Some (r2, p2, srv2, sess2)" "sess_index sess2 = 1"
    using example_answers(2) m1(1) unfolding example_second_def example_first_def by auto
  have pid: "getpid example_call = 77" by (simp add: example_call_def)
  have tid: "client_tid 0x700 \<noteq> 0" "client_tid 0x1700 \<noteq> 0" by code_simp+
  let ?s0 = "\<lparr>sys_server = ?srv0, sys_clients = (\<lambda>c. None)\<rparr> :: unit system"
  let ?s1 = "?s0\<lparr>sys_clients := (sys_clients ?s0)(0 \<mapsto> ?c0)\<rparr>"
  let ?s2 = "?s1\<lparr>sys_clients := (sys_clients ?s1)(1 \<mapsto> ?c1)\<rparr>"
  let ?s3 = "?s2\<lparr>sys_server := srv1, sys_clients := (sys_clients ?s2)(0 \<mapsto> ?c0\<lparr>cl_sess := sess1\<rparr>)\<rparr>"
  let ?s4 = "?s3\<lparr>sys_server := srv2, sys_clients := (sys_clients ?s3)(1 \<mapsto> ?c1\<lparr>cl_sess := sess2\<rparr>)\<rparr>"
  have "sys_run example_env 77 example_mgr ?s0" by (rule sys_run.sys_start) simp
  moreover have "sys_step example_env 77 ?s0 ?s1" by (rule sys_step.sys_connect) (simp_all add: tid)
  moreover have "sys_step example_env 77 ?s1 ?s2" by (rule sys_step.sys_connect) (simp_all add: tid)
  moreover have "sys_step example_env 77 ?s2 ?s3"
    by (rule sys_step.sys_message [where ce = example_call and req = get_req]) (simp_all add: m1 pid)
  moreover have "sys_step example_env 77 ?s3 ?s4"
    by (rule sys_step.sys_message [where ce = example_call and req = get_req]) (simp_all add: m2 pid)
  ultimately have "sys_run example_env 77 example_mgr ?s4" by (blast intro: sys_run.sys_next)
  then show ?thesis using m1(2) m2(2) by (intro exI [of _ ?s4]) simp
qed

lemma example_mgr_built: "qat_mgr_build_data example_env example_devs 0 False example_state = Some (0, example_mgr)"
  using example_builds unfolding example_mgr_def by auto

lemma example_devs_files: "distinct (map vfio_file example_devs)" "\<forall>dd \<in> set example_devs. length (vfio_file dd) < 64"
    "length example_devs \<le> 512"
  by (simp_all add: example_devs_def)

section \<open>Properties\<close>

text \<open>C4. No two clients ever get the same virtual function: in every interleaving of connections, messages and
  disconnections, with any failures of memory or of the mutex, two clients that hold sections hold different
  sections, and no device file is in both.\<close>

theorem clients_disjoint:
  assumes "qat_mgr_build_data env dl policy False st = Some (0, m)"
    and files: "distinct (map vfio_file dl)" "\<forall>dd \<in> set dl. length (vfio_file dd) < 64"
    and run: "sys_run env pid m s" and c: "sys_clients s c = Some cl" and d: "sys_clients s d = Some cl'" and ne: "c \<noteq> d"
    and i: "sess_index (cl_sess cl) = int i" and j: "sess_index (cl_sess cl') = int j"
  shows "i < length (sys_secs s) \<and> j < length (sys_secs s) \<and> i \<noteq> j \<and>
    set (map device_file (device_data (sys_secs s ! i))) \<inter> set (map device_file (device_data (sys_secs s ! j))) = {}"
proof -
  note inv = sys_run_inv [OF run]
  have lt: "i < length (sys_secs s)" "j < length (sys_secs s)"
    using sys_invD(1) [OF inv c] sys_invD(1) [OF inv d] i j idle_index by (auto simp: client_ok_def)
  have ij: "i \<noteq> j" using sys_invD(2) [OF inv c d ne i] j by simp
  obtain sls rest where s: "concat sls @ rest = dl" "list_all2 section_of sls (section_data m)"
    using build_ok [OF assms(1)] by blast
  have "\<forall>sl \<in> set sls. \<forall>dd \<in> set sl. length (vfio_file dd) < 64" using s(1) files(2) by auto
  then have f: "map (\<lambda>sec. map device_file (device_data sec)) (sys_secs s) = map (map vfio_file) sls"
    using run_files [OF run] sections_files [OF s(2)] by simp
  have "distinct (concat (map (map vfio_file) sls))"
    using files(1) s(1) by (metis distinct_append map_append map_concat)
  from distinct_parts [OF this, of i j] have "set (map (map vfio_file) sls ! i) \<inter> set (map (map vfio_file) sls ! j) = {}"
    using lt ij f by (metis length_map)
  then show ?thesis using lt ij f [symmetric] by simp
qed

theorem clients_disjoint_witness:
  "\<exists>s i j. sys_run example_env 77 example_mgr s \<and> i \<noteq> j \<and>
     set (map device_file (device_data (sys_secs s ! i))) \<inter> set (map device_file (device_data (sys_secs s ! j))) = {}"
proof -
  obtain s cl cl' where r: "sys_run example_env 77 example_mgr s" "sys_clients s 0 = Some cl" "sys_clients s 1 = Some cl'"
      "sess_index (cl_sess cl) = int 0" "sess_index (cl_sess cl') = int 1" using example_run by blast
  from clients_disjoint [OF example_mgr_built example_devs_files(1,2) r(1,2,3) _ r(4,5)] show ?thesis using r(1) by auto
qed

text \<open>C19. Every message gets an answer: after \<open>qat_mgr_build_data\<close> on the at most 512 functions its callers pass,
  whether it succeeded or not, no request of any client reads outside the arrays of the configuration.\<close>

theorem messages_in_bounds:
  assumes "length dl \<le> 512" and "section_data st = []" and "qat_mgr_build_data env dl policy static_cfg st = Some (r, m)"
    and run: "sys_run env pid m s" and "sys_clients s c = Some cl"
  shows "\<exists>ret rsp srv' sess'. handle_message env ce req (cl_tid cl) (sys_server s) (cl_sess cl) = Some (ret, rsp, srv', sess')"
proof -
  have "cfg_wf st" using assms(2) by (simp add: cfg_wf_def)
  then have "cfg_wf m" using build_total [OF assms(1), of st env policy static_cfg] assms(3) by auto
  then have "cfg_wf (srv_mgr (sys_server s))" using sys_run_strip [OF run] by (simp add: cfg_wf_strip)
  from handle_message_total [OF this] show ?thesis by (metis prod_cases4)
qed

theorem messages_in_bounds_witness:
  "\<exists>s (cl :: client) ret rsp srv' sess'. sys_run example_env 77 example_mgr s \<and>
     handle_message example_env example_call (get_req\<lparr>req_type := 7, req_len := 16\<rparr>) (cl_tid cl) (sys_server s) (cl_sess cl) =
       Some (ret, rsp, srv', sess')"
proof -
  obtain s cl where r: "sys_run example_env 77 example_mgr s" "sys_clients s 0 = Some cl" using example_run by blast
  have "section_data example_state = []" by (simp add: example_state_def)
  from messages_in_bounds [OF example_devs_files(3) this example_mgr_built r, of example_call "get_req\<lparr>req_type := 7, req_len := 16\<rparr>"]
  show ?thesis using r(1) by blast
qed

end
