(* ===== verification/Cpa_Buffer.thy ===== *)
theory Cpa_Buffer
  imports Qat_Prelude
begin

text \<open>
  The buffer lists of the API (\<open>cpa.h\<close>).  A flat buffer has the address of its data, 0 for NULL,
  and the bytes of memory at that address; a list has the address of its private meta data.
  The flat buffers of a list are an array: stepping past it gives \<open>None\<close> in the operations.
\<close>

record CpaFlatBuffer =
  dataLenInBytes :: u32
  pData :: u64
  contents :: "u8 list"

record CpaBufferList =
  numBuffers :: u32
  pBuffers :: "CpaFlatBuffer list option"
  pPrivateMetaData :: u64

text \<open>Every buffer is backed by as much memory as it declares.\<close>

definition flat_ok :: "CpaFlatBuffer \<Rightarrow> bool" where
  "flat_ok b \<longleftrightarrow> length (contents b) = unat (dataLenInBytes b)"

definition list_data :: "CpaFlatBuffer list \<Rightarrow> u8 list" where
  "list_data bs = concat (map contents bs)"

lemma list_data_simps [simp]:
  "list_data [] = []" "list_data (b # bs) = contents b @ list_data bs"
  by (simp_all add: list_data_def)

end
