(* ===== verification/Lac_Buffer_Desc.thy ===== *)
theory Lac_Buffer_Desc
  imports Cpa_Buffer Dma_Memory
begin

text \<open>
  Buffer descriptors (\<open>lac_buffer_desc.c\<close>, \<open>icp_buffer_desc.h\<close>) and the size of the memory they are
  written to (\<open>dc_buffers.c\<close>).  The translation to physical addresses is the parameter \<open>v2p\<close>, with 0
  for an address that has none.  Writing a descriptor returns the address it is written at and its
  entries.  Stepping past the array of flat buffers, or past the memory of one, gives \<open>None\<close>.
\<close>

section \<open>Descriptors\<close>

record icp_flat_buffer_desc =
  flat_len :: u32
  phyBuffer :: u64

record icp_buffer_list_desc =
  desc_addr :: u64
  desc_numBuffers :: u32
  phyBuffers :: "icp_flat_buffer_desc list"

datatype lac_buff_write_op = WRITE_NORMAL | WRITE_AND_GET_SIZE | WRITE_AND_ALLOW_ZERO_BUFFER

abbreviation ICP_DESCRIPTOR_ALIGNMENT_BYTES :: u64 where "ICP_DESCRIPTOR_ALIGNMENT_BYTES \<equiv> 8"
abbreviation INVALID_PHYSICAL_ADDRESS :: u64 where "INVALID_PHYSICAL_ADDRESS \<equiv> 0"

definition LAC_ALIGN_POW2_ROUNDUP :: "u64 \<Rightarrow> u64 \<Rightarrow> u64" where
  "LAC_ALIGN_POW2_ROUNDUP num align = (num + align - 1) AND NOT (align - 1)"

definition LAC_ADDRESS_ALIGNED :: "u64 \<Rightarrow> nat \<Rightarrow> bool" where
  "LAC_ADDRESS_ALIGNED address alignment \<longleftrightarrow> address AND (push_bit alignment 1 - 1) = 0"

fun desc_loop ::
  "(u64 \<Rightarrow> u64) \<Rightarrow> bool \<Rightarrow> lac_buff_write_op \<Rightarrow> nat \<Rightarrow> CpaFlatBuffer list \<Rightarrow> u64 \<Rightarrow>
   (CpaStatus \<times> icp_flat_buffer_desc list \<times> u64) option" where
  "desc_loop v2p isPhysicalAddress op 0 bufs tot = Some (CPA_STATUS_SUCCESS, [], tot)"
| "desc_loop v2p isPhysicalAddress op (Suc n) [] tot = None"
| "desc_loop v2p isPhysicalAddress op (Suc n) (b # bufs) tot =
     (let tot' = (if op = WRITE_AND_GET_SIZE then tot + ucast (dataLenInBytes b) else tot);
          phy = (if isPhysicalAddress then pData b else v2p (pData b));
          entry = \<lparr>flat_len = dataLenInBytes b, phyBuffer = phy\<rparr>
      in if \<not> isPhysicalAddress \<and> op \<noteq> WRITE_AND_ALLOW_ZERO_BUFFER \<and> phy = INVALID_PHYSICAL_ADDRESS
         then Some (CPA_STATUS_FAIL, [entry], tot')
         else map_option (\<lambda>(st, es, t). (st, entry # es, t)) (desc_loop v2p isPhysicalAddress op n bufs tot'))"

text \<open>The status, the aligned physical address, the total length and the descriptor.\<close>

definition LacBuffDesc_CommonBufferListDescWrite ::
  "(u64 \<Rightarrow> u64) \<Rightarrow> CpaBufferList \<Rightarrow> bool \<Rightarrow> lac_buff_write_op \<Rightarrow>
   (CpaStatus \<times> u64 option \<times> u64 option \<times> icp_buffer_list_desc option) option" where
  "LacBuffDesc_CommonBufferListDescWrite v2p bl isPhysicalAddress op =
     (let size0 = (if op = WRITE_AND_GET_SIZE then Some 0 else None);
          phys = v2p (pPrivateMetaData bl)
      in if phys = INVALID_PHYSICAL_ADDRESS then Some (CPA_STATUS_FAIL, None, size0, None)
         else
           let aligned = LAC_ALIGN_POW2_ROUNDUP phys ICP_DESCRIPTOR_ALIGNMENT_BYTES;
               addr = pPrivateMetaData bl + (aligned - phys)
           in if op \<noteq> WRITE_AND_GET_SIZE \<and> numBuffers bl = 0
              then Some (CPA_STATUS_SUCCESS, Some aligned, size0,
                     Some \<lparr>desc_addr = addr, desc_numBuffers = 1,
                           phyBuffers = [\<lparr>flat_len = 0, phyBuffer = 0\<rparr>]\<rparr>)
              else case pBuffers bl of
                None \<Rightarrow> if numBuffers bl = 0
                  then Some (CPA_STATUS_SUCCESS, Some aligned, size0,
                         Some \<lparr>desc_addr = addr, desc_numBuffers = 0, phyBuffers = []\<rparr>)
                  else None
              | Some bufs \<Rightarrow>
                  (case desc_loop v2p isPhysicalAddress op (unat (numBuffers bl)) bufs 0 of
                     None \<Rightarrow> None
                   | Some (st, es, tot) \<Rightarrow>
                       Some (st, if st = CPA_STATUS_SUCCESS then Some aligned else None,
                         if op = WRITE_AND_GET_SIZE then Some tot else None,
                         Some \<lparr>desc_addr = addr, desc_numBuffers = numBuffers bl, phyBuffers = es\<rparr>)))"

definition LacBuffDesc_BufferListDescWriteAndAllowZeroBuffer ::
  "(u64 \<Rightarrow> u64) \<Rightarrow> CpaBufferList \<Rightarrow> bool \<Rightarrow>
   (CpaStatus \<times> u64 option \<times> u64 option \<times> icp_buffer_list_desc option) option" where
  "LacBuffDesc_BufferListDescWriteAndAllowZeroBuffer v2p bl isPhysicalAddress =
     LacBuffDesc_CommonBufferListDescWrite v2p bl isPhysicalAddress WRITE_AND_ALLOW_ZERO_BUFFER"

definition LacBuffDesc_BufferListDescWrite ::
  "(u64 \<Rightarrow> u64) \<Rightarrow> CpaBufferList \<Rightarrow> bool \<Rightarrow>
   (CpaStatus \<times> u64 option \<times> u64 option \<times> icp_buffer_list_desc option) option" where
  "LacBuffDesc_BufferListDescWrite v2p bl isPhysicalAddress =
     LacBuffDesc_CommonBufferListDescWrite v2p bl isPhysicalAddress WRITE_NORMAL"

definition LacBuffDesc_BufferListDescWriteAndGetSize ::
  "(u64 \<Rightarrow> u64) \<Rightarrow> CpaBufferList \<Rightarrow> bool \<Rightarrow>
   (CpaStatus \<times> u64 option \<times> u64 option \<times> icp_buffer_list_desc option) option" where
  "LacBuffDesc_BufferListDescWriteAndGetSize v2p bl isPhysicalAddress =
     LacBuffDesc_CommonBufferListDescWrite v2p bl isPhysicalAddress WRITE_AND_GET_SIZE"

section \<open>Checks of buffer lists\<close>

definition LacBuffDesc_FlatBufferVerify :: "CpaFlatBuffer option \<Rightarrow> u64 \<Rightarrow> nat \<Rightarrow> CpaStatus \<times> u64" where
  "LacBuffDesc_FlatBufferVerify buf pktSize alignmentShift =
     (case buf of
        None \<Rightarrow> (CPA_STATUS_INVALID_PARAM, pktSize)
      | Some b \<Rightarrow>
          if pData b = 0 then (CPA_STATUS_INVALID_PARAM, pktSize)
          else if dataLenInBytes b = 0 then (CPA_STATUS_INVALID_PARAM, pktSize)
          else if alignmentShift \<noteq> 0 \<and> \<not> LAC_ADDRESS_ALIGNED (pData b) alignmentShift
          then (CPA_STATUS_INVALID_PARAM, pktSize)
          else (CPA_STATUS_SUCCESS, pktSize + ucast (dataLenInBytes b)))"

definition LacBuffDesc_FlatBufferVerifyNull :: "CpaFlatBuffer option \<Rightarrow> u64 \<Rightarrow> nat \<Rightarrow> CpaStatus \<times> u64" where
  "LacBuffDesc_FlatBufferVerifyNull buf pktSize alignmentShift =
     (case buf of
        None \<Rightarrow> (CPA_STATUS_INVALID_PARAM, pktSize)
      | Some b \<Rightarrow>
          if dataLenInBytes b \<noteq> 0 \<and> pData b = 0 then (CPA_STATUS_INVALID_PARAM, pktSize)
          else if alignmentShift \<noteq> 0 \<and> \<not> LAC_ADDRESS_ALIGNED (pData b) alignmentShift
          then (CPA_STATUS_INVALID_PARAM, pktSize)
          else (CPA_STATUS_SUCCESS, pktSize + ucast (dataLenInBytes b)))"

fun verify_loop ::
  "(CpaFlatBuffer option \<Rightarrow> u64 \<Rightarrow> nat \<Rightarrow> CpaStatus \<times> u64) \<Rightarrow> nat \<Rightarrow> nat \<Rightarrow> CpaFlatBuffer list \<Rightarrow> u64 \<Rightarrow>
   (CpaStatus \<times> u64) option" where
  "verify_loop verify shift 0 bufs pktSize = Some (CPA_STATUS_SUCCESS, pktSize)"
| "verify_loop verify shift (Suc n) [] pktSize = None"
| "verify_loop verify shift (Suc n) (b # bufs) pktSize =
     (let (status, pktSize') = verify (Some b) pktSize shift
      in if status = CPA_STATUS_SUCCESS then verify_loop verify shift n bufs pktSize'
         else Some (status, pktSize'))"

definition LacBuffDesc_BufferListVerify ::
  "CpaBufferList option \<Rightarrow> u64 \<Rightarrow> nat \<Rightarrow> (CpaStatus \<times> u64) option" where
  "LacBuffDesc_BufferListVerify list pktSize alignmentShift =
     (case list of
        None \<Rightarrow> Some (CPA_STATUS_INVALID_PARAM, pktSize)
      | Some bl \<Rightarrow>
          (case pBuffers bl of
             None \<Rightarrow> Some (CPA_STATUS_INVALID_PARAM, pktSize)
           | Some bufs \<Rightarrow>
               if pPrivateMetaData bl = 0 then Some (CPA_STATUS_INVALID_PARAM, pktSize)
               else if numBuffers bl = 0 then Some (CPA_STATUS_INVALID_PARAM, pktSize)
               else verify_loop LacBuffDesc_FlatBufferVerify alignmentShift (unat (numBuffers bl)) bufs 0))"

definition LacBuffDesc_BufferListVerifyNull ::
  "CpaBufferList option \<Rightarrow> u64 \<Rightarrow> nat \<Rightarrow> (CpaStatus \<times> u64) option" where
  "LacBuffDesc_BufferListVerifyNull list pktSize alignmentShift =
     (case list of
        None \<Rightarrow> Some (CPA_STATUS_INVALID_PARAM, pktSize)
      | Some bl \<Rightarrow>
          (case pBuffers bl of
             None \<Rightarrow> Some (CPA_STATUS_INVALID_PARAM, pktSize)
           | Some bufs \<Rightarrow>
               if pPrivateMetaData bl = 0 then Some (CPA_STATUS_INVALID_PARAM, pktSize)
               else if numBuffers bl = 0 then Some (CPA_STATUS_INVALID_PARAM, pktSize)
               else verify_loop LacBuffDesc_FlatBufferVerifyNull alignmentShift (unat (numBuffers bl)) bufs 0))"

fun size_loop :: "nat \<Rightarrow> CpaFlatBuffer list \<Rightarrow> u64 \<Rightarrow> u64 option" where
  "size_loop 0 bufs pktSize = Some pktSize"
| "size_loop (Suc n) [] pktSize = None"
| "size_loop (Suc n) (b # bufs) pktSize = size_loop n bufs (pktSize + ucast (dataLenInBytes b))"

definition LacBuffDesc_BufferListTotalSizeGet :: "CpaBufferList \<Rightarrow> u64 option" where
  "LacBuffDesc_BufferListTotalSizeGet bl =
     (case pBuffers bl of
        None \<Rightarrow> if numBuffers bl = 0 then Some 0 else None
      | Some bufs \<Rightarrow> size_loop (unat (numBuffers bl)) bufs 0)"

section \<open>Zeroing a range\<close>

definition memset_zero :: "CpaFlatBuffer \<Rightarrow> nat \<Rightarrow> nat \<Rightarrow> CpaFlatBuffer option" where
  "memset_zero b off n =
     (if off + n \<le> length (contents b)
      then Some (b\<lparr>contents := take off (contents b) @ replicate n 0 @ drop (off + n) (contents b)\<rparr>)
      else None)"

fun zero_loop :: "CpaFlatBuffer list \<Rightarrow> u32 \<Rightarrow> u32 \<Rightarrow> CpaFlatBuffer list option" where
  "zero_loop [] offset sizeLeftToZero = (if sizeLeftToZero > 0 then None else Some [])"
| "zero_loop (b # bufs) offset sizeLeftToZero =
     (if sizeLeftToZero > 0
      then if offset \<ge> dataLenInBytes b
           then map_option ((#) b) (zero_loop bufs (offset - dataLenInBytes b) sizeLeftToZero)
           else
             let zeroLen = (if sizeLeftToZero \<ge> dataLenInBytes b then dataLenInBytes b - offset
                            else if sizeLeftToZero + offset \<ge> dataLenInBytes b
                            then dataLenInBytes b - offset else sizeLeftToZero)
             in case memset_zero b (unat offset) (unat zeroLen) of
                  None \<Rightarrow> None
                | Some b' \<Rightarrow> map_option ((#) b') (zero_loop bufs 0 (sizeLeftToZero - zeroLen))
      else Some (b # bufs))"

definition LacBuffDesc_BufferListZeroFromOffset :: "CpaBufferList \<Rightarrow> u32 \<Rightarrow> u32 \<Rightarrow> CpaBufferList option" where
  "LacBuffDesc_BufferListZeroFromOffset bl offset lenToZero =
     (case pBuffers bl of
        None \<Rightarrow> if lenToZero > 0 then None else Some bl
      | Some bufs \<Rightarrow> map_option (\<lambda>bufs'. bl\<lparr>pBuffers := Some bufs'\<rparr>) (zero_loop bufs offset lenToZero))"

section \<open>Lemmas\<close>

definition total_len :: "CpaFlatBuffer list \<Rightarrow> nat" where
  "total_len bufs = (\<Sum>b\<leftarrow>bufs. unat (dataLenInBytes b))"

lemma total_len_simps [simp]:
  "total_len [] = 0" "total_len (b # bufs) = unat (dataLenInBytes b) + total_len bufs"
  by (simp_all add: total_len_def)

lemma total_len_bound: "total_len bufs \<le> length bufs * (2 ^ 32 - 1)"
proof (induction bufs)
  case (Cons b bufs)
  have "unat (dataLenInBytes b) \<le> 2 ^ 32 - 1" using unsigned_less [of "dataLenInBytes b", where 'a = nat] by simp
  then show ?case using Cons by simp
qed simp

lemma list_data_len: "list_all flat_ok bufs \<Longrightarrow> length (list_data bufs) = total_len bufs"
  by (induction bufs) (simp_all add: flat_ok_def)

text \<open>The total of a list that is counted by 32 bits fits into 64 bits.\<close>

lemma total_fits:
  assumes "length bufs = unat (n :: u32)"
  shows "total_len bufs < 2 ^ 64"
proof -
  have "length bufs \<le> 2 ^ 32 - 1" using assms unsigned_less [of n, where 'a = nat] by simp
  then have "length bufs * (2 ^ 32 - 1) \<le> (2 ^ 32 - 1) * (2 ^ 32 - 1)" by (rule mult_le_mono1)
  then show ?thesis using total_len_bound [of bufs] by simp
qed

lemma unat_u32_u64: "unat (ucast (x :: u32) :: u64) = unat x"
  using unsigned_less [of x, where 'a = nat] by (simp add: unsigned_ucast_eq take_bit_nat_eq_self)

lemma unat_acc:
  fixes t :: u64
  assumes "unat t + unat (dataLenInBytes b) < 2 ^ 64"
  shows "unat (t + ucast (dataLenInBytes b)) = unat t + unat (dataLenInBytes b)"
proof -
  have "unat (ucast (dataLenInBytes b) :: u64) = unat (dataLenInBytes b)" by (rule unat_u32_u64)
  then show ?thesis using assms by (simp add: unat_word_ariths)
qed

lemma size_loop_ok:
  "unat t + total_len bufs < 2 ^ 64 \<Longrightarrow>
   \<exists>t'. size_loop (length bufs) bufs t = Some t' \<and> unat t' = unat t + total_len bufs"
proof (induction bufs arbitrary: t)
  case (Cons b bufs)
  have a: "unat (t + ucast (dataLenInBytes b)) = unat t + unat (dataLenInBytes b)"
    using Cons.prems by (intro unat_acc) simp
  then show ?case using Cons.IH [of "t + ucast (dataLenInBytes b)"] Cons.prems by (simp add: add.assoc)
qed simp

definition desc_entry :: "(u64 \<Rightarrow> u64) \<Rightarrow> CpaFlatBuffer \<Rightarrow> icp_flat_buffer_desc" where
  "desc_entry v2p b = \<lparr>flat_len = dataLenInBytes b, phyBuffer = v2p (pData b)\<rparr>"

lemma desc_loop_ok:
  "unat t + total_len bufs < 2 ^ 64 \<Longrightarrow> \<forall>b\<in>set bufs. v2p (pData b) \<noteq> 0 \<Longrightarrow>
   \<exists>t'. desc_loop v2p False WRITE_AND_GET_SIZE (length bufs) bufs t = Some (0, map (desc_entry v2p) bufs, t') \<and>
     unat t' = unat t + total_len bufs"
proof (induction bufs arbitrary: t)
  case (Cons b bufs)
  have a: "unat (t + ucast (dataLenInBytes b)) = unat t + unat (dataLenInBytes b)"
    using Cons.prems by (intro unat_acc) simp
  then show ?case using Cons.IH [of "t + ucast (dataLenInBytes b)"] Cons.prems
    by (auto simp: add.assoc Let_def desc_entry_def)
qed simp

lemma desc_loop_fail:
  "\<exists>b\<in>set bufs. v2p (pData b) = 0 \<Longrightarrow>
   \<exists>es t'. desc_loop v2p False WRITE_AND_GET_SIZE (length bufs) bufs t = Some (CPA_STATUS_FAIL, es, t')"
proof (induction bufs arbitrary: t)
  case (Cons b bufs)
  show ?case
  proof (cases "v2p (pData b) = 0")
    case False
    then have "\<exists>b\<in>set bufs. v2p (pData b) = 0" using Cons.prems by auto
    then obtain es t' where
      "desc_loop v2p False WRITE_AND_GET_SIZE (length bufs) bufs (t + ucast (dataLenInBytes b)) =
         Some (CPA_STATUS_FAIL, es, t')"
      using Cons.IH by blast
    then show ?thesis using False by (simp add: Let_def)
  qed (simp add: Let_def)
qed simp

lemma align_8:
  assumes "unat a + 8 \<le> 2 ^ 64"
  shows "unat (LAC_ALIGN_POW2_ROUNDUP a 8) = (unat a + 7) div 8 * 8"
proof -
  have u: "unat (a + 7) = unat a + 7" using assms by (simp add: unat_word_ariths)
  have "LAC_ALIGN_POW2_ROUNDUP a 8 = (a + 7) AND NOT (mask 3)"
    by (simp add: LAC_ALIGN_POW2_ROUNDUP_def mask_eq_exp_minus_1 add_diff_eq [symmetric])
  also have "\<dots> = push_bit 3 (drop_bit 3 (a + 7))"
    by (rule bit_eqI) (auto simp: bit_simps)
  finally have e: "LAC_ALIGN_POW2_ROUNDUP a 8 = drop_bit 3 (a + 7) * 8"
    by (simp add: push_bit_eq_mult)
  have "unat (2 ^ 3 :: u64) = 8" by simp
  then have "unat (drop_bit 3 (a + 7)) = (unat a + 7) div 8" by (simp only: drop_bit_eq_div unat_div u)
  then show ?thesis using assms unfolding e by (simp add: unat_word_ariths)
qed

lemma align_8_bounds:
  assumes "unat a + 8 \<le> 2 ^ 64"
  shows "unat (LAC_ALIGN_POW2_ROUNDUP a 8) mod 8 = 0" and "a \<le> LAC_ALIGN_POW2_ROUNDUP a 8"
    and "unat (LAC_ALIGN_POW2_ROUNDUP a 8 - a) < 8"
proof -
  note u = align_8 [OF assms]
  show "unat (LAC_ALIGN_POW2_ROUNDUP a 8) mod 8 = 0" unfolding u by simp
  have b: "unat a \<le> (unat a + 7) div 8 * 8" "(unat a + 7) div 8 * 8 < unat a + 8" by linarith+
  then show le: "a \<le> LAC_ALIGN_POW2_ROUNDUP a 8" by (simp add: word_le_nat_alt u)
  show "unat (LAC_ALIGN_POW2_ROUNDUP a 8 - a) < 8" using b by (simp add: unat_sub [OF le] u)
qed

lemma aligned_dvd:
  assumes "s < 64"
  shows "LAC_ADDRESS_ALIGNED a s \<longleftrightarrow> 2 ^ s dvd unat a"
proof -
  have "LAC_ADDRESS_ALIGNED a s \<longleftrightarrow> take_bit s a = 0"
    by (simp add: LAC_ADDRESS_ALIGNED_def take_bit_eq_mask mask_eq_exp_minus_1 push_bit_eq_mult)
  also have "\<dots> \<longleftrightarrow> unat (take_bit s a) = 0" by (simp only: unat_eq_0)
  also have "\<dots> \<longleftrightarrow> 2 ^ s dvd unat a"
    by (simp only: unsigned_take_bit_eq) (simp add: take_bit_eq_mod dvd_eq_mod_eq_0)
  finally show ?thesis .
qed

definition verified :: "nat \<Rightarrow> CpaFlatBuffer \<Rightarrow> bool" where
  "verified s b \<longleftrightarrow> pData b \<noteq> 0 \<and> dataLenInBytes b \<noteq> 0 \<and> (s = 0 \<or> LAC_ADDRESS_ALIGNED (pData b) s)"

lemma flat_verify:
  "LacBuffDesc_FlatBufferVerify (Some b) t s =
     (if verified s b then (0, t + ucast (dataLenInBytes b)) else (CPA_STATUS_INVALID_PARAM, t))"
  by (simp add: LacBuffDesc_FlatBufferVerify_def verified_def)

lemma verify_loop_ok:
  "list_all (verified s) bufs \<Longrightarrow>
   verify_loop LacBuffDesc_FlatBufferVerify s (length bufs) bufs t = map_option (Pair 0) (size_loop (length bufs) bufs t)"
  by (induction bufs arbitrary: t) (simp_all add: flat_verify)

lemma verify_loop_bad:
  "\<not> list_all (verified s) bufs \<Longrightarrow>
   \<exists>t'. verify_loop LacBuffDesc_FlatBufferVerify s (length bufs) bufs t = Some (CPA_STATUS_INVALID_PARAM, t')"
  by (induction bufs arbitrary: t) (auto simp: flat_verify)

section \<open>Zeroing\<close>

definition zeroed :: "nat \<Rightarrow> nat \<Rightarrow> u8 list \<Rightarrow> u8 list" where
  "zeroed off n xs = take off xs @ replicate n 0 @ drop (off + n) xs"

lemma zeroed_0: "zeroed off 0 xs = xs"
  by (simp add: zeroed_def)

lemma zeroed_skip: "length xs \<le> off \<Longrightarrow> zeroed off n (xs @ ys) = xs @ zeroed (off - length xs) n ys"
  by (simp add: zeroed_def)

lemma zeroed_within: "off + n \<le> length xs \<Longrightarrow> zeroed off n (xs @ ys) = zeroed off n xs @ ys"
  by (simp add: zeroed_def)

lemma zeroed_across:
  assumes "off \<le> length xs" and "length xs \<le> off + n"
  shows "zeroed off n (xs @ ys) = zeroed off (length xs - off) xs @ zeroed 0 (n - (length xs - off)) ys"
proof -
  obtain k where k: "length xs = off + k" using assms(1) le_Suc_ex by blast
  then obtain m where "n = k + m" using assms(2) le_Suc_ex by auto
  then show ?thesis using k by (simp add: zeroed_def replicate_add)
qed

lemma zero_len:
  fixes len off left :: u32
  assumes "unat len \<le> 2 ^ 31" and "off < len"
  shows "unat (if left \<ge> len then len - off else if left + off \<ge> len then len - off else left) =
    min (unat left) (unat len - unat off)"
proof -
  have d: "unat (len - off) = unat len - unat off" using assms(2) by (simp add: unat_sub)
  have s: "unat (left + off) = unat left + unat off" if "\<not> left \<ge> len"
    using that assms by (simp add: unat_word_ariths word_le_nat_alt word_less_nat_alt)
  have o: "unat off < unat len" using assms(2) by (simp add: word_less_nat_alt)
  show ?thesis
  proof (cases "left \<ge> len")
    case True
    then have "unat len \<le> unat left" by (simp add: word_le_nat_alt)
    then have "min (unat left) (unat len - unat off) = unat len - unat off" by linarith
    then show ?thesis using True d by simp
  next
    case False
    then show ?thesis using d o s [OF False] by (auto simp: word_le_nat_alt min_def)
  qed
qed

lemma zero_loop_ok:
  "list_all (\<lambda>b. flat_ok b \<and> unat (dataLenInBytes b) \<le> 2 ^ 31) bufs \<Longrightarrow>
   unat off + unat left \<le> total_len bufs \<Longrightarrow>
   \<exists>bufs'. zero_loop bufs off left = Some bufs' \<and> list_data bufs' = zeroed (unat off) (unat left) (list_data bufs) \<and>
     map (\<lambda>b. (dataLenInBytes b, pData b)) bufs' = map (\<lambda>b. (dataLenInBytes b, pData b)) bufs"
proof (induction bufs arbitrary: off left)
  case Nil
  then show ?case by (simp add: zeroed_def word_less_nat_alt)
next
  case (Cons b bufs)
  let ?len = "dataLenInBytes b"
  have len: "length (contents b) = unat ?len" "unat ?len \<le> 2 ^ 31" using Cons.prems(1) by (simp_all add: flat_ok_def)
  show ?case
  proof (cases "left = 0")
    case True
    then show ?thesis by (simp add: zeroed_0)
  next
    case left: False
    then have pos: "left > 0" by (simp add: word_neq_0_conv)
    show ?thesis
    proof (cases "off \<ge> ?len")
      case True
      then have u: "unat (off - ?len) = unat off - unat ?len" "unat ?len \<le> unat off"
        by (simp_all add: unat_sub word_le_nat_alt)
      have "unat (off - ?len) + unat left \<le> total_len bufs" using Cons.prems(2) u by simp
      moreover have "list_all (\<lambda>b. flat_ok b \<and> unat (dataLenInBytes b) \<le> 2 ^ 31) bufs" using Cons.prems(1) by simp
      ultimately obtain bufs' where "zero_loop bufs (off - ?len) left = Some bufs'"
        "list_data bufs' = zeroed (unat off - unat ?len) (unat left) (list_data bufs)"
        "map (\<lambda>b. (dataLenInBytes b, pData b)) bufs' = map (\<lambda>b. (dataLenInBytes b, pData b)) bufs"
        using Cons.IH [of "off - ?len" left] unfolding u(1) by blast
      then show ?thesis using True pos u len by (simp add: zeroed_skip)
    next
      case False
      then have off: "off < ?len" "unat off < unat ?len" by (simp_all add: word_less_nat_alt word_le_nat_alt)
      define z where "z = (if left \<ge> ?len then ?len - off else if left + off \<ge> ?len then ?len - off else left)"
      have z: "unat z = min (unat left) (unat ?len - unat off)" unfolding z_def by (rule zero_len [OF len(2) off(1)])
      then have "z \<le> left" by (simp add: word_le_nat_alt)
      then have l: "unat (left - z) = unat left - unat z" by (rule unat_sub)
      have "unat (0 :: u32) + unat (left - z) \<le> total_len bufs" 
        using Cons.prems(2) off(2) unfolding l z total_len_simps unsigned_0 by linarith
      then obtain bufs' where IH: "zero_loop bufs 0 (left - z) = Some bufs'"
        "list_data bufs' = zeroed 0 (unat left - unat z) (list_data bufs)"
        "map (\<lambda>b. (dataLenInBytes b, pData b)) bufs' = map (\<lambda>b. (dataLenInBytes b, pData b)) bufs"
        using Cons.IH [of 0 "left - z"] Cons.prems(1) l by auto
      have inside: "unat off + unat z \<le> length (contents b)" using off(2) unfolding z len(1) by linarith
      have m: "memset_zero b (unat off) (unat z) = Some (b\<lparr>contents := zeroed (unat off) (unat z) (contents b)\<rparr>)"
        using inside by (simp add: memset_zero_def zeroed_def)
      have "zeroed (unat off) (unat left) (contents b @ list_data bufs) =
          zeroed (unat off) (unat z) (contents b) @ zeroed 0 (unat left - unat z) (list_data bufs)"
        using z len off(2) by (cases "unat left \<le> unat ?len - unat off")
          (simp_all add: zeroed_within zeroed_across zeroed_0 min_def)
      then show ?thesis using False pos IH m by (simp add: z_def [symmetric] Let_def)
    qed
  qed
qed


section \<open>Buffers in memory for the device\<close>

text \<open>The addresses of the bytes of a list of buffers, and what the device reaches through a descriptor.\<close>

definition buffer_bytes :: "CpaFlatBuffer list \<Rightarrow> u64 list" where
  "buffer_bytes bufs = concat (map (\<lambda>b. map (\<lambda>i. pData b + of_nat i) [0..<unat (dataLenInBytes b)]) bufs)"

definition desc_access :: "(u64 \<Rightarrow> u64 set) \<Rightarrow> icp_buffer_list_desc \<Rightarrow> u64 set list" where
  "desc_access acc d =
     concat (map (\<lambda>e. map (\<lambda>i. acc (phyBuffer e + of_nat i)) [0..<unat (flat_len e)]) (phyBuffers d))"

lemma desc_write_ok:
  assumes bufs: "pBuffers bl = Some bufs" "length bufs = unat (numBuffers bl)"
    and meta: "v2p (pPrivateMetaData bl) \<noteq> 0" and all: "\<forall>b\<in>set bufs. v2p (pData b) \<noteq> 0"
  shows "\<exists>addr tot d. LacBuffDesc_BufferListDescWriteAndGetSize v2p bl False =
    Some (CPA_STATUS_SUCCESS, Some addr, Some tot, Some d) \<and> phyBuffers d = map (desc_entry v2p) bufs"
proof -
  obtain t where "desc_loop v2p False WRITE_AND_GET_SIZE (length bufs) bufs 0 = Some (0, map (desc_entry v2p) bufs, t)"
    using desc_loop_ok [of 0 bufs v2p] total_fits [OF bufs(2)] all by auto
  then show ?thesis
    using bufs meta
    by (simp add: LacBuffDesc_BufferListDescWriteAndGetSize_def LacBuffDesc_CommonBufferListDescWrite_def Let_def)
qed

context dma_memory
begin

lemma allocated_access:
  assumes "allocated mem p len" and "i < len"
  shows "access (v2p p + of_nat i) = {p + of_nat i}"
proof -
  obtain a n off where "(a, n) \<in> mem" "p = a + of_nat off" "off + len \<le> n" using assms(1) by (auto simp: allocated_def)
  then show ?thesis using inside_access assms(2) by simp
qed

lemma allocated_address:
  assumes "allocated mem p len"
  shows "v2p p \<noteq> 0"
proof -
  obtain a n off where a: "(a, n) \<in> mem" "p = a + of_nat off" "off < n" using assms by (auto simp: allocated_def)
  show ?thesis using range [OF a(1,3)] unfolding a(2) by auto
qed

lemma desc_reaches_buffers:
  assumes "pBuffers bl = Some bufs" "length bufs = unat (numBuffers bl)"
    and "allocated mem (pPrivateMetaData bl) k" and all: "\<forall>b\<in>set bufs. allocated mem (pData b) (unat (dataLenInBytes b))"
  shows "\<exists>addr tot d. LacBuffDesc_BufferListDescWriteAndGetSize v2p bl False =
    Some (CPA_STATUS_SUCCESS, Some addr, Some tot, Some d) \<and> desc_access access d = map (\<lambda>x. {x}) (buffer_bytes bufs)"
proof -
  have "\<forall>b\<in>set bufs. v2p (pData b) \<noteq> 0" using all allocated_address by blast
  then obtain addr tot d where d: "LacBuffDesc_BufferListDescWriteAndGetSize v2p bl False =
      Some (CPA_STATUS_SUCCESS, Some addr, Some tot, Some d)" "phyBuffers d = map (desc_entry v2p) bufs"
    using desc_write_ok [OF assms(1,2), of v2p] allocated_address [OF assms(3)] by blast
  have "concat (map (\<lambda>e. map (\<lambda>i. access (phyBuffer e + of_nat i)) [0..<unat (flat_len e)]) (map (desc_entry v2p) bufs)) =
      map (\<lambda>x. {x}) (buffer_bytes bufs)"
    using all by (induction bufs) (auto simp: buffer_bytes_def desc_entry_def intro!: allocated_access)
  then show ?thesis using d by (auto simp: desc_access_def)
qed

end

section \<open>Properties\<close>

text \<open>C12. Writing the descriptor of a buffer list: if the meta data and every buffer have a physical
  address, \<open>LacBuffDesc_BufferListDescWriteAndGetSize\<close> succeeds, the descriptor is 8 byte aligned at
  most 7 bytes into the meta data, its entries are the lengths and physical addresses of the flat
  buffers in order, and the total is the sum of the lengths, without overflow.  If a buffer has
  none, it fails and reports no descriptor address.\<close>

theorem desc_write_spec:
  assumes bufs: "pBuffers bl = Some bufs" "length bufs = unat (numBuffers bl)"
    and meta: "v2p (pPrivateMetaData bl) \<noteq> 0" "unat (v2p (pPrivateMetaData bl)) + 8 \<le> 2 ^ 64"
  shows "\<exists>st addr tot d. LacBuffDesc_BufferListDescWriteAndGetSize v2p bl False = Some (st, addr, Some tot, Some d) \<and>
    (if \<forall>b\<in>set bufs. v2p (pData b) \<noteq> 0
     then st = CPA_STATUS_SUCCESS \<and> desc_numBuffers d = numBuffers bl \<and>
       phyBuffers d = map (\<lambda>b. \<lparr>flat_len = dataLenInBytes b, phyBuffer = v2p (pData b)\<rparr>) bufs \<and>
       unat tot = (\<Sum>b\<leftarrow>bufs. unat (dataLenInBytes b)) \<and>
       (\<exists>a. addr = Some a \<and> 8 dvd unat a \<and> unat (desc_addr d - pPrivateMetaData bl) < 8 \<and>
         a = v2p (pPrivateMetaData bl) + (desc_addr d - pPrivateMetaData bl))
     else st = CPA_STATUS_FAIL \<and> addr = None)"
proof (cases "\<forall>b\<in>set bufs. v2p (pData b) \<noteq> 0")
  case True
  obtain t where t: "desc_loop v2p False WRITE_AND_GET_SIZE (length bufs) bufs 0 = Some (0, map (desc_entry v2p) bufs, t)"
      "unat t = total_len bufs"
    using desc_loop_ok [of 0 bufs v2p] total_fits [OF bufs(2)] True by auto
  show ?thesis
    using True t bufs meta align_8_bounds [OF meta(2)]
    by (auto simp: LacBuffDesc_BufferListDescWriteAndGetSize_def LacBuffDesc_CommonBufferListDescWrite_def
        Let_def desc_entry_def [abs_def] total_len_def dvd_eq_mod_eq_0)
next
  case False
  then obtain es t where "desc_loop v2p False WRITE_AND_GET_SIZE (length bufs) bufs 0 = Some (CPA_STATUS_FAIL, es, t)"
    using desc_loop_fail [of bufs v2p 0] by auto
  then show ?thesis
    using False bufs meta
    by (simp add: LacBuffDesc_BufferListDescWriteAndGetSize_def LacBuffDesc_CommonBufferListDescWrite_def Let_def)
qed

text \<open>A list of two buffers, with addresses translated by a constant offset.\<close>

definition list_example :: CpaBufferList where
  "list_example = \<lparr>numBuffers = 2, pBuffers = Some
     [\<lparr>dataLenInBytes = 3, pData = 0x1000, contents = [1, 2, 3]\<rparr>,
      \<lparr>dataLenInBytes = 2, pData = 0x2000, contents = [4, 5]\<rparr>], pPrivateMetaData = 0x3004\<rparr>"

theorem desc_write_spec_witness:
  "\<exists>addr tot d. LacBuffDesc_BufferListDescWriteAndGetSize (\<lambda>a. a + 0x100000) list_example False =
     Some (CPA_STATUS_SUCCESS, addr, Some tot, Some d) \<and> unat tot = 5 \<and> desc_numBuffers d = 2"
  using desc_write_spec [of list_example "the (pBuffers list_example)" "\<lambda>a. a + 0x100000"]
  by (auto simp: list_example_def)

text \<open>\<open>LacBuffDesc_BufferListVerify\<close> accepts a list with buffers and meta data exactly if every flat
  buffer has an address, a positive length and the required alignment; the packet size is then the
  one of \<open>LacBuffDesc_BufferListTotalSizeGet\<close>, the exact sum of the lengths.\<close>

lemma list_verify_spec:
  assumes "pBuffers bl = Some bufs" and "length bufs = unat (numBuffers bl)" and "numBuffers bl \<noteq> 0"
    and "pPrivateMetaData bl \<noteq> 0" and "s < 64"
  shows "\<exists>st t. LacBuffDesc_BufferListVerify (Some bl) k s = Some (st, t) \<and>
    (st = CPA_STATUS_SUCCESS \<longleftrightarrow>
       (\<forall>b\<in>set bufs. pData b \<noteq> 0 \<and> 0 < unat (dataLenInBytes b) \<and> 2 ^ s dvd unat (pData b))) \<and>
    (st \<noteq> CPA_STATUS_SUCCESS \<longrightarrow> st = CPA_STATUS_INVALID_PARAM) \<and>
    (st = CPA_STATUS_SUCCESS \<longrightarrow> LacBuffDesc_BufferListTotalSizeGet bl = Some t \<and>
       unat t = (\<Sum>b\<leftarrow>bufs. unat (dataLenInBytes b)))"
proof -
  have eq: "LacBuffDesc_BufferListVerify (Some bl) k s =
      verify_loop LacBuffDesc_FlatBufferVerify s (length bufs) bufs 0"
    using assms by (simp add: LacBuffDesc_BufferListVerify_def)
  have v: "list_all (verified s) bufs \<longleftrightarrow>
      (\<forall>b\<in>set bufs. pData b \<noteq> 0 \<and> 0 < unat (dataLenInBytes b) \<and> 2 ^ s dvd unat (pData b))"
    using aligned_dvd [OF assms(5)] by (auto simp: list_all_iff verified_def unat_gt_0)
  obtain t where t: "size_loop (length bufs) bufs 0 = Some t" "unat t = total_len bufs"
    using size_loop_ok [of 0 bufs] total_fits [OF assms(2)] by auto
  show ?thesis
  proof (cases "list_all (verified s) bufs")
    case True
    then show ?thesis using t assms(1,2) verify_loop_ok [OF True, of 0] v
      by (simp add: eq LacBuffDesc_BufferListTotalSizeGet_def total_len_def)
  next
    case False
    then show ?thesis using verify_loop_bad [OF False, of 0] v by (auto simp: eq)
  qed
qed

text \<open>\<open>LacBuffDesc_BufferListZeroFromOffset\<close> zeroes exactly the requested range of the data of the
  list, across the boundaries of its buffers, and changes nothing else, for buffers of at most 2 GB
  and a range inside the list.\<close>

lemma zero_from_offset:
  assumes "pBuffers bl = Some bufs" and "list_all (\<lambda>b. flat_ok b \<and> unat (dataLenInBytes b) \<le> 2 ^ 31) bufs"
    and "unat offset + unat len \<le> length (list_data bufs)"
  shows "\<exists>bufs'. LacBuffDesc_BufferListZeroFromOffset bl offset len = Some (bl\<lparr>pBuffers := Some bufs'\<rparr>) \<and>
    list_data bufs' = take (unat offset) (list_data bufs) @ replicate (unat len) 0 @
      drop (unat offset + unat len) (list_data bufs) \<and>
    map (\<lambda>b. (dataLenInBytes b, pData b)) bufs' = map (\<lambda>b. (dataLenInBytes b, pData b)) bufs"
proof -
  have "list_all flat_ok bufs" using assms(2) by (simp add: list_all_iff)
  then have "unat offset + unat len \<le> total_len bufs" using assms(3) list_data_len by simp
  from zero_loop_ok [OF assms(2) this] show ?thesis
    using assms(1) by (auto simp: LacBuffDesc_BufferListZeroFromOffset_def zeroed_def)
qed

end
