(* ===== verification/Dc_Buffers.thy ===== *)
theory Dc_Buffers
  imports Lac_Buffer_Desc
begin

text \<open>
  The sizes a client of the compression service asks for (\<open>dc_buffers.c\<close>): the meta data of a buffer
  list and the bounds of compressed data.  An instance is its type and generation; the handle 0
  stands for the first instance, which is the parameter \<open>first\<close> (\<open>dcGetFirstHandle\<close>, 0 for none).
  Each operation returns its status and the size it stores, if any.
\<close>

section \<open>Instances\<close>

record sal_compression_service =
  is_compression :: bool
  isGen4 :: bool
  isGen4_2 :: bool

datatype CpaDcHuffType = CPA_DC_HT_STATIC | CPA_DC_HT_PRECOMP | CPA_DC_HT_FULL_DYNAMIC

definition ins_handle :: "sal_compression_service option \<Rightarrow> sal_compression_service option \<Rightarrow> sal_compression_service option" where
  "ins_handle first inst = (case inst of None \<Rightarrow> first | Some i \<Rightarrow> Some i)"

section \<open>Operations\<close>

definition cpaDcBufferListGetMetaSize ::
  "sal_compression_service option \<Rightarrow> sal_compression_service option \<Rightarrow> u32 \<Rightarrow> CpaStatus \<times> u32 option" where
  "cpaDcBufferListGetMetaSize first inst num =
     (case ins_handle first inst of
        None \<Rightarrow> (CPA_STATUS_INVALID_PARAM, None)
      | Some srv \<Rightarrow>
          if \<not> is_compression srv then (CPA_STATUS_FAIL, None)
          else if num = 0 then (CPA_STATUS_INVALID_PARAM, None)
          else (CPA_STATUS_SUCCESS, Some (ucast ((16 :: u64) + 16 * ucast (num + 1) + 8))))"

definition CPA_DC_CEIL_DIV :: "u64 \<Rightarrow> u64 \<Rightarrow> u64" where
  "CPA_DC_CEIL_DIV x y = (x + y - 1) div y"

definition DC_DEST_BUFF_MIN_EXTRA_BYTES :: "u32 \<Rightarrow> u32" where
  "DC_DEST_BUFF_MIN_EXTRA_BYTES x = (if x < 8 then 8 - x else 0)"

abbreviation DC_BUF_MAX_SIZE :: u64 where "DC_BUF_MAX_SIZE \<equiv> 0xFFFFFFFF"

definition dcDeflateBoundGen2 :: "CpaDcHuffType \<Rightarrow> u32 \<Rightarrow> CpaStatus \<times> u32 option" where
  "dcDeflateBoundGen2 huffType inputSize =
     (let outBufferSize = CPA_DC_CEIL_DIV (9 * ucast inputSize) 8 + 55 +
            ucast (DC_DEST_BUFF_MIN_EXTRA_BYTES inputSize)
      in if outBufferSize > DC_BUF_MAX_SIZE
         then (CPA_STATUS_SUCCESS, Some (ucast DC_BUF_MAX_SIZE))
         else (CPA_STATUS_SUCCESS, Some (ucast outBufferSize)))"

definition checked_size :: "u64 \<Rightarrow> CpaStatus \<times> u32 option" where
  "checked_size outputSizeLong =
     (if outputSizeLong AND 0xFFFFFFFF00000000 \<noteq> 0 then (CPA_STATUS_INVALID_PARAM, None)
      else (CPA_STATUS_SUCCESS, Some (ucast outputSizeLong)))"

definition dcDeflateBoundGen4 :: "sal_compression_service \<Rightarrow> CpaDcHuffType \<Rightarrow> u32 \<Rightarrow> CpaStatus \<times> u32 option" where
  "dcDeflateBoundGen4 pService huffType inputSize =
     (let inputSizeLong = ucast inputSize :: u64
      in case huffType of
           CPA_DC_HT_STATIC \<Rightarrow> checked_size (CPA_DC_CEIL_DIV (9 * inputSizeLong) 8 + 1029)
         | CPA_DC_HT_FULL_DYNAMIC \<Rightarrow>
             checked_size (512 + CPA_DC_CEIL_DIV (9 * inputSizeLong) 8 +
               (if isGen4_2 pService then ((8 * inputSizeLong * 155) div 7) div (4 * 1024)
                else ((8 * inputSizeLong * 155) div 7) div (16 * 1024)))
         | CPA_DC_HT_PRECOMP \<Rightarrow> (CPA_STATUS_INVALID_PARAM, None))"

definition cpaDcDeflateCompressBound ::
  "sal_compression_service option \<Rightarrow> sal_compression_service option \<Rightarrow> CpaDcHuffType \<Rightarrow> u32 \<Rightarrow> CpaStatus \<times> u32 option" where
  "cpaDcDeflateCompressBound first inst huffType inputSize =
     (case ins_handle first inst of
        None \<Rightarrow> (CPA_STATUS_INVALID_PARAM, None)
      | Some srv \<Rightarrow>
          if \<not> is_compression srv then (CPA_STATUS_FAIL, None)
          else if inputSize = 0 then (CPA_STATUS_INVALID_PARAM, None)
          else if huffType \<noteq> CPA_DC_HT_STATIC \<and> huffType \<noteq> CPA_DC_HT_FULL_DYNAMIC
          then (CPA_STATUS_INVALID_PARAM, None)
          else if isGen4 srv then dcDeflateBoundGen4 srv huffType inputSize
          else dcDeflateBoundGen2 huffType inputSize)"

definition dcLZ4BoundGen4 :: "u32 \<Rightarrow> CpaStatus \<times> u32 option" where
  "dcLZ4BoundGen4 inputSize =
     checked_size (ucast inputSize + 1024 + CPA_DC_CEIL_DIV (ucast inputSize) 1520 * 13)"

definition dcLZ4SBoundGen4 :: "u32 \<Rightarrow> CpaStatus \<times> u32 option" where
  "dcLZ4SBoundGen4 inputSize =
     checked_size (ucast inputSize + 1024 + CPA_DC_CEIL_DIV (ucast inputSize) 18)"

definition cpaDcLZ4CompressBound ::
  "sal_compression_service option \<Rightarrow> sal_compression_service option \<Rightarrow> u32 \<Rightarrow> CpaStatus \<times> u32 option" where
  "cpaDcLZ4CompressBound first inst inputSize =
     (case ins_handle first inst of
        None \<Rightarrow> (CPA_STATUS_INVALID_PARAM, None)
      | Some srv \<Rightarrow>
          if \<not> is_compression srv then (CPA_STATUS_FAIL, None)
          else if inputSize = 0 then (CPA_STATUS_INVALID_PARAM, None)
          else if isGen4 srv then dcLZ4BoundGen4 inputSize else (CPA_STATUS_UNSUPPORTED, None))"

definition cpaDcLZ4SCompressBound ::
  "sal_compression_service option \<Rightarrow> sal_compression_service option \<Rightarrow> u32 \<Rightarrow> CpaStatus \<times> u32 option" where
  "cpaDcLZ4SCompressBound first inst inputSize =
     (case ins_handle first inst of
        None \<Rightarrow> (CPA_STATUS_INVALID_PARAM, None)
      | Some srv \<Rightarrow>
          if \<not> is_compression srv then (CPA_STATUS_FAIL, None)
          else if inputSize = 0 then (CPA_STATUS_INVALID_PARAM, None)
          else if isGen4 srv then dcLZ4SBoundGen4 inputSize else (CPA_STATUS_UNSUPPORTED, None))"

section \<open>Lemmas\<close>

lemma unat_mult_u64: "c * unat x < 2 ^ 64 \<Longrightarrow> unat (of_nat c * (x :: u64)) = c * unat x"
  by (simp add: unat_word_ariths unat_of_nat mod_mult_left_eq)

lemma in_range: "unat (x :: u32) < 2 ^ 32"
  using unsigned_less [of x, where 'a = nat] by simp

lemma ceil_div_unat:
  assumes "unat x + unat y < 2 ^ 64" and "0 < unat y"
  shows "unat (CPA_DC_CEIL_DIV x y) = (unat x + unat y - 1) div unat y"
proof -
  have s: "unat (x + y) = unat x + unat y" using assms by (simp add: unat_word_ariths)
  then have "1 \<le> x + y" using assms(2) by (simp add: word_le_nat_alt)
  then have "unat (x + y - 1) = unat x + unat y - 1" using s by (simp add: unat_sub)
  then show ?thesis by (simp add: CPA_DC_CEIL_DIV_def unat_div)
qed

lemma high_mask_bit: "bit (0xFFFFFFFF00000000 :: u64) i \<longleftrightarrow> 32 \<le> i \<and> i < 64"
proof -
  have "(0xFFFFFFFF00000000 :: u64) = push_bit 32 (mask 32)" by (simp add: mask_eq_exp_minus_1)
  then show ?thesis by (simp only: bit_push_bit_iff bit_mask_iff) auto
qed

lemma checked_size_unat:
  "checked_size x = (if unat x < 2 ^ 32 then (CPA_STATUS_SUCCESS, Some (ucast x)) else (CPA_STATUS_INVALID_PARAM, None))"
proof -
  have "x AND 0xFFFFFFFF00000000 = push_bit 32 (drop_bit 32 x)"
  proof (rule bit_word_eqI)
    fix i assume "i < LENGTH(64)"
    then show "bit (x AND 0xFFFFFFFF00000000) i = bit (push_bit 32 (drop_bit 32 x)) i"
      by (simp only: bit_and_iff high_mask_bit bit_push_bit_iff bit_drop_bit_eq) auto
  qed
  moreover have "unat (push_bit 32 (drop_bit 32 x)) = unat x div 2 ^ 32 * 2 ^ 32"
  proof -
    have p: "unat (2 ^ 32 :: u64) = 2 ^ 32" by simp
    have d: "unat (drop_bit 32 x) = unat x div 2 ^ 32" by (simp only: drop_bit_eq_div unat_div p)
    have "unat x div 2 ^ 32 * 2 ^ 32 \<le> unat x" by (rule div_times_less_eq_dividend)
    then have "unat x div 2 ^ 32 * 2 ^ 32 < 2 ^ 64" using unsigned_less [of x, where 'a = nat] by simp
    then show ?thesis by (simp only: push_bit_eq_mult unat_word_ariths d p) simp
  qed
  ultimately have "x AND 0xFFFFFFFF00000000 = 0 \<longleftrightarrow> unat x div 2 ^ 32 * 2 ^ 32 = 0"
    by (metis unat_eq_0)
  then show ?thesis by (simp add: checked_size_def div_eq_0_iff)
qed

lemma desc_loop_len: "desc_loop v2p ph op n bufs t = Some (st, es, t') \<Longrightarrow> length es \<le> n"
proof (induction v2p ph op n bufs t arbitrary: st es t' rule: desc_loop.induct)
  case (3 v2p ph op n b bufs t)
  then show ?case by (fastforce simp: Let_def split: if_splits)
qed simp_all

lemma desc_write_len:
  assumes "LacBuffDesc_CommonBufferListDescWrite v2p bl ph op = Some (st, addr, tot, Some d)"
    and "0 < unat (numBuffers bl)"
  shows "length (phyBuffers d) \<le> unat (numBuffers bl)"
    and "desc_addr d - pPrivateMetaData bl =
      LAC_ALIGN_POW2_ROUNDUP (v2p (pPrivateMetaData bl)) 8 - v2p (pPrivateMetaData bl)"
  using assms desc_loop_len
  by (fastforce simp: LacBuffDesc_CommonBufferListDescWrite_def Let_def split: if_splits option.splits)+

lemma meta_size_unat:
  fixes num :: u32
  assumes "unat num < 2 ^ 28 - 3"
  shows "unat (ucast ((16 :: u64) + 16 * ucast (num + 1) + 8) :: u32) = 40 + 16 * unat num"
proof -
  have n1: "unat (num + 1) = unat num + 1" using assms by (simp add: unat_word_ariths)
  have "unat ((16 :: u64) * ucast (num + 1)) = 16 * (unat num + 1)"
    using unat_mult_u64 [of 16 "ucast (num + 1)"] assms by (simp add: unat_u32_u64 n1)
  then have "unat ((16 :: u64) + 16 * ucast (num + 1) + 8) = 40 + 16 * unat num"
    using assms by (simp add: unat_word_ariths)
  then show ?thesis using assms by (simp add: unsigned_ucast_eq take_bit_nat_eq_self)
qed

lemma ceil9: "unat (CPA_DC_CEIL_DIV (9 * ucast (n :: u32)) 8) = (9 * unat n + 7) div 8"
proof -
  have "unat (9 * ucast n :: u64) = 9 * unat n"
    using unat_mult_u64 [of 9 "ucast n"] in_range [of n] by (simp add: unat_u32_u64)
  then show ?thesis using ceil_div_unat [of "9 * ucast n" 8] in_range [of n] by simp
qed

lemma dyn_extra: "unat ((8 * ucast (n :: u32) * 155 :: u64) div 7) = 1240 * unat n div 7"
proof -
  have "(8 * ucast n * 155 :: u64) = of_nat 1240 * ucast n" by simp
  then have "unat (8 * ucast n * 155 :: u64) = 1240 * unat n"
    using unat_mult_u64 [of 1240 "ucast n"] in_range [of n] by (simp only: unat_u32_u64) simp
  then show ?thesis by (simp add: unat_div)
qed

lemma min_extra: "unat (DC_DEST_BUFF_MIN_EXTRA_BYTES n) = 8 - unat n"
  by (auto simp: DC_DEST_BUFF_MIN_EXTRA_BYTES_def unat_sub word_less_nat_alt word_le_nat_alt)

lemma unat_u64_u32: "unat (x :: u64) < 2 ^ 32 \<Longrightarrow> unat (ucast x :: u32) = unat x"
  by (simp add: unsigned_ucast_eq take_bit_nat_eq_self)

lemma gen2_long:
  "unat (CPA_DC_CEIL_DIV (9 * ucast n) 8 + 55 + ucast (DC_DEST_BUFF_MIN_EXTRA_BYTES n) :: u64) =
     (9 * unat n + 7) div 8 + 55 + (8 - unat n)"
proof -
  have "(9 * unat n + 7) div 8 + 63 < 2 ^ 64" using in_range [of n] by simp
  then show ?thesis using ceil9 [of n] by (simp add: unat_word_ariths unat_u32_u64 min_extra)
qed

lemma gen4_static_long:
  "unat (CPA_DC_CEIL_DIV (9 * ucast (n :: u32)) 8 + 1029 :: u64) = (9 * unat n + 7) div 8 + 1029"
proof -
  have "(9 * unat n + 7) div 8 + 1029 < 2 ^ 64" using in_range [of n] by simp
  then show ?thesis using ceil9 [of n] by (simp add: unat_word_ariths)
qed

lemma gen4_dyn_long:
  fixes k :: u64
  assumes "0 < unat k"
  shows "unat (512 + CPA_DC_CEIL_DIV (9 * ucast (n :: u32)) 8 + (8 * ucast n * 155) div 7 div k :: u64) =
     512 + (9 * unat n + 7) div 8 + 1240 * unat n div 7 div unat k"
proof -
  have "1240 * unat n div 7 div unat k \<le> 1240 * unat n" by (meson div_le_dividend order_trans)
  then have "512 + (9 * unat n + 7) div 8 + 1240 * unat n div 7 div unat k < 2 ^ 64"
    using in_range [of n] by simp
  then show ?thesis using ceil9 [of n] dyn_extra [of n] by (simp add: unat_word_ariths unat_div)
qed

lemma gen2_bound:
  "\<exists>out. dcDeflateBoundGen2 h n = (CPA_STATUS_SUCCESS, Some out) \<and>
     unat out = min ((9 * unat n + 7) div 8 + 55 + (8 - unat n)) (2 ^ 32 - 1)"
proof -
  define x where "x = CPA_DC_CEIL_DIV (9 * ucast n) 8 + 55 + ucast (DC_DEST_BUFF_MIN_EXTRA_BYTES n)"
  have x: "unat x = (9 * unat n + 7) div 8 + 55 + (8 - unat n)" unfolding x_def by (rule gen2_long)
  have c: "x > DC_BUF_MAX_SIZE \<longleftrightarrow> 2 ^ 32 - 1 < unat x" by (simp add: word_less_nat_alt)
  show ?thesis
  proof (cases "x > DC_BUF_MAX_SIZE")
    case True
    then show ?thesis
      using c unfolding x [symmetric] by (simp add: dcDeflateBoundGen2_def x_def [symmetric])
  next
    case False
    then have "unat (ucast x :: u32) = unat x" using c by (intro unat_u64_u32) simp
    then show ?thesis
      using False c unfolding x [symmetric] by (simp add: dcDeflateBoundGen2_def x_def [symmetric])
  qed
qed

lemma checked_bound:
  assumes "unat x = b"
  shows "if 2 ^ 32 \<le> b then checked_size x = (CPA_STATUS_INVALID_PARAM, None)
    else \<exists>out. checked_size x = (CPA_STATUS_SUCCESS, Some out) \<and> unat out = min b (2 ^ 32 - 1)"
  using assms unat_u64_u32 [of x] by (auto simp: checked_size_unat)

section \<open>Properties\<close>

text \<open>C29. The meta data is large enough: for fewer than \<open>2\<^sup>2\<^sup>8 - 3\<close> buffers, a descriptor written into
  meta data of the size \<open>cpaDcBufferListGetMetaSize\<close> reports stays inside it, wherever it is aligned,
  for every kind of write and also when the write fails half-way.  The header of the descriptor and
  each of its entries take 16 bytes.\<close>

theorem desc_fits_meta_size:
  assumes size: "cpaDcBufferListGetMetaSize first inst (numBuffers bl) = (CPA_STATUS_SUCCESS, Some sz)"
    and num: "unat (numBuffers bl) < 2 ^ 28 - 3"
    and wr: "LacBuffDesc_CommonBufferListDescWrite v2p bl ph op = Some (st, addr, tot, Some d)"
    and paddr: "unat (v2p (pPrivateMetaData bl)) + 8 \<le> 2 ^ 64"
  shows "unat (desc_addr d - pPrivateMetaData bl) + 16 + 16 * length (phyBuffers d) \<le> unat sz"
proof -
  have nz: "numBuffers bl \<noteq> 0" and sz: "unat sz = 40 + 16 * unat (numBuffers bl)"
    using size meta_size_unat [OF num]
    by (auto simp: cpaDcBufferListGetMetaSize_def split: option.splits if_splits)
  have pos: "0 < unat (numBuffers bl)" using nz by (simp add: unat_gt_0)
  note d = desc_write_len [OF wr pos]
  have "unat (desc_addr d - pPrivateMetaData bl) < 8" unfolding d(2) by (rule align_8_bounds(3) [OF paddr])
  then show ?thesis using d(1) sz by linarith
qed

abbreviation "gen4_instance \<equiv> \<lparr>is_compression = True, isGen4 = True, isGen4_2 = False\<rparr>"

theorem desc_fits_meta_size_witness:
  "\<exists>sz st addr tot d. cpaDcBufferListGetMetaSize None (Some gen4_instance) 2 = (CPA_STATUS_SUCCESS, Some sz) \<and>
     LacBuffDesc_CommonBufferListDescWrite (\<lambda>a. a + 0x100000) list_example False WRITE_NORMAL = Some (st, addr, tot, Some d) \<and>
     unat (desc_addr d - 0x3004) + 16 + 16 * length (phyBuffers d) \<le> unat sz"
proof -
  have "cpaDcBufferListGetMetaSize None (Some gen4_instance) (numBuffers list_example) = (CPA_STATUS_SUCCESS, Some 72)"
    by (simp add: cpaDcBufferListGetMetaSize_def ins_handle_def list_example_def)
  moreover have "case LacBuffDesc_CommonBufferListDescWrite (\<lambda>a. a + 0x100000) list_example False WRITE_NORMAL of
      Some (st, addr, tot, Some d) \<Rightarrow> True | _ \<Rightarrow> False"
    by code_simp
  then have "\<exists>st addr tot d. LacBuffDesc_CommonBufferListDescWrite (\<lambda>a. a + 0x100000) list_example False WRITE_NORMAL =
      Some (st, addr, tot, Some d)"
    by (auto split: option.splits prod.splits)
  ultimately show ?thesis
    using desc_fits_meta_size [of None "Some gen4_instance" list_example 72 "\<lambda>a. a + 0x100000" False WRITE_NORMAL]
    by (fastforce simp: list_example_def)
qed



text \<open>The bound of deflate output is computed without wrap-around for every input size and every
  generation: on the fourth generation the exact bound, or an error if it does not fit into 32 bits;
  on the second the exact bound, capped at \<open>2\<^sup>3\<^sup>2 - 1\<close>.\<close>

lemma deflate_bound_exact:
  assumes "is_compression srv" and "0 < unat n" and "h \<noteq> CPA_DC_HT_PRECOMP"
  shows "let deflated = (9 * unat n + 7) div 8;
      bound = (if \<not> isGen4 srv then deflated + 55 + (8 - unat n)
               else if h = CPA_DC_HT_STATIC then deflated + 1029
               else 512 + deflated + 1240 * unat n div 7 div (if isGen4_2 srv then 4096 else 16384))
    in unat n < bound \<and>
       (if isGen4 srv \<and> 2 ^ 32 \<le> bound
        then cpaDcDeflateCompressBound first (Some srv) h n = (CPA_STATUS_INVALID_PARAM, None)
        else \<exists>out. cpaDcDeflateCompressBound first (Some srv) h n = (CPA_STATUS_SUCCESS, Some out) \<and>
               unat out = min bound (2 ^ 32 - 1))"
proof -
  have nz: "n \<noteq> 0" using assms(2) by auto
  then have eq: "cpaDcDeflateCompressBound first (Some srv) h n =
      (if isGen4 srv then dcDeflateBoundGen4 srv h n else dcDeflateBoundGen2 h n)"
    using assms by (cases h) (simp_all add: cpaDcDeflateCompressBound_def ins_handle_def)
  have gt: "unat n < (9 * unat n + 7) div 8 + k" if "0 < k" for k using that by linarith
  show ?thesis
  proof (cases "isGen4 srv")
    case False
    then show ?thesis using gen2_bound [of h n] gt [of "55 + (8 - unat n)"] by (simp add: eq Let_def add.assoc)
  next
    case gen4: True
    show ?thesis
    proof (cases h)
      case CPA_DC_HT_STATIC
      then have "cpaDcDeflateCompressBound first (Some srv) h n =
          checked_size (CPA_DC_CEIL_DIV (9 * ucast n) 8 + 1029)"
        using gen4 unfolding eq by (simp add: dcDeflateBoundGen4_def Let_def)
      then show ?thesis
        using gen4 CPA_DC_HT_STATIC checked_bound [OF gen4_static_long [of n]] gt [of 1029]
        by (simp only: Let_def if_True if_False simp_thms)
    next
      case CPA_DC_HT_FULL_DYNAMIC
      let ?k = "if isGen4_2 srv then 4096 else 16384 :: u64" and ?m = "if isGen4_2 srv then 4096 else 16384 :: nat"
      have k: "unat ?k = ?m" "0 < unat ?k" by simp_all
      have "cpaDcDeflateCompressBound first (Some srv) h n =
          checked_size (512 + CPA_DC_CEIL_DIV (9 * ucast n) 8 + (8 * ucast n * 155) div 7 div ?k)"
        using gen4 CPA_DC_HT_FULL_DYNAMIC unfolding eq by (simp add: dcDeflateBoundGen4_def Let_def)
      moreover have "unat n < 512 + (9 * unat n + 7) div 8 + 1240 * unat n div 7 div ?m"
        using gt [of "512 + 1240 * unat n div 7 div ?m"] by (simp add: ac_simps)
      ultimately show ?thesis
        using gen4 CPA_DC_HT_FULL_DYNAMIC checked_bound [OF gen4_dyn_long [OF k(2), of n], unfolded k(1)]
        by (simp only: Let_def if_True if_False simp_thms CpaDcHuffType.distinct)
    qed (use assms in simp)
  qed
qed

end
