(* ===== verification/Spec2Isabelle.thy ===== *)
theory Spec2Isabelle
  imports Usdm_Mem_Ops Adf_Ring Qat_Mgr Dc_Crc Dc_Buffers
begin

text \<open>
  A verification of the parts of the QuickAssist user-space library (qatlib) that manage memory,
  devices and messages.  Paths are relative to \<open>src/quickassist\<close>; \<open>AL\<close> stands for
  \<open>lookaside/access_layer/src\<close> and \<open>USDM\<close> for \<open>utilities/libusdm_drv/user_space\<close>.

  \<^bold>\<open>The program.\<close>  Applications hand buffers to an accelerator.  Buffers live in memory that the
  device can reach: the USDM library maps slabs of memory, gives each slab an I/O address (IOVA),
  records the translation in a user-space page table and cuts slabs into blocks.  The access layer
  turns buffer lists into descriptors of physical addresses and puts requests on a ring that the
  device reads; the device puts responses on a second ring that the library polls.  Checksums of the
  data are computed in software.  Virtual functions (VF) of a device are configured by a manager
  process: it asks the physical function (PF) for capabilities over a message register, divides the
  virtual functions into sections and gives each client process a section of its own.

  \<^bold>\<open>Theories.\<close>
  \<^item> \<open>Qat_Prelude\<close>: machine integers, status codes, generic lemmas on words and lists.
  \<^item> \<open>Usdm_Bitmap\<close> (\<open>USDM/qae_mem_utils_common.c\<close> and \<open>.h\<close>): the block allocator of a slab.  The record
    \<open>block_ctrl\<close> is \<open>block_ctrl_t\<close>; \<open>qae_mem_alloc\<close> and \<open>qae_mem_free\<close> are \<open>__qae_mem_alloc\<close> and
    \<open>__qae_mem_free\<close>, \<open>set_bitmap\<close> and \<open>clear_bitmap\<close> the word-wise range operations.  The locale
    \<open>bit_range_op\<close> is the contract of the two range operations; both are interpretations.  The
    lemmas show that the search over 64 bit windows is first fit, that blocks never overlap and
    that frees undo allocations.
  \<^item> \<open>Usdm_Iova\<close> (\<open>USDM/vfio/qae_mem_utils_vfio.c\<close>): the IOVA bitmap, with reservation and rollback, the
    cyclic search and the exclusion of reserved ranges.
  \<^item> \<open>Usdm_Page_Table\<close> (\<open>USDM/qae_page_table_common.h\<close>): the trie from virtual to physical addresses and
    the key of the slab that each entry carries.
  \<^item> \<open>Usdm_List\<close> (\<open>libusdm_drv/include/qae_mem_utils.h\<close>): the intrusive list macros, which refine the
    operations on HOL lists that \<open>Usdm_Mem\<close> uses for the lists of slabs.
  \<^item> \<open>Usdm_Mem\<close> (\<open>USDM/qae_mem_utils_common.c\<close> and \<open>.h\<close>, \<open>USDM/vfio/qae_mem_utils_vfio.c\<close>): the memory
    library as a whole.  The record \<open>usdm\<close> holds the static variables; \<open>qaeMemAllocNUMA\<close>,
    \<open>qae_memFreeNUMA\<close>, \<open>qaeMemInit\<close>, \<open>qaeMemDestroy\<close>, \<open>qaeRegisterDevice\<close>, \<open>qaeUnregisterDevice\<close> and the
    translations carry the names of the code, and \<open>mem_env\<close> gives the results of system calls.
    \<open>Usdm_Mem_Inv\<close> has the invariant, \<open>Usdm_Mem_Alloc\<close> and \<open>Usdm_Mem_Free\<close> show that the operations keep it,
    and \<open>Usdm_Mem_Ops\<close> has the reachable states (\<open>usdm_reach\<close>) of one process and the properties.
  \<^item> \<open>Dma_Memory\<close>: the locale \<open>dma_memory\<close>, what the services rely on when they hand memory to the device.
    \<open>Usdm_Mem_Ops\<close> interprets it on the memory library, \<open>Lac_Buffer_Desc\<close> uses it, and
    \<open>dma_reaches_buffers\<close> below joins the two.
  \<^item> \<open>Adf_Ring\<close> (\<open>AL/qat_direct/common/adf_user_ring.c\<close>, \<open>adf_user_ETring_mgr_dp.c\<close>,
    \<open>AL/qat_direct/vfio/adf_vfio_ring.c\<close>): rings.  The inductive relation \<open>chan_run\<close> interleaves sends,
    device steps and polls on a pair of rings; an invariant gives delivery in order, without loss
    and without overwriting.
  \<^item> \<open>Qat_Crc\<close>: shift registers and the locale \<open>crc_register\<close> with what any such checksum detects;
    interpreted on the CRC-8 of block messages (\<open>Adf_Pfvf\<close>) and on CRC-32 and CRC-64 (\<open>Dc_Crc\<close>).
  \<^item> \<open>Cpa_Buffer\<close>: the buffer lists of \<open>include/cpa.h\<close>.
  \<^item> \<open>Dc_Crc\<close> (\<open>AL/common/compression/dc_crc_base.c\<close>, \<open>dc_crc32.c\<close>, \<open>dc_crc64.c\<close>, \<open>dc_xxhash32.c\<close>): the
    tables equal the registers; the locale \<open>incremental_checksum\<close> lifts a checksum of one buffer to
    buffer lists.
  \<^item> \<open>Lac_Buffer_Desc\<close> (\<open>AL/common/utils/lac_buffer_desc.c\<close>) and \<open>Dc_Buffers\<close>
    (\<open>AL/common/compression/dc_buffers.c\<close>): descriptors, the size of their memory and the bounds of
    compressed data.
  \<^item> \<open>Adf_Pfvf\<close> (\<open>AL/qat_direct/vfio/adf_pfvf_proto.c\<close>) and \<open>Adf_Pfvf_Vf\<close> (\<open>adf_pfvf_vf_msg.c\<close>): the PF/VF
    protocol over a bus that may answer anything, and the requests of a virtual function.
  \<^item> \<open>Qat_Mgr_Config\<close> and \<open>Qat_Mgr\<close> (\<open>AL/qat_direct/vfio/qat_mgr_lib.c\<close>, \<open>utilities/qat_mgr/qat_mgr.c\<close>):
    the configuration of sections, devices and instances, the messages of clients and their
    interleaving (\<open>sys_run\<close>).

  \<^bold>\<open>Conventions.\<close>  Integers keep their width (\<open>u8\<close> to \<open>u64\<close> are words) where the code can wrap around;
  positions and counts that are bounded by construction are natural numbers.  A result \<open>None\<close> of an
  operation stands for an access outside an array or another undefined operation, and theorems show
  that it does not happen.  NULL is \<open>None\<close> or the address 0.  System calls, device registers, the
  peer behind a register and memory allocation are arguments: results chosen by the environment, or
  a record of functions.  Mutexes are an argument that says whether the lock was taken; operations
  are atomic where the code holds the mutex.

  \<^bold>\<open>Bounds and termination.\<close>  All loops are total functions.  The polling of a message register is
  bounded by the retry counts of the code (500 polls for an acknowledgement, 5 attempts of a
  request), the drain loop of a ring by the number of non-empty words of the ring, the IOVA search by the number
  of candidates, the bitmap search by the barrier word.  The loop of \<open>qae_reset_cache\<close> has a bound of
  one more than the length of the cache; \<open>destroy_ok\<close> shows that it is enough.

  \<^bold>\<open>Assumptions on the environment.\<close>  The theorems on the memory library hold for one process that does not
  fork after its first call (\<open>usdm_reach\<close> has a fixed process id), for a system that maps memory at
  page aligned addresses outside of what is mapped (\<open>env_ok\<close>), an IOMMU that unmaps what was mapped,
  and, for requests that need a large slab, as long as an I/O address is left (\<open>iova_left\<close>): without one
  the error path of \<open>ioctl_alloc_slab\<close> releases addresses that are in use.

  \<^bold>\<open>Not modelled.\<close>  Huge pages, which are switched off in the VFIO variant of the memory library, its
  per-thread variant (\<open>ICP_THREAD_SPECIFIC_USDM\<close>), and a process that forks while it holds slabs.  Cryptographic services and the firmware message formats (\<open>AL/common/crypto\<close>,
  \<open>lookaside/firmware\<close>) fill hardware structures whose meaning is given by the device; the service control layer
  (\<open>AL/common/ctrl\<close>, \<open>AL/user\<close>) is configuration by key-value strings; the compression sessions and data
  path (\<open>dc_session.c\<close>, \<open>dc_datapath.c\<close>, \<open>dc_chain.c\<close>) depend on the device for their results; OSAL wraps the
  operating system; \<open>sample_code\<close>, \<open>chaining-demo\<close>, \<open>switch_to_fill\<close>, \<open>compress_crc\<close>, \<open>preempt-demo\<close>,
  the measurement programs, \<open>accfg\<close>, \<open>idxd\<close> and \<open>fcontext\<close> are benchmarks and third-party code beside
  the library.  Logging is left out everywhere.
\<close>

section \<open>From buffers to the device\<close>

text \<open>C1. End to end: when a container is registered and the meta data and the buffers of a list lie in memory of
  the memory library, writing the descriptor succeeds, and an access of the device to the bytes that
  the descriptor names, one after the other, reaches exactly the bytes of the buffers, in order.\<close>

theorem dma_reaches_buffers:
  assumes "usdm_reach pid st" and "0 \<le> container_fd st"
    and "pBuffers bl = Some bufs" and "length bufs = unat (numBuffers bl)"
    and "allocated (live st) (pPrivateMetaData bl) k"
    and "\<forall>b \<in> set bufs. allocated (live st) (pData b) (unat (dataLenInBytes b))"
  shows "\<exists>addr tot d. LacBuffDesc_BufferListDescWriteAndGetSize (qaeVirtToPhysNUMA st) bl False =
      Some (CPA_STATUS_SUCCESS, Some addr, Some tot, Some d) \<and>
    desc_access (\<lambda>x. set (device_access st x)) d = map (\<lambda>x. {x}) (buffer_bytes bufs)"
proof -
  have "device_memory pid st = live st" using usdm_reach_inv [OF assms(1)] assms(2) by (simp add: device_memory_def)
  then show ?thesis using dma_memory.desc_reaches_buffers [OF um.dma_memory_axioms [of pid st] assms(3,4)] assms(5,6) by simp
qed

text \<open>Two buffers and their meta data in the memory of the example process.\<close>

definition dma_example :: CpaBufferList where
  "dma_example = \<lparr>numBuffers = 2, pBuffers = Some
     [\<lparr>dataLenInBytes = 2, pData = 0x20001000, contents = [1, 2]\<rparr>,
      \<lparr>dataLenInBytes = 1, pData = 0x20002000, contents = [3]\<rparr>], pPrivateMetaData = 0x20000000\<rparr>"

theorem dma_reaches_buffers_witness:
  "\<exists>st addr tot d. LacBuffDesc_BufferListDescWriteAndGetSize (qaeVirtToPhysNUMA st) dma_example False =
      Some (CPA_STATUS_SUCCESS, Some addr, Some tot, Some d) \<and>
    desc_access (\<lambda>x. set (device_access st x)) d = [{0x20001000}, {0x20001001}, {0x20002000}]"
proof -
  obtain st n where s: "usdm_reach 1 st" "(0x20000000, n) \<in> live st" "4194304 \<le> n" "container_fd st = 3" "mem_list st = []"
    by (rule example_state)
  have al: "allocated (live st) (0x20000000 + of_nat off) len" if "off + len < 4194304" for off len
    unfolding allocated_def using s(2,3) that by (intro exI conjI) (rule s(2), auto)
  have "allocated (live st) 0x20000000 8" "allocated (live st) 0x20001000 2" "allocated (live st) 0x20002000 1"
    using al [of 0 8] al [of 4096 2] al [of 8192 1] by simp_all
  moreover have "[0..<2] = [0, Suc 0]" "[0..<Suc 0] = [0]" by (simp_all add: upt_rec numeral_2_eq_2)
  ultimately show ?thesis
    using dma_reaches_buffers [OF s(1), of dma_example "the (pBuffers dma_example)" 8] s(4)
    by (auto simp: dma_example_def buffer_bytes_def)
qed

end
